(* ===== verification/Prelude.thy ===== *)
theory Prelude
  imports Complex_Main "HOL-Library.Word" "HOL-Library.Sublist"
begin

text \<open>
  What the components of the controller share: the machine integers, the exceptions of the C++
  standard library as values, and the lemmas on lists and words that the component theories use.

  \<^item> \<open>size_t\<close> and \<open>uint64\<close> are 64-bit words (the 64-bit targets the CMake presets build for);
    \<open>size_of\<close> is what \<open>size()\<close> returns.
  \<^item> A C++ exception is a value of \<open>exn\<close>, with the message the code constructs; a fallible
    operation returns \<open>exn + 'a\<close>. \<open>Undefined\<close> is undefined behaviour of the language
    (signed overflow, a floating-point value converted to an integer type that cannot hold it).
\<close>

type_synonym size_t = "64 word"
type_synonym uint64 = "64 word"

datatype exn =
    Invalid_Argument string
  | Length_Error string
  | Undefined string

type_synonym 'a result = "exn + 'a"

named_theorems size_simps \<open>reading a 64-bit size as a natural number\<close>

definition size_of :: "'a list \<Rightarrow> size_t" where
  "size_of xs = word_of_nat (length xs)"

definition fits :: "'a list \<Rightarrow> bool" where
  "fits xs \<longleftrightarrow> length xs < 2 ^ 64"

lemma unat_size_of [size_simps]: "fits xs \<Longrightarrow> unat (size_of xs) = length xs"
  by (simp add: size_of_def fits_def unat_of_nat)

lemma unat_below: "unat (c :: size_t) < 2 ^ 64"
proof -
  have "unat c < 2 ^ LENGTH(64)" by (rule unsigned_less)
  then show ?thesis by simp
qed

lemma fits_le: "length xs \<le> unat (c :: size_t) \<Longrightarrow> fits xs"
proof -
  have "unat c < 2 ^ 64" by (rule unat_below)
  moreover assume "length xs \<le> unat c"
  ultimately show ?thesis by (simp add: fits_def)
qed

lemma unat_size_of_le [size_simps]:
  "length xs \<le> unat (c :: size_t) \<Longrightarrow> unat (size_of xs) = length xs"
  by (simp add: unat_size_of fits_le)

lemma size_of_eq_iff [size_simps]:
  "length xs \<le> unat (c :: size_t) \<Longrightarrow> size_of xs = c \<longleftrightarrow> length xs = unat c"
  by (metis unat_size_of_le word_unat_eq_iff)

lemma unat_pos_iff [size_simps]: "0 < unat (c :: size_t) \<longleftrightarrow> c \<noteq> 0"
  by (simp add: unat_gt_0)

lemma unat_inc_less [size_simps]:
  "(a :: size_t) < b \<Longrightarrow> unat (a + 1) = Suc (unat a)"
proof -
  assume "a < b"
  then have "Suc (unat a) < 2 ^ 64"
    using unat_below [of b] by (simp add: word_less_nat_alt)
  then show ?thesis by (simp add: unat_word_ariths)
qed

lemma unat_dec_pos [size_simps]: "(a :: size_t) \<noteq> 0 \<Longrightarrow> unat (a - 1) = unat a - 1"
  by (rule unat_minus_one)

lemma unat_min [size_simps]: "unat (min a b :: size_t) = min (unat a) (unat b)"
  by (simp add: min_def word_le_nat_alt)

lemma unat_of_nat_dec [size_simps]:
  "0 < m \<Longrightarrow> m < 2 ^ 64 \<Longrightarrow> unat (of_nat m - 1 :: size_t) = m - 1"
proof -
  assume m: "0 < m" "m < 2 ^ 64"
  then have "unat (of_nat m :: size_t) = m" by (simp add: unat_of_nat)
  with m show ?thesis by (metis less_not_refl unat_0 unat_dec_pos)
qed

lemma unat_add_le: "unat (a :: size_t) + unat b \<le> unat (m :: size_t) \<Longrightarrow> unat (a + b) = unat a + unat b"
  using unat_below [of m] by (simp add: unat_plus_if_size word_size)

text \<open>The last \<open>n\<close> elements of a list: what a bounded queue still holds.\<close>

definition last_n :: "nat \<Rightarrow> 'a list \<Rightarrow> 'a list" where
  "last_n n xs = drop (length xs - n) xs"

lemma length_last_n [simp]: "length (last_n n xs) = min n (length xs)"
  by (auto simp: last_n_def)

lemma last_n_all [simp]: "length xs \<le> n \<Longrightarrow> last_n n xs = xs"
  by (simp add: last_n_def)

lemma last_n_eq_Nil [simp]: "last_n n xs = [] \<longleftrightarrow> n = 0 \<or> xs = []"
  by (cases n; cases xs) (auto simp: last_n_def)

lemma set_last_n: "set (last_n n xs) \<subseteq> set xs"
  by (simp add: last_n_def set_drop_subset)

lemma list_all_last_n [intro]: "list_all P xs \<Longrightarrow> list_all P (last_n n xs)"
  using set_last_n by (fastforce simp: list_all_iff)

lemma list_all_filter [simp]: "list_all P (filter P xs)"
  by (simp add: list_all_iff)

lemma list_all_replicate [simp]: "list_all P (replicate n x) \<longleftrightarrow> n = 0 \<or> P x"
  by (auto simp: list_all_iff)

lemma last_n_snoc:
  assumes "0 < n"
  shows "last_n n (xs @ [x]) = (if length xs < n then last_n n xs else tl (last_n n xs)) @ [x]"
proof (cases "length xs < n")
  case True
  then show ?thesis by (simp add: last_n_def)
next
  case False
  then have "Suc (length xs) - n = Suc (length xs - n)" using assms by simp
  with False assms show ?thesis by (cases n) (simp_all add: last_n_def drop_Suc drop_tl)
qed

text \<open>Splitting a list at a separator: always at least one piece, none of which has the separator.\<close>

fun split_on :: "'a \<Rightarrow> 'a list \<Rightarrow> 'a list list" where
  "split_on x [] = [[]]"
| "split_on x (y # ys) = (if y = x then [] # split_on x ys
     else (y # hd (split_on x ys)) # tl (split_on x ys))"

lemma split_on_not_Nil [simp]: "split_on x xs \<noteq> []"
  by (cases xs) auto

lemma split_on_none: "x \<notin> set xs \<Longrightarrow> split_on x xs = [xs]"
  by (induction xs) auto

lemma split_on_first: "x \<notin> set a \<Longrightarrow> split_on x (a @ x # b) = a # split_on x b"
  by (induction a) auto

lemma split_on_append:
  "split_on x (a @ b) = butlast (split_on x a) @ split_on x (last (split_on x a) @ b)"
proof (induction a)
  case (Cons y ys)
  show ?case
  proof (cases "tl (split_on x ys) = []")
    case True
    then obtain z where "split_on x ys = [z]" by (cases "split_on x ys") auto
    with Cons show ?thesis by auto
  next
    case False
    then obtain z zs where "split_on x ys = z # zs" "zs \<noteq> []" by (cases "split_on x ys") auto
    with Cons show ?thesis by auto
  qed
qed simp

lemma split_on_prefix: "x \<notin> set a \<Longrightarrow> prefix a (hd (split_on x (a @ b)))"
  by (induction a) auto

text \<open>
  The \<open>int\<close> of the code has 32 bits; a result outside its range is undefined behaviour, so an
  addition that the code performs on it is \<open>checked_int\<close> of the mathematical result.
\<close>

definition int_max :: int where
  "int_max = 2 ^ 31 - 1"

definition int_ok :: "int \<Rightarrow> bool" where
  "int_ok n \<longleftrightarrow> - (2 ^ 31) \<le> n \<and> n \<le> int_max"

definition checked_int :: "int \<Rightarrow> int result" where
  "checked_int n = (if int_ok n then Inr n else Inl (Undefined ''signed integer overflow''))"

lemma checked_int_Inr [simp]: "int_ok n \<Longrightarrow> checked_int n = Inr n"
  by (simp add: checked_int_def)

lemma int_okI: "0 \<le> n \<Longrightarrow> n \<le> m \<Longrightarrow> int_ok m \<Longrightarrow> int_ok n"
  by (simp add: int_ok_def)

text \<open>A reading of \<open>std::chrono::steady_clock\<close>: non-negative nanoseconds in a signed 64-bit count.\<close>

definition clock_ok :: "int \<Rightarrow> bool" where
  "clock_ok now \<longleftrightarrow> 0 \<le> now \<and> now < 2 ^ 63"

end
