(* ===== verification/F64.thy ===== *)
theory F64
  imports Prelude "HOL-Library.Log_Nat"
begin

text \<open>
  The \<open>double\<close> of the C++ code: IEEE 754 binary64 with the default rounding mode (to nearest,
  ties to even). A finite value is the rational number it denotes, so every definition computes;
  \<open>rnd\<close> rounds a rational to the precision of the format and \<open>to_f64\<close> adds the overflow to an
  infinity. The two zeros are one value: the code only compares, adds, multiplies, rounds up and
  divides by positive numbers, and none of these tells them apart.

  The lemmas are the facts of the format the component proofs rest on: rounding is monotone, leaves
  representable numbers alone, and errs by at most half a unit in the last place.
\<close>

named_theorems f64_simps \<open>evaluation of operations on finite doubles\<close>

subsection \<open>Rounding\<close>

definition expo :: "rat \<Rightarrow> int" where
  "expo q = (case quotient_of \<bar>q\<bar> of (n, d) \<Rightarrow>
     let k = bitlen n - bitlen d in if 2 powi k \<le> \<bar>q\<bar> then k else k - 1)"

definition ulp_exp :: "rat \<Rightarrow> int" where
  "ulp_exp q = max (expo q) (- 1022) - 52"

definition round_even :: "rat \<Rightarrow> int" where
  "round_even x = (let f = \<lfloor>x\<rfloor>; r = x - of_int f in
     if r < 1 / 2 then f else if 1 / 2 < r then f + 1 else if even f then f else f + 1)"

definition rnd :: "rat \<Rightarrow> rat" where
  "rnd q = (if q = 0 then 0
     else of_int (round_even (q / 2 powi ulp_exp q)) * 2 powi ulp_exp q)"

lemma pow2_diff: "(2::rat) powi (a - b) = 2 powi a / 2 powi b"
  by (simp add: power_int_diff)

lemma pow2_add: "(2::rat) powi (a + b) = 2 powi a * 2 powi b"
  by (simp add: power_int_add)

lemma pow2_le: "a \<le> b \<Longrightarrow> (2::rat) powi a \<le> 2 powi b"
  by (rule power_int_increasing) auto

lemma pow2_less: "a < b \<Longrightarrow> (2::rat) powi a < 2 powi b"
  by (rule power_int_strict_increasing) auto

lemma pow2_pos [simp]: "0 < (2::rat) powi a"
  by (rule zero_less_power_int) simp

lemma pow2_not_le [simp]: "\<not> (2::rat) powi a \<le> 0"
  using pow2_pos [of a] by linarith

lemma expo_bounds:
  assumes "q \<noteq> 0"
  shows "2 powi expo q \<le> \<bar>q\<bar> \<and> \<bar>q\<bar> < 2 powi (expo q + 1)"
proof -
  obtain n d where nd: "quotient_of \<bar>q\<bar> = (n, d)" by fastforce
  define i j where "i = bitlen n" and "j = bitlen d"
  have d: "0 < d" using nd by (rule quotient_of_denom_pos)
  have a: "\<bar>q\<bar> = of_int n / of_int d" using nd by (rule quotient_of_div)
  have n: "0 < n"
  proof -
    have "0 < \<bar>q\<bar> * of_int d" using assms d by simp
    then have "(0::rat) < of_int n" using a d by simp
    then show ?thesis by simp
  qed
  have bounds: "2 powi (bitlen m - 1) \<le> (of_int m :: rat) \<and> of_int m < (2 powi bitlen m :: rat)"
    if "0 < m" for m
  proof -
    have "0 < bitlen m" using that by (simp add: bitlen_alt_def add_nonneg_pos)
    moreover have "2 ^ nat (bitlen m - 1) \<le> m" "m < 2 ^ nat (bitlen m)"
      using bitlen_bounds [OF that] by auto
    then have "(of_int (2 ^ nat (bitlen m - 1)) :: rat) \<le> of_int m"
      "(of_int m :: rat) < of_int (2 ^ nat (bitlen m))" by (simp_all only: of_int_le_iff of_int_less_iff)
    ultimately show ?thesis by (simp add: power_int_def)
  qed
  have lo: "2 powi (i - j - 1) \<le> \<bar>q\<bar>"
  proof -
    have "2 powi (i - 1) / 2 powi j \<le> (of_int n / of_int d :: rat)"
      using bounds [OF n] bounds [OF d] d n unfolding i_def j_def
      by (intro frac_le) (auto intro: order.strict_implies_order)
    moreover have "i - j - 1 = (i - 1) - j" by simp
    ultimately show ?thesis by (simp only: a pow2_diff)
  qed
  have hi: "\<bar>q\<bar> < 2 powi (i - j + 1)"
  proof -
    have "(of_int n / of_int d :: rat) < 2 powi i / 2 powi (j - 1)"
      using bounds [OF n] bounds [OF d] d n unfolding i_def j_def
      by (intro frac_less) auto
    moreover have "i - j + 1 = i - (j - 1)" by simp
    ultimately show ?thesis by (simp only: a pow2_diff)
  qed
  show ?thesis
    using lo hi by (auto simp: expo_def nd Let_def i_def j_def algebra_simps not_le)
qed

lemma expo_less: "q \<noteq> 0 \<Longrightarrow> \<bar>q\<bar> < 2 powi e \<Longrightarrow> expo q < e"
proof (rule ccontr)
  assume "q \<noteq> 0" "\<bar>q\<bar> < 2 powi e" "\<not> expo q < e"
  then have "(2::rat) powi e \<le> 2 powi expo q" by (intro power_int_increasing) auto
  with expo_bounds [of q] \<open>q \<noteq> 0\<close> \<open>\<bar>q\<bar> < 2 powi e\<close> show False by linarith
qed

lemma expo_mono: "x \<noteq> 0 \<Longrightarrow> \<bar>x\<bar> \<le> \<bar>y\<bar> \<Longrightarrow> expo x \<le> expo y"
  using expo_less [of x "expo y + 1"] expo_bounds [of y] by fastforce

subsection \<open>Rounding to an integer, ties to even\<close>

lemma round_even_of_int [simp]: "round_even (of_int n) = n"
  by (simp add: round_even_def)

lemma round_even_mono:
  assumes "x \<le> y"
  shows "round_even x \<le> round_even y"
proof (cases "\<lfloor>x\<rfloor> = \<lfloor>y\<rfloor>")
  case True
  with assms show ?thesis by (auto simp: round_even_def Let_def)
next
  case False
  with floor_mono [OF assms] have "\<lfloor>x\<rfloor> + 1 \<le> \<lfloor>y\<rfloor>" by linarith
  then show ?thesis by (auto simp: round_even_def Let_def)
qed

lemma round_even_error: "\<bar>of_int (round_even x) - x\<bar> \<le> 1 / 2"
proof -
  have "of_int \<lfloor>x\<rfloor> \<le> x" "x < of_int \<lfloor>x\<rfloor> + 1" by linarith+
  then show ?thesis by (auto simp: round_even_def Let_def abs_le_iff)
qed

lemma round_even_minus: "round_even (- x) = - round_even x"
proof (cases "x = of_int \<lfloor>x\<rfloor>")
  case True
  then have "- x = of_int (- \<lfloor>x\<rfloor>)" by simp
  then show ?thesis by (metis True round_even_of_int)
next
  case False
  then have "\<lfloor>- x\<rfloor> = - \<lfloor>x\<rfloor> - 1" by (simp add: floor_minus ceiling_altdef)
  then show ?thesis by (auto simp: round_even_def Let_def)
qed

lemma round_even_ge: "of_int m \<le> x \<Longrightarrow> m \<le> round_even x"
  using round_even_mono [of "of_int m" x] by simp

lemma round_even_le: "x \<le> of_int m \<Longrightarrow> round_even x \<le> m"
  using round_even_mono [of x "of_int m"] by simp

subsection \<open>Rounding to binary64\<close>

lemma ulp_exp_mono: "x \<noteq> 0 \<Longrightarrow> \<bar>x\<bar> \<le> \<bar>y\<bar> \<Longrightarrow> ulp_exp x \<le> ulp_exp y"
  using expo_mono [of x y] by (auto simp: ulp_exp_def)

lemma ulp_exp_minus [simp]: "ulp_exp (- q) = ulp_exp q"
  by (simp add: ulp_exp_def expo_def)

lemma rnd_0 [simp]: "rnd 0 = 0"
  by (simp add: rnd_def)

lemma rnd_minus: "rnd (- q) = - rnd q"
  by (simp add: rnd_def round_even_minus)

lemma rnd_eq: "rnd q = of_int (round_even (q / 2 powi ulp_exp q)) * 2 powi ulp_exp q"
proof (cases "q = 0")
  case True
  then show ?thesis using round_even_of_int [of 0] by (simp add: rnd_def)
qed (simp add: rnd_def)

lemma rnd_error: "\<bar>rnd q - q\<bar> \<le> 2 powi ulp_exp q / 2"
proof -
  define u :: rat where "u = 2 powi ulp_exp q"
  have u: "0 < u" by (simp add: u_def)
  have "\<bar>rnd q - q\<bar> = \<bar>of_int (round_even (q / u)) - q / u\<bar> * u"
    using u by (simp add: rnd_eq u_def [symmetric] abs_mult_pos left_diff_distrib)
  also have "\<dots> \<le> 1 / 2 * u"
    using u round_even_error by (intro mult_right_mono) auto
  finally show ?thesis by (simp add: u_def)
qed

lemma rnd_exact_less:
  assumes "\<bar>m\<bar> < 2 ^ 53" and "- 1074 \<le> e"
  shows "rnd (of_int m * 2 powi e) = of_int m * 2 powi e"
proof (cases "m = 0")
  case False
  define q :: rat where "q = of_int m * 2 powi e"
  have q: "q \<noteq> 0" using False by (simp add: q_def)
  have "\<bar>of_int m\<bar> < (2 ^ 53 :: rat)"
    using assms(1) by (simp only: of_int_abs [symmetric] of_int_less_iff [symmetric, where ?'a = rat]) simp
  then have "\<bar>q\<bar> < 2 ^ 53 * 2 powi e" by (simp add: q_def abs_mult)
  also have "\<dots> = 2 powi (53 + e)" by (simp add: pow2_add)
  finally have "expo q < 53 + e" by (rule expo_less [OF q])
  with assms(2) have le: "ulp_exp q \<le> e" by (simp add: ulp_exp_def)
  define u where "u = ulp_exp q"
  obtain k where k: "e = u + int k" using le unfolding u_def by (metis zle_iff_zadd)
  have q_eq: "q = of_int (m * 2 ^ k) * 2 powi u" by (simp add: q_def k pow2_add)
  then have "q / 2 powi u = of_int (m * 2 ^ k)" by simp
  then have "rnd q = of_int (m * 2 ^ k) * 2 powi u"
    by (simp only: rnd_eq u_def [symmetric] round_even_of_int)
  with q_eq have "rnd q = q" by simp
  then show ?thesis by (simp only: q_def)
qed simp

lemma rnd_exact:
  assumes "\<bar>m\<bar> \<le> 2 ^ 53" and "- 1074 \<le> e"
  shows "rnd (of_int m * 2 powi e) = of_int m * 2 powi e"
proof (cases "\<bar>m\<bar> = 2 ^ 53")
  case True
  then obtain s :: int where s: "\<bar>s\<bar> = 1" "m = s * 2 ^ 53"
    by (metis abs_eq_iff' abs_one abs_minus_cancel mult_1 mult_minus1)
  then have "(of_int m * 2 powi e :: rat) = of_int (s * 2 ^ 52) * 2 powi (e + 1)"
    by (simp add: pow2_add)
  moreover have "\<bar>s * 2 ^ 52\<bar> < 2 ^ 53" using s by (simp add: abs_mult)
  ultimately show ?thesis using rnd_exact_less [of "s * 2 ^ 52" "e + 1"] assms(2) by simp
next
  case False
  with assms show ?thesis by (intro rnd_exact_less) auto
qed

lemma rnd_of_int [simp]: "\<bar>m\<bar> \<le> 2 ^ 53 \<Longrightarrow> rnd (of_int m) = of_int m"
  using rnd_exact [of m 0] by simp

lemma rnd_form: "\<exists>m e. rnd q = of_int m * 2 powi e \<and> \<bar>m\<bar> \<le> 2 ^ 53 \<and> - 1074 \<le> e"
proof (cases "q = 0")
  case True
  then show ?thesis by (intro exI [of _ 0] exI [of _ 0]) simp
next
  case False
  define u where "u = ulp_exp q"
  have "\<bar>q\<bar> < 2 powi (expo q + 1)" using expo_bounds [OF False] by simp
  also have "\<dots> \<le> 2 powi (53 + u)" by (rule pow2_le) (simp add: u_def ulp_exp_def)
  finally have "\<bar>q / 2 powi u\<bar> \<le> of_int (2 ^ 53)" by (simp add: pow2_add abs_divide field_simps)
  then have "q / 2 powi u \<le> of_int (2 ^ 53)" "of_int (- (2 ^ 53)) \<le> q / 2 powi u"
    by (simp_all only: abs_le_iff of_int_minus) linarith+
  then have "\<bar>round_even (q / 2 powi u)\<bar> \<le> 2 ^ 53"
    using round_even_le round_even_ge by (metis abs_le_iff minus_le_iff)
  moreover have "- 1074 \<le> u" by (simp add: u_def ulp_exp_def)
  ultimately show ?thesis using rnd_eq [of q] by (auto simp: u_def)
qed

lemma rnd_rnd [simp]: "rnd (rnd q) = rnd q"
  using rnd_form [of q] rnd_exact by metis

lemma rnd_nonneg: "0 \<le> q \<Longrightarrow> 0 \<le> rnd q"
  using round_even_ge [of 0 "q / 2 powi ulp_exp q"] by (simp add: rnd_eq)

lemma rnd_mono_pos:
  assumes "0 < x" and "x \<le> y"
  shows "rnd x \<le> rnd y"
proof -
  define u v where "u = ulp_exp x" and "v = ulp_exp y"
  have uv: "u \<le> v" using assms by (simp add: u_def v_def ulp_exp_mono)
  show ?thesis
  proof (cases "u = v")
    case True
    have "round_even (x / 2 powi v) \<le> round_even (y / 2 powi v)"
      using assms(2) by (intro round_even_mono divide_right_mono) auto
    then show ?thesis
      using True by (simp add: rnd_eq [of x] rnd_eq [of y] u_def [symmetric] v_def [symmetric])
  next
    case False
    have "x < 2 powi (expo x + 1)" using expo_bounds [of x] assms(1) by simp
    also have "\<dots> \<le> 2 powi (53 + u)" by (rule pow2_le) (simp add: u_def ulp_exp_def)
    finally have "x / 2 powi u \<le> of_int (2 ^ 53)" by (simp add: pow2_add field_simps)
    then have "round_even (x / 2 powi u) \<le> 2 ^ 53" by (rule round_even_le)
    then have "(of_int (round_even (x / 2 powi u)) :: rat) \<le> of_int (2 ^ 53)"
      by (simp only: of_int_le_iff)
    then have "rnd x \<le> 2 powi (53 + u)" by (simp add: rnd_eq u_def pow2_add)
    also have "\<dots> \<le> 2 powi (52 + v)" using False uv by (intro pow2_le) simp
    also have "\<dots> \<le> rnd y"
    proof -
      have "v = expo y - 52" using False uv by (auto simp: u_def v_def ulp_exp_def)
      then have "2 powi (52 + v) \<le> y" using expo_bounds [of y] assms by simp
      then have "of_int (2 ^ 52) \<le> y / 2 powi v" by (simp add: pow2_add field_simps)
      then have "2 ^ 52 \<le> round_even (y / 2 powi v)" by (rule round_even_ge)
      then have "of_int (2 ^ 52) \<le> (of_int (round_even (y / 2 powi v)) :: rat)"
        by (simp only: of_int_le_iff)
      then show ?thesis by (simp add: rnd_eq v_def pow2_add)
    qed
    finally show ?thesis .
  qed
qed

lemma rnd_mono:
  assumes "x \<le> y"
  shows "rnd x \<le> rnd y"
proof (cases "0 < x \<or> y < 0")
  case True
  then show ?thesis
    using assms rnd_mono_pos [of x y] rnd_mono_pos [of "- y" "- x"] by (auto simp: rnd_minus)
next
  case False
  then have "rnd x \<le> 0" "0 \<le> rnd y"
    using rnd_nonneg [of "- x"] rnd_nonneg [of y] by (auto simp: rnd_minus)
  then show ?thesis by linarith
qed

lemma rnd_le: "q \<le> a \<Longrightarrow> rnd a = a \<Longrightarrow> rnd q \<le> a"
  using rnd_mono [of q a] by simp

lemma rnd_ge: "a \<le> q \<Longrightarrow> rnd a = a \<Longrightarrow> a \<le> rnd q"
  using rnd_mono [of a q] by simp

lemma rnd_relative_error:
  assumes "2 powi (- 1022) \<le> \<bar>q\<bar>"
  shows "\<bar>rnd q - q\<bar> \<le> \<bar>q\<bar> / 2 ^ 53"
proof -
  have q: "q \<noteq> 0" using assms by (auto simp: not_le)
  have "(2::rat) powi (- 1022) < 2 powi (expo q + 1)"
    using assms expo_bounds [OF q] by linarith
  then have "- 1022 < expo q + 1" by (metis not_le pow2_le)
  then have "ulp_exp q = expo q - 52" by (simp add: ulp_exp_def)
  then have "2 powi ulp_exp q / 2 = (2::rat) powi expo q / 2 ^ 53" by (simp add: pow2_diff)
  also have "\<dots> \<le> \<bar>q\<bar> / 2 ^ 53" using expo_bounds [OF q] by (simp add: divide_right_mono)
  finally show ?thesis using rnd_error [of q] by linarith
qed

text \<open>Half an ulp in any range: relative for normal numbers, absolute below them.\<close>

definition eta :: rat where
  "eta = 2 powi (- 1075)"

lemma eta_pos [simp]: "0 < eta" "0 \<le> eta"
  using pow2_pos [of "- 1075"] by (simp_all add: eta_def)

lemma rnd_abs_error: "\<bar>rnd q - q\<bar> \<le> \<bar>q\<bar> / 2 ^ 53 + eta"
proof (cases "2 powi (- 1022) \<le> \<bar>q\<bar>")
  case True
  then show ?thesis using rnd_relative_error [of q] eta_pos by linarith
next
  case False
  have "2 powi ulp_exp q / 2 = eta" if "q \<noteq> 0"
  proof -
    have "expo q < - 1022" using False that by (intro expo_less) auto
    then have "ulp_exp q = - 1074" by (simp add: ulp_exp_def)
    then show ?thesis using pow2_diff [of "- 1074" 1] by (simp add: eta_def)
  qed
  moreover have "0 \<le> \<bar>q\<bar> / 2 ^ 53" by simp
  ultimately show ?thesis using rnd_error [of q] by (cases "q = 0") (auto intro: order_trans)
qed

lemma rnd_upper: "0 \<le> q \<Longrightarrow> q \<le> b \<Longrightarrow> rnd q \<le> q + b / 2 ^ 53 + eta"
  using rnd_abs_error [of q] by (simp add: abs_le_iff)

lemma rnd_upper_rel: "2 powi (- 1022) \<le> q \<Longrightarrow> rnd q \<le> q * (1 + 1 / 2 ^ 53)"
proof -
  assume q: "2 powi (- 1022) \<le> q"
  then have "\<bar>q\<bar> = q" using pow2_pos [of "- 1022"] by linarith
  then have "rnd q - q \<le> q / 2 ^ 53" using rnd_relative_error [of q] q by linarith
  then show ?thesis by (simp add: distrib_left)
qed

lemma rnd_between:
  assumes "2 powi (- 1022) \<le> q"
  shows "q * (1 - 1 / 2 ^ 53) \<le> rnd q \<and> rnd q \<le> q * (1 + 1 / 2 ^ 53)"
proof -
  have "\<bar>q\<bar> = q" using assms pow2_pos [of "- 1022"] by linarith
  then have "\<bar>rnd q - q\<bar> \<le> q / 2 ^ 53" using rnd_relative_error [of q] assms by simp
  then show ?thesis
    unfolding right_diff_distrib distrib_left mult_1_right times_divide_eq_right
    by (intro conjI; linarith)
qed

subsection \<open>The type and its operations\<close>

datatype f64 = Fin rat | PInf | NInf | NaN

definition max_f64 :: rat where
  "max_f64 = of_int (2 ^ 53 - 1) * 2 powi 971"

definition to_f64 :: "rat \<Rightarrow> f64" where
  "to_f64 q = (let r = rnd q in
     if max_f64 < r then PInf else if r < - max_f64 then NInf else Fin r)"

text \<open>The representable values, and the invariant of a \<open>double\<close>.\<close>

definition is_double :: "rat \<Rightarrow> bool" where
  "is_double x \<longleftrightarrow> rnd x = x \<and> \<bar>x\<bar> \<le> max_f64"

fun wf64 :: "f64 \<Rightarrow> bool" where
  "wf64 (Fin x) = is_double x"
| "wf64 _ = True"

fun isfinite :: "f64 \<Rightarrow> bool" where
  "isfinite (Fin _) = True"
| "isfinite _ = False"

fun f_val :: "f64 \<Rightarrow> rat" where
  "f_val (Fin x) = x"
| "f_val _ = 0"

fun f_lt :: "f64 \<Rightarrow> f64 \<Rightarrow> bool" where
  "f_lt NaN _ = False"
| "f_lt _ NaN = False"
| "f_lt (Fin x) (Fin y) = (x < y)"
| "f_lt NInf y = (y \<noteq> NInf)"
| "f_lt x PInf = (x \<noteq> PInf)"
| "f_lt _ _ = False"

fun f_eq :: "f64 \<Rightarrow> f64 \<Rightarrow> bool" where
  "f_eq NaN _ = False"
| "f_eq x y = (x = y)"

definition f_le :: "f64 \<Rightarrow> f64 \<Rightarrow> bool" where
  "f_le x y \<longleftrightarrow> f_lt x y \<or> f_eq x y"

definition f_ge :: "f64 \<Rightarrow> f64 \<Rightarrow> bool" where
  "f_ge x y = f_le y x"

fun f_add :: "f64 \<Rightarrow> f64 \<Rightarrow> f64" where
  "f_add NaN _ = NaN"
| "f_add _ NaN = NaN"
| "f_add (Fin x) (Fin y) = to_f64 (x + y)"
| "f_add PInf y = (if y = NInf then NaN else PInf)"
| "f_add NInf y = (if y = PInf then NaN else NInf)"
| "f_add _ y = y"

fun f_neg :: "f64 \<Rightarrow> f64" where
  "f_neg (Fin x) = Fin (- x)"
| "f_neg PInf = NInf"
| "f_neg NInf = PInf"
| "f_neg NaN = NaN"

definition f_sub :: "f64 \<Rightarrow> f64 \<Rightarrow> f64" where
  "f_sub x y = f_add x (f_neg y)"

text \<open>The sign of a product or quotient with an infinity: \<open>signed_inf\<close>.\<close>

definition f_sgn :: "f64 \<Rightarrow> rat" where
  "f_sgn x = (case x of Fin q \<Rightarrow> sgn q | PInf \<Rightarrow> 1 | NInf \<Rightarrow> - 1 | NaN \<Rightarrow> 0)"

definition signed_inf :: "rat \<Rightarrow> f64" where
  "signed_inf s = (if 0 < s then PInf else if s < 0 then NInf else NaN)"

fun f_mul :: "f64 \<Rightarrow> f64 \<Rightarrow> f64" where
  "f_mul NaN _ = NaN"
| "f_mul _ NaN = NaN"
| "f_mul (Fin x) (Fin y) = to_f64 (x * y)"
| "f_mul x y = signed_inf (f_sgn x * f_sgn y)"

text \<open>Division: a zero divisor counts as \<open>+0\<close>. The code divides by positive numbers only.\<close>

fun f_div :: "f64 \<Rightarrow> f64 \<Rightarrow> f64" where
  "f_div NaN _ = NaN"
| "f_div _ NaN = NaN"
| "f_div (Fin x) (Fin y) = (if y = 0 then signed_inf x else to_f64 (x / y))"
| "f_div x (Fin y) = (if y = 0 then x else signed_inf (f_sgn x * sgn y))"
| "f_div (Fin _) _ = Fin 0"
| "f_div _ _ = NaN"

text \<open>\<open>std::min\<close>, \<open>std::max\<close> (they return the first argument unless the comparison says
  otherwise, which fixes what they do with a NaN), \<open>std::ceil\<close>, and the conversions from an
  integer and to \<open>std::size_t\<close> (undefined unless the truncated value fits).\<close>

definition f_min :: "f64 \<Rightarrow> f64 \<Rightarrow> f64" where
  "f_min a b = (if f_lt b a then b else a)"

definition f_max :: "f64 \<Rightarrow> f64 \<Rightarrow> f64" where
  "f_max a b = (if f_lt a b then b else a)"

fun f_ceil :: "f64 \<Rightarrow> f64" where
  "f_ceil (Fin x) = Fin (of_int \<lceil>x\<rceil>)"
| "f_ceil x = x"

definition f_of_int :: "int \<Rightarrow> f64" where
  "f_of_int n = to_f64 (of_int n)"

definition f_of_size :: "size_t \<Rightarrow> f64" where
  "f_of_size n = f_of_int (uint n)"

fun f_to_size :: "f64 \<Rightarrow> size_t result" where
  "f_to_size (Fin x) = (let n = (if 0 \<le> x then \<lfloor>x\<rfloor> else \<lceil>x\<rceil>) in
     if 0 \<le> n \<and> n < 2 ^ 64 then Inr (word_of_int n) else Inl (Undefined ''double to size_t''))"
| "f_to_size _ = Inl (Undefined ''double to size_t'')"

declare f_to_size.simps [simp del, f64_simps]

subsection \<open>Evaluation\<close>

lemma rnd_eqI:
  assumes "2 ^ 52 * 2 powi u \<le> \<bar>q\<bar>" and "\<bar>q\<bar> < 2 ^ 53 * 2 powi u" and "- 1074 \<le> u"
    and "\<bar>q / 2 powi u - of_int m\<bar> < 1 / 2"
  shows "rnd q = of_int m * 2 powi u"
proof -
  have q: "q \<noteq> 0" using assms(1) by (auto simp: not_le)
  have "2 powi (52 + u) \<le> \<bar>q\<bar>" "\<bar>q\<bar> < 2 powi (53 + u)" using assms(1,2) by (simp_all add: pow2_add)
  then have "(2::rat) powi (52 + u) < 2 powi (expo q + 1)" "(2::rat) powi expo q < 2 powi (53 + u)"
    using expo_bounds [OF q] by linarith+
  then have "52 + u < expo q + 1" "expo q < 53 + u" by (metis not_le pow2_le)+
  with assms(3) have u: "ulp_exp q = u" by (simp add: ulp_exp_def)
  define x where "x = q / 2 powi u"
  have "\<bar>of_int (round_even x) - of_int m\<bar> < (1 :: rat)"
    using round_even_error [of x] assms(4) unfolding x_def [symmetric] by linarith
  then have "\<bar>of_int (round_even x - m)\<bar> < (1 :: rat)" by simp
  then have "round_even x = m" by linarith
  then show ?thesis by (simp add: rnd_eq u x_def)
qed

lemma rnd_numeral [f64_simps]:
  "(numeral k :: int) \<le> 2 ^ 53 \<Longrightarrow> rnd (numeral k) = numeral k"
  "(numeral k :: int) \<le> 2 ^ 53 \<Longrightarrow> rnd (- numeral k) = - numeral k"
  using rnd_of_int [of "numeral k"] rnd_of_int [of "- numeral k"] by simp_all

lemma rnd_1 [f64_simps]: "rnd 1 = 1"
  using rnd_of_int [of 1] by simp

lemma rnd_half: "rnd (1 / 2) = 1 / 2"
  using rnd_exact [of 1 "- 1"] by simp

lemma max_f64_big: "2 ^ 1000 \<le> max_f64"
  by (simp add: max_f64_def)

lemma rnd_max_f64 [simp]: "rnd max_f64 = max_f64"
  unfolding max_f64_def by (rule rnd_exact) simp_all

lemma rnd_abs_le_max: "\<bar>q\<bar> \<le> max_f64 \<Longrightarrow> \<bar>rnd q\<bar> \<le> max_f64"
  using rnd_le [of q max_f64] rnd_le [of "- q" max_f64] by (simp add: abs_le_iff rnd_minus)

lemma to_f64_Fin: "\<bar>q\<bar> \<le> max_f64 \<Longrightarrow> to_f64 q = Fin (rnd q)"
  using rnd_abs_le_max [of q] by (simp add: to_f64_def Let_def abs_le_iff)

lemma to_f64_small: "\<bar>q\<bar> \<le> 2 ^ 1000 \<Longrightarrow> to_f64 q = Fin (rnd q)"
  by (rule to_f64_Fin) (use max_f64_big in linarith)

lemma to_f64_le53: "\<bar>q\<bar> \<le> 2 ^ 53 \<Longrightarrow> to_f64 q = Fin (rnd q)"
proof (rule to_f64_small)
  have "(2 :: rat) ^ 53 \<le> 2 ^ 1000" by (rule power_increasing) auto
  then show "\<bar>q\<bar> \<le> 2 ^ 53 \<Longrightarrow> \<bar>q\<bar> \<le> 2 ^ 1000" by linarith
qed

lemma to_f64_of_int: "\<bar>m\<bar> \<le> 2 ^ 53 \<Longrightarrow> to_f64 (of_int m) = Fin (of_int m)"
proof -
  assume m: "\<bar>m\<bar> \<le> 2 ^ 53"
  then have "\<bar>of_int m\<bar> \<le> (of_int (2 ^ 53) :: rat)" by (simp only: of_int_abs [symmetric] of_int_le_iff)
  also have "(of_int (2 ^ 53) :: rat) \<le> 2 ^ 1000" by simp
  finally show ?thesis using m by (simp add: to_f64_small)
qed

lemma to_f64_numeral [f64_simps]:
  "(numeral k :: int) \<le> 2 ^ 53 \<Longrightarrow> to_f64 (numeral k) = Fin (numeral k)"
  using to_f64_of_int [of "numeral k"] by simp

lemma to_f64_exact: "is_double q \<Longrightarrow> to_f64 q = Fin q"
  by (simp add: is_double_def to_f64_Fin)

lemma wf64_to_f64 [simp]: "wf64 (to_f64 q)"
  by (auto simp: to_f64_def is_double_def Let_def abs_le_iff)

lemma wf64_numeral: "(numeral k :: int) \<le> 2 ^ 53 \<Longrightarrow> wf64 (Fin (numeral k))"
  using wf64_to_f64 [of "numeral k"] by (simp only: to_f64_numeral)

lemma f_lt_Fin_to_f64: "\<not> f_lt (to_f64 q) (Fin 0)" if "0 \<le> q"
  using rnd_nonneg [OF that] max_f64_big by (auto simp: to_f64_def Let_def)

subsection \<open>The order of the values\<close>

text \<open>
  \<open>std::sort\<close> needs a strict weak order, which \<open>operator<\<close> on doubles is once there is no NaN.
  The linear order below extends it (NaN last), so the library's \<open>sort\<close> applies; on the values
  the code sorts the two orders agree (\<open>f_lt_iff_less\<close>).
\<close>

fun f_rank :: "f64 \<Rightarrow> int \<times> rat" where
  "f_rank NInf = (0, 0)"
| "f_rank (Fin x) = (1, x)"
| "f_rank PInf = (2, 0)"
| "f_rank NaN = (3, 0)"

lemma f_rank_inj: "f_rank x = f_rank y \<Longrightarrow> x = y"
  by (cases x; cases y) auto

instantiation f64 :: linorder
begin

definition less_f64 :: "f64 \<Rightarrow> f64 \<Rightarrow> bool" where
  "less_f64 x y \<longleftrightarrow> fst (f_rank x) < fst (f_rank y) \<or>
     fst (f_rank x) = fst (f_rank y) \<and> snd (f_rank x) < snd (f_rank y)"

definition less_eq_f64 :: "f64 \<Rightarrow> f64 \<Rightarrow> bool" where
  "less_eq_f64 x y \<longleftrightarrow> x < y \<or> x = (y :: f64)"

instance
proof
  fix x y z :: f64
  show "(x < y) = (x \<le> y \<and> \<not> y \<le> x)" by (auto simp: less_eq_f64_def less_f64_def)
  show "x \<le> x" by (simp add: less_eq_f64_def)
  show "x \<le> y \<Longrightarrow> y \<le> z \<Longrightarrow> x \<le> z" by (auto simp: less_eq_f64_def less_f64_def)
  show "x \<le> y \<Longrightarrow> y \<le> x \<Longrightarrow> x = y" by (auto simp: less_eq_f64_def less_f64_def)
  show "x \<le> y \<or> y \<le> x"
    by (cases x; cases y) (auto simp: less_eq_f64_def less_f64_def)
qed

end

lemma Fin_less_eq [simp]: "Fin x \<le> Fin y \<longleftrightarrow> x \<le> y"
  by (auto simp: less_eq_f64_def less_f64_def)

lemma Fin_less [simp]: "Fin x < Fin y \<longleftrightarrow> x < y"
  by (simp add: less_f64_def)

lemma f_lt_iff_less: "x \<noteq> NaN \<Longrightarrow> y \<noteq> NaN \<Longrightarrow> f_lt x y \<longleftrightarrow> x < y"
  by (cases x; cases y) (simp_all add: less_f64_def)

lemma isfinite_iff: "isfinite x \<longleftrightarrow> (\<exists>q. x = Fin q)"
  by (cases x) auto

lemma isfinite_not_NaN: "isfinite x \<Longrightarrow> x \<noteq> NaN"
  by auto

lemma f_le_Fin [simp]: "f_le (Fin x) (Fin y) \<longleftrightarrow> x \<le> y"
  by (auto simp: f_le_def)

lemma f_ge_Fin [simp]: "f_ge (Fin x) (Fin y) \<longleftrightarrow> y \<le> x"
  by (simp add: f_ge_def)

end
