(* ===== verification/SlidingWindow.thy ===== *)
theory SlidingWindow
  imports F64 "HOL-Library.Multiset"
begin

text \<open>
  \<^verbatim>\<open>controller/src/sliding_window.cpp\<close>: a bounded FIFO of samples with an average and
  nearest-rank percentiles. The mutex makes every method atomic, so a method is one function of
  the object's state; a method that throws leaves the state as it was.

  The lemmas show that the window holds exactly the newest samples (\<open>add_samples_last_n\<close>), that a
  percentile is an order statistic of them, that the three percentiles the code names are the
  exact nearest rank in spite of the rounding of \<open>percentile / 100 * n\<close>, and that other
  percentiles are not.
\<close>

subsection \<open>The class\<close>

record sliding_window =
  sw_capacity :: size_t
  sw_samples :: "f64 list"

definition new_window :: "size_t \<Rightarrow> sliding_window result" where
  "new_window cap = (if cap = 0
     then Inl (Invalid_Argument ''SlidingWindow capacity must be greater than zero'')
     else Inr \<lparr>sw_capacity = cap, sw_samples = []\<rparr>)"

definition add_sample :: "f64 \<Rightarrow> sliding_window \<Rightarrow> sliding_window result" where
  "add_sample v w =
     (if \<not> isfinite v then Inl (Invalid_Argument ''SlidingWindow sample must be finite'')
      else let s = (if size_of (sw_samples w) = sw_capacity w
                    then tl (sw_samples w) else sw_samples w)
           in Inr (w\<lparr>sw_samples := s @ [v]\<rparr>))"

definition window_size :: "sliding_window \<Rightarrow> size_t" where
  "window_size w = size_of (sw_samples w)"

definition window_capacity :: "sliding_window \<Rightarrow> size_t" where
  "window_capacity w = sw_capacity w"

definition snapshot_unlocked :: "sliding_window \<Rightarrow> f64 list" where
  "snapshot_unlocked w = sw_samples w"

definition average :: "sliding_window \<Rightarrow> f64 option" where
  "average w = (let values = snapshot_unlocked w in
     if values = [] then None
     else Some (f_div (foldl f_add (Fin 0) values) (f_of_size (size_of values))))"

definition percentile :: "f64 \<Rightarrow> sliding_window \<Rightarrow> f64 option result" where
  "percentile p w =
     (if \<not> isfinite p \<or> f_lt p (Fin 0) \<or> f_lt (Fin 100) p
      then Inl (Invalid_Argument ''percentile must be in [0, 100]'')
      else let values = snapshot_unlocked w in
        if values = [] then Inr None
        else let sorted_values = sort values in
          if f_eq p (Fin 0) then Inr (Some (hd sorted_values))
          else let rank = f_ceil (f_mul (f_div p (Fin 100)) (f_of_size (size_of values))) in
            case f_to_size (f_max (Fin 1) rank) of
              Inl e \<Rightarrow> Inl e
            | Inr r \<Rightarrow>
                let index = r - 1
                in Inr (Some (sorted_values ! unat (min index (size_of values - 1)))))"

definition p50 :: "sliding_window \<Rightarrow> f64 option result" where
  "p50 w = percentile (Fin 50) w"

definition p95 :: "sliding_window \<Rightarrow> f64 option result" where
  "p95 w = percentile (Fin 95) w"

definition p99 :: "sliding_window \<Rightarrow> f64 option result" where
  "p99 w = percentile (Fin 99) w"

subsection \<open>The invariant and the contents\<close>

definition window_ok :: "sliding_window \<Rightarrow> bool" where
  "window_ok w \<longleftrightarrow> sw_capacity w \<noteq> 0 \<and> length (sw_samples w) \<le> unat (sw_capacity w) \<and>
     list_all isfinite (sw_samples w)"

lemma new_window_ok: "new_window cap = Inr w \<Longrightarrow> window_ok w"
  by (auto simp: new_window_def window_ok_def split: if_splits)

lemma add_sample_eq:
  assumes "window_ok w" and "isfinite v"
  shows "add_sample v w =
    Inr (w\<lparr>sw_samples := last_n (unat (sw_capacity w)) (sw_samples w @ [v])\<rparr>)"
  using assms by (auto simp: add_sample_def window_ok_def size_simps Let_def last_n_snoc)

lemma add_sample_error: "\<not> isfinite v \<Longrightarrow>
    add_sample v w = Inl (Invalid_Argument ''SlidingWindow sample must be finite'')"
  by (simp add: add_sample_def)

lemma add_sample_ok: "window_ok w \<Longrightarrow> add_sample v w = Inr w' \<Longrightarrow> window_ok w'"
  by (cases "isfinite v")
    (auto simp: add_sample_eq add_sample_error window_ok_def intro!: list_all_last_n)

lemma add_sample_capacity: "add_sample v w = Inr w' \<Longrightarrow> sw_capacity w' = sw_capacity w"
  by (auto simp: add_sample_def Let_def split: if_splits)

text \<open>A run of \<open>add_sample\<close> calls: a call that throws changes nothing.\<close>

fun add_samples :: "f64 list \<Rightarrow> sliding_window \<Rightarrow> sliding_window" where
  "add_samples [] w = w"
| "add_samples (v # vs) w =
     add_samples vs (case add_sample v w of Inl _ \<Rightarrow> w | Inr w' \<Rightarrow> w')"

lemma last_n_last_n_append: "0 < n \<Longrightarrow> last_n n (last_n n xs @ ys) = last_n n (xs @ ys)"
proof (induction ys rule: rev_induct)
  case (snoc y ys)
  then show ?case by (simp add: last_n_snoc flip: append_assoc) (auto simp: last_n_def)
qed (auto simp: last_n_def)

subsection \<open>The contract of a window of samples\<close>

text \<open>What the users of a window rely on; the metrics of the proxy are one.\<close>

locale sample_window =
  fixes wok :: "'w \<Rightarrow> bool" and wadd :: "f64 \<Rightarrow> 'w \<Rightarrow> 'w result"
    and contents :: "'w \<Rightarrow> f64 list" and wcap :: "'w \<Rightarrow> nat"
  assumes bounded: "wok w \<Longrightarrow> 0 < wcap w \<and> length (contents w) \<le> wcap w"
    and add_finite: "wok w \<Longrightarrow> isfinite v \<Longrightarrow> \<exists>w'. wadd v w = Inr w' \<and> wok w' \<and> wcap w' = wcap w \<and>
      contents w' = last_n (wcap w) (contents w @ [v])"
    and add_refused: "\<not> isfinite v \<Longrightarrow> \<exists>e. wadd v w = Inl e"
begin

definition offer :: "f64 \<Rightarrow> 'w \<Rightarrow> 'w" where
  "offer v w = (case wadd v w of Inl _ \<Rightarrow> w | Inr w' \<Rightarrow> w')"

lemma offer_finite: "wok w \<Longrightarrow> isfinite v \<Longrightarrow> wadd v w = Inr (offer v w) \<and> wok (offer v w) \<and>
    wcap (offer v w) = wcap w \<and> contents (offer v w) = last_n (wcap w) (contents w @ [v])"
  using add_finite [of w v] by (auto simp: offer_def)

lemma offer_all: "wok w \<Longrightarrow> wok (fold offer vs w) \<and> wcap (fold offer vs w) = wcap w \<and>
    contents (fold offer vs w) = last_n (wcap w) (contents w @ filter isfinite vs)"
proof (induction vs arbitrary: w)
  case Nil
  then show ?case using bounded by simp
next
  case (Cons v vs)
  show ?case
  proof (cases "isfinite v")
    case True
    then show ?thesis using offer_finite [OF Cons.prems True] Cons.IH [of "offer v w"]
        bounded [OF Cons.prems] by (simp add: last_n_last_n_append)
  next
    case False
    then obtain e where "wadd v w = Inl e" using add_refused by blast
    then show ?thesis using Cons False by (simp add: offer_def)
  qed
qed

end

interpretation window: sample_window window_ok add_sample sw_samples "\<lambda>w. unat (sw_capacity w)"
proof
  fix w v
  show "window_ok w \<Longrightarrow> 0 < unat (sw_capacity w) \<and> length (sw_samples w) \<le> unat (sw_capacity w)"
    by (simp add: window_ok_def unat_gt_0)
  show "window_ok w \<Longrightarrow> isfinite v \<Longrightarrow> \<exists>w'. add_sample v w = Inr w' \<and> window_ok w' \<and>
      unat (sw_capacity w') = unat (sw_capacity w) \<and>
      sw_samples w' = last_n (unat (sw_capacity w)) (sw_samples w @ [v])"
    using add_sample_ok [of w v] by (simp add: add_sample_eq)
  show "\<not> isfinite v \<Longrightarrow> \<exists>e. add_sample v w = Inl e" by (simp add: add_sample_error)
qed

lemma add_samples_offer: "add_samples vs w = fold window.offer vs w"
  by (induction vs arbitrary: w) (simp_all add: window.offer_def)

lemma add_samples_contents: "window_ok w \<Longrightarrow> sw_samples (add_samples vs w) =
    last_n (unat (sw_capacity w)) (sw_samples w @ filter isfinite vs)"
  by (simp add: add_samples_offer window.offer_all)

lemma add_samples_ok: "window_ok w \<Longrightarrow> window_ok (add_samples vs w)"
  by (simp add: add_samples_offer window.offer_all)

subsection \<open>Percentiles\<close>

text \<open>The value at position \<open>k\<close> of the sorted samples is their \<open>k\<close>-th order statistic.\<close>

definition order_statistic :: "'a::linorder list \<Rightarrow> nat \<Rightarrow> 'a \<Rightarrow> bool" where
  "order_statistic xs k v \<longleftrightarrow> v \<in> set xs \<and>
     length (filter (\<lambda>x. x < v) xs) \<le> k \<and> k < length (filter (\<lambda>x. x \<le> v) xs)"

lemma order_statistic_sort:
  assumes "k < length xs"
  shows "order_statistic xs k (sort xs ! k)"
proof -
  define ys v where "ys = sort xs" and "v = ys ! k"
  have k: "k < length ys" and srt: "sorted ys" using assms by (simp_all add: ys_def)
  have filt: "length (filter P xs) = length (filter P ys)" for P
    by (metis mset_filter mset_sort size_mset ys_def)
  have "\<not> x < v" if "x \<in> set (drop k ys)" for x
    using that k srt by (auto simp: v_def in_set_conv_nth not_less intro!: sorted_nth_mono)
  then have "filter (\<lambda>x. x < v) (drop k ys) = []" by (simp add: filter_empty_conv)
  then have "filter (\<lambda>x. x < v) ys = filter (\<lambda>x. x < v) (take k ys)"
    by (metis append_Nil2 append_take_drop_id filter_append)
  then have lt: "length (filter (\<lambda>x. x < v) ys) \<le> k"
    using length_filter_le [of "\<lambda>x. x < v" "take k ys"] by simp
  have "x \<le> v" if "x \<in> set (take (Suc k) ys)" for x
    using that k srt by (auto simp: v_def in_set_conv_nth intro!: sorted_nth_mono)
  then have "filter (\<lambda>x. x \<le> v) (take (Suc k) ys) = take (Suc k) ys" by (simp add: filter_id_conv)
  then have "Suc k \<le> length (filter (\<lambda>x. x \<le> v) ys)"
    using k by (metis append_take_drop_id filter_append le_add1 length_append length_take min.absorb2 Suc_leI)
  moreover have "v \<in> set xs" using k by (metis nth_mem set_sort v_def ys_def)
  ultimately show ?thesis
    using lt filt by (simp add: order_statistic_def v_def [symmetric] ys_def [symmetric])
qed

text \<open>
  The index the code computes for a percentage \<open>p\<close> and \<open>n\<close> samples, and the index the comment in
  the header documents (\<open>rank = ceil(percentile / 100 * sample_count)\<close>, without rounding errors).
\<close>

definition code_rank :: "rat \<Rightarrow> nat \<Rightarrow> int" where
  "code_rank p n = \<lceil>rnd (rnd (p / 100) * of_nat n)\<rceil>"

definition nearest_rank :: "rat \<Rightarrow> nat \<Rightarrow> int" where
  "nearest_rank p n = \<lceil>p / 100 * of_nat n\<rceil>"

lemma rnd_percent_bounds:
  assumes "0 \<le> p" and "p \<le> 100"
  shows "0 \<le> rnd (p / 100) \<and> rnd (p / 100) \<le> 1"
  using assms rnd_nonneg [of "p / 100"] rnd_le [of "p / 100" 1] by (simp add: rnd_1)

lemma code_rank_bounds:
  assumes "0 \<le> p" "p \<le> 100" "n \<le> 2 ^ 53"
  shows "0 \<le> code_rank p n \<and> code_rank p n \<le> int n"
proof -
  define c where "c = rnd (p / 100)"
  have c: "0 \<le> c" "c \<le> 1" using rnd_percent_bounds [OF assms(1,2)] by (simp_all add: c_def)
  have "rnd (of_nat n) = of_nat n" using rnd_of_int [of "int n"] assms(3) by simp
  moreover have "c * of_nat n \<le> of_nat n" using c by (simp add: mult_left_le_one_le)
  ultimately have "rnd (c * of_nat n) \<le> of_nat n" by (rule rnd_le [rotated])
  moreover have "0 \<le> rnd (c * of_nat n)" using c by (simp add: rnd_nonneg)
  ultimately show ?thesis by (simp add: code_rank_def c_def ceiling_le_iff)
qed

lemma f_to_size_of_int: "0 \<le> k \<Longrightarrow> k < 2 ^ 64 \<Longrightarrow> f_to_size (Fin (of_int k)) = Inr (word_of_int k)"
  by (simp add: f64_simps)

text \<open>What \<open>percentile\<close> returns, in terms of the computed rank.\<close>

lemma percentile_eq:
  assumes w: "window_ok w" and ne: "sw_samples w \<noteq> []" and small: "length (sw_samples w) \<le> 2 ^ 53"
    and p: "0 \<le> p" "p \<le> 100"
  shows "percentile (Fin p) w = Inr (Some (sort (sw_samples w) !
    nat (max 1 (code_rank p (length (sw_samples w))) - 1)))"
proof (cases "p = 0")
  case True
  have "code_rank 0 (length (sw_samples w)) = 0" by (simp add: code_rank_def)
  moreover have "hd (sort (sw_samples w)) = sort (sw_samples w) ! 0"
    using ne by (metis hd_conv_nth length_sort list.size(3) length_0_conv)
  ultimately show ?thesis using True ne by (simp add: percentile_def snapshot_unlocked_def)
next
  case False
  define n where "n = length (sw_samples w)"
  have n: "0 < n" "n \<le> 2 ^ 53" using ne small by (simp_all add: n_def)
  have un: "unat (size_of (sw_samples w)) = n"
    using w by (auto simp: window_ok_def n_def intro: unat_size_of_le)
  then have uint_n: "uint (size_of (sw_samples w)) = int n" by (metis uint_nat)
  define c where "c = rnd (p / 100)"
  have c: "0 \<le> c" "c \<le> 1" using rnd_percent_bounds [OF p] by (simp_all add: c_def)
  have div: "f_div (Fin p) (Fin 100) = Fin c"
    using p by (simp add: to_f64_le53 c_def)
  have "0 \<le> c * of_nat n" using c by simp
  moreover have "c * of_nat n \<le> 2 ^ 53"
  proof -
    have "c * of_nat n \<le> 1 * of_nat n" using c by (intro mult_right_mono) auto
    also have "\<dots> \<le> (of_nat (2 ^ 53) :: rat)" using n by (simp only: mult_1 of_nat_le_iff)
    finally show ?thesis by simp
  qed
  ultimately have "\<bar>c * of_nat n\<bar> \<le> 2 ^ 53" by linarith
  moreover have "f_of_size (size_of (sw_samples w)) = Fin (of_nat n)"
    using to_f64_of_int [of "int n"] n by (simp add: f_of_size_def f_of_int_def uint_n)
  ultimately have rank: "f_ceil (f_mul (f_div (Fin p) (Fin 100)) (f_of_size (size_of (sw_samples w))))
      = Fin (of_int (code_rank p n))"
    unfolding div by (simp add: to_f64_le53 code_rank_def c_def)
  define r where "r = max 1 (code_rank p n)"
  have r: "1 \<le> r" "r \<le> int n"
    using code_rank_bounds [OF p n(2)] n(1) by (auto simp: r_def)
  have "f_max (Fin 1) (Fin (of_int (code_rank p n))) = Fin (of_int r)"
    by (auto simp: f_max_def r_def max_def)
  moreover have "f_to_size (Fin (of_int r)) = Inr (word_of_int r)"
    by (rule f_to_size_of_int) (use r n in auto)
  moreover have "unat (min (word_of_int r - 1) (size_of (sw_samples w) - 1)) = nat (r - 1)"
  proof -
    obtain m where m: "r = int m" using r by (metis nat_0_le order_trans zero_le_one)
    then have mn: "0 < m" "m \<le> n" "m < 2 ^ 64" using r n by simp_all
    then have "unat (of_nat m - 1 :: size_t) = m - 1" by (simp add: unat_of_nat_dec)
    moreover have "unat (size_of (sw_samples w) - 1) = n - 1"
      using un n(1) by (subst unat_dec_pos) (auto simp flip: unat_gt_0)
    ultimately show ?thesis using mn by (simp add: m size_simps)
  qed
  moreover have "percentile (Fin p) w =
      (case f_to_size (f_max (Fin 1) (f_ceil (f_mul (f_div (Fin p) (Fin 100))
         (f_of_size (size_of (sw_samples w)))))) of
        Inl e \<Rightarrow> Inl e
      | Inr r \<Rightarrow> Inr (Some (sort (sw_samples w) ! unat (min (r - 1) (size_of (sw_samples w) - 1)))))"
    using p False ne by (simp add: percentile_def snapshot_unlocked_def Let_def
          del: f_div.simps f_mul.simps split: sum.split)
  ultimately show ?thesis by (simp only: rank sum.case r_def n_def)
qed

lemma percentile_empty: "0 \<le> p \<Longrightarrow> p \<le> 100 \<Longrightarrow> sw_samples w = [] \<Longrightarrow> percentile (Fin p) w = Inr None"
  by (simp add: percentile_def snapshot_unlocked_def)

lemma percentile_out_of_range:
  "\<not> (\<exists>q. p = Fin q \<and> 0 \<le> q \<and> q \<le> 100) \<Longrightarrow>
    percentile p w = Inl (Invalid_Argument ''percentile must be in [0, 100]'')"
  by (cases p) (auto simp: percentile_def)

lemma code_rank_mono:
  assumes "p \<le> q"
  shows "code_rank p n \<le> code_rank q n"
  unfolding code_rank_def
  by (intro ceiling_mono rnd_mono mult_right_mono divide_right_mono assms) auto

lemma rnd_percent_0 [simp]: "code_rank 0 n = 0"
  by (simp add: code_rank_def)

lemma code_rank_100: "n \<le> 2 ^ 53 \<Longrightarrow> code_rank 100 n = int n"
  using rnd_of_int [of "int n"] by (simp add: code_rank_def rnd_1)

text \<open>
  With \<open>n\<close> up to \<open>2 ^ 40\<close> the rounding error of the product is below \<open>2 ^ -13\<close>. If the quotient
  \<open>p / 100\<close> was not rounded up, the product cannot pass an integer the exact value does not
  reach, and it stays above the integer below since \<open>p / 100 * n\<close> is a multiple of \<open>1/100\<close>.
\<close>

lemma code_rank_exact:
  assumes p: "0 < p" "p \<le> 100" and down: "rnd (of_int p / 100) \<le> of_int p / 100"
    and n: "0 < n" "n \<le> 2 ^ 40"
  shows "code_rank (of_int p) n = nearest_rank (of_int p) n"
proof -
  define t c :: rat where "t = of_int p / 100" and "c = rnd t"
  define x where "x = t * of_nat n"
  define k where "k = \<lceil>x\<rceil>"
  have nq: "(of_nat n :: rat) \<le> 2 ^ 40"
    using n(2) by (metis of_nat_le_iff of_nat_numeral of_nat_power)
  have t: "1 / 100 \<le> t" "t \<le> 1" using p by (simp_all add: t_def)
  have ct: "c \<le> t" using down by (simp add: c_def t_def)
  have "(2::rat) powi (- 1022) \<le> \<bar>t\<bar>"
    using t pow2_le [of "- 1022" "- 7"] by (simp add: abs_of_nonneg)
  then have "\<bar>c - t\<bar> \<le> t / 2 ^ 53" using rnd_relative_error [of t] t by (simp add: c_def)
  then have "t - c \<le> t / 2 ^ 53" by (simp only: abs_le_iff) linarith
  also have "t / 2 ^ 53 \<le> 1 / 2 ^ 53" using t by (simp add: divide_right_mono)
  finally have c: "t - 1 / 2 ^ 53 \<le> c" by linarith
  have c0: "1 / 128 \<le> c" using c t by simp
  define y where "y = c * of_nat n"
  have y_le: "y \<le> x" unfolding y_def x_def using ct by (intro mult_right_mono) auto
  have y_ge: "x - 1 / 2 ^ 13 \<le> y"
  proof -
    have "(t - 1 / 2 ^ 53) * of_nat n \<le> y" unfolding y_def using c by (intro mult_right_mono) auto
    moreover have "1 / 2 ^ 53 * of_nat n \<le> (1 / 2 ^ 13 :: rat)" using nq by simp
    ultimately show ?thesis by (simp add: x_def left_diff_distrib)
  qed
  have y_pos: "1 / 128 \<le> y"
  proof -
    have "1 / 128 * 1 \<le> c * of_nat n" using c0 n(1) by (intro mult_mono) auto
    then show ?thesis by (simp add: y_def)
  qed
  have y_small: "y \<le> 2 ^ 40"
  proof -
    have "x \<le> 1 * of_nat n" unfolding x_def using t by (intro mult_right_mono) auto
    with nq y_le show ?thesis by linarith
  qed
  have "(2::rat) powi (- 1022) \<le> \<bar>y\<bar>"
    using y_pos pow2_le [of "- 1022" "- 7"] by (simp add: abs_of_nonneg)
  then have "\<bar>rnd y - y\<bar> \<le> y / 2 ^ 53" using rnd_relative_error [of y] y_pos by simp
  also have "y / 2 ^ 53 \<le> 1 / 2 ^ 13" using y_small by simp
  finally have lower: "x - 2 / 2 ^ 13 \<le> rnd y" using y_ge by linarith
  have k_small: "\<bar>k\<bar> \<le> 2 ^ 53"
  proof -
    have "0 \<le> x" using t by (simp add: x_def)
    moreover have "x \<le> 1 * of_nat n" unfolding x_def using t by (intro mult_right_mono) auto
    then have "x \<le> of_int (2 ^ 53)" using nq by simp
    then have "k \<le> 2 ^ 53" by (simp add: k_def ceiling_le_iff)
    ultimately show ?thesis by (simp add: k_def abs_le_iff)
  qed
  have "rnd y \<le> of_int k"
    by (rule rnd_le) (use y_le k_small in \<open>simp_all add: k_def le_of_int_ceiling order_trans [OF y_le]\<close>)
  moreover have "of_int k - 1 < rnd y"
  proof -
    have eq: "x = of_int (p * int n) / 100" by (simp add: x_def t_def)
    have "of_int k - 1 < x" unfolding k_def by linarith
    then have "of_int (100 * (k - 1)) < (of_int (p * int n) :: rat)" by (simp add: eq)
    then have "100 * (k - 1) + 1 \<le> p * int n" by (simp only: of_int_less_iff)
    then have "of_int (100 * (k - 1) + 1) \<le> (of_int (p * int n) :: rat)" by (simp only: of_int_le_iff)
    then have "of_int k - 1 + 1 / 100 \<le> x" by (simp add: eq)
    with lower show ?thesis by simp
  qed
  ultimately have "\<lceil>rnd y\<rceil> = k" by (intro ceiling_unique) auto
  then show ?thesis by (simp add: code_rank_def nearest_rank_def y_def c_def t_def x_def k_def)
qed

lemma rnd_95: "rnd (19 / 20) = 8556839292003942 / 2 ^ 53"
  by (subst rnd_eqI [of "- 53" _ 8556839292003942]) simp_all

lemma rnd_99: "rnd (99 / 100) = 8917127262193582 / 2 ^ 53"
  by (subst rnd_eqI [of "- 53" _ 8917127262193582]) simp_all

lemma rnd_7: "rnd (7 / 100) = 5044031582654956 / 2 ^ 56"
  by (subst rnd_eqI [of "- 56" _ 5044031582654956]) simp_all

lemma rnd_7_100: "rnd (5044031582654956 / 2 ^ 56 * 100) = 7881299347898369 / 2 ^ 50"
  by (subst rnd_eqI [of "- 50" _ 7881299347898369]) simp_all

lemma code_rank_7_100: "code_rank 7 100 = 8"
proof -
  have "code_rank 7 100 = \<lceil>7881299347898369 / 2 ^ 50 :: rat\<rceil>"
    by (simp only: code_rank_def rnd_7 of_nat_numeral rnd_7_100)
  also have "\<dots> = 8" by (rule ceiling_unique) simp_all
  finally show ?thesis .
qed

lemma nearest_rank_bounds:
  assumes "0 \<le> p" "p \<le> 100"
  shows "0 \<le> nearest_rank p n \<and> nearest_rank p n \<le> int n"
proof -
  have "p / 100 * of_nat n \<le> 1 * of_nat n" using assms by (intro mult_right_mono) auto
  moreover have "0 \<le> p / 100 * of_nat n" using assms by simp
  ultimately show ?thesis by (simp add: nearest_rank_def ceiling_le_iff)
qed

lemma nearest_rank_pos: "0 < p \<Longrightarrow> 0 < n \<Longrightarrow> 1 \<le> nearest_rank p n"
  by (simp add: nearest_rank_def)

lemma percentile_order_statistic:
  assumes "window_ok w" "sw_samples w \<noteq> []" "length (sw_samples w) \<le> 2 ^ 53" "0 \<le> p" "p \<le> 100"
  shows "\<exists>v. percentile (Fin p) w = Inr (Some v) \<and>
    order_statistic (sw_samples w) (nat (max 1 (code_rank p (length (sw_samples w))) - 1)) v"
proof -
  have "0 < length (sw_samples w)" using assms(2) by simp
  then have "nat (max 1 (code_rank p (length (sw_samples w))) - 1) < length (sw_samples w)"
    using code_rank_bounds [OF assms(4,5,3)] by linarith
  then show ?thesis using percentile_eq [OF assms] order_statistic_sort by blast
qed

lemma percentile_nearest_rank:
  assumes w: "window_ok w" "sw_samples w \<noteq> []" "length (sw_samples w) \<le> 2 ^ 40"
    and p: "0 < p" "p \<le> 100" "rnd (of_int p / 100) \<le> of_int p / 100"
  shows "\<exists>v. percentile (Fin (of_int p)) w = Inr (Some v) \<and>
    order_statistic (sw_samples w) (nat (nearest_rank (of_int p) (length (sw_samples w)) - 1)) v"
proof -
  define n where "n = length (sw_samples w)"
  have n: "0 < n" "n \<le> 2 ^ 40" using w by (simp_all add: n_def)
  have "code_rank (of_int p) n = nearest_rank (of_int p) n" by (rule code_rank_exact [OF p n])
  moreover have "1 \<le> nearest_rank (of_int p) n" using p n by (intro nearest_rank_pos) auto
  ultimately show ?thesis
    using percentile_order_statistic [OF w(1,2), of "of_int p"] n p by (simp add: n_def max_def)
qed

subsection \<open>Properties\<close>

text \<open>
  C24: a window of capacity \<open>cap\<close> that received any sequence of \<open>add_sample\<close> calls holds exactly
  the newest \<open>cap\<close> finite samples in order of arrival; the non-finite ones were refused with an
  exception and left no trace.
\<close>

theorem window_holds_newest:
  assumes "new_window cap = Inr w"
  shows "sw_samples (add_samples vs w) = last_n (unat cap) (filter isfinite vs) \<and>
    window_ok (add_samples vs w)"
proof -
  have ok: "window_ok w" using assms by (rule new_window_ok)
  moreover have "sw_samples w = []" "sw_capacity w = cap"
    using assms by (auto simp: new_window_def split: if_splits)
  ultimately show ?thesis using add_samples_ok [OF ok, of vs] by (simp add: add_samples_contents)
qed

theorem window_holds_newest_witness:
  "\<exists>w. new_window 2 = Inr w \<and>
    sw_samples (add_samples [Fin 1, Fin 2, NaN, Fin 3] w) = [Fin 2, Fin 3]"
proof -
  obtain w where w: "new_window 2 = Inr w" by (simp add: new_window_def)
  show ?thesis using w window_holds_newest [OF w, of "[Fin 1, Fin 2, NaN, Fin 3]"]
    by (simp add: last_n_def)
qed

text \<open>
  C22: the three percentiles the code offers are exact nearest ranks. For every window of at most
  \<open>2 ^ 40\<close> samples, \<open>p50\<close>, \<open>p95\<close> and \<open>p99\<close> return the sample of rank
  \<open>ceil(p / 100 * n)\<close> computed without rounding, although the code computes that rank in
  floating point.
\<close>

theorem named_percentiles_exact:
  assumes "window_ok w" "sw_samples w \<noteq> []" "length (sw_samples w) \<le> 2 ^ 40"
    and "(p, f) \<in> {(50, p50), (95, p95), (99, p99)}"
  shows "\<exists>v. f w = Inr (Some v) \<and>
    order_statistic (sw_samples w) (nat (nearest_rank p (length (sw_samples w)) - 1)) v"
  using assms percentile_nearest_rank [OF assms(1-3), of 50]
    percentile_nearest_rank [OF assms(1-3), of 95] percentile_nearest_rank [OF assms(1-3), of 99]
  by (auto simp: p50_def p95_def p99_def rnd_half rnd_95 rnd_99)

definition window_20 :: sliding_window where
  "window_20 = \<lparr>sw_capacity = 20, sw_samples = map (\<lambda>i. Fin (of_int i)) [1..20]\<rparr>"

theorem named_percentiles_exact_witness:
  "\<exists>v. p95 window_20 = Inr (Some v) \<and> order_statistic (sw_samples window_20) 18 v"
proof -
  have ok: "window_ok window_20" by (simp add: window_ok_def window_20_def list_all_iff)
  have len: "length (sw_samples window_20) = 20" by (simp add: window_20_def)
  have "sw_samples window_20 \<noteq> []" using len by auto
  moreover have "nearest_rank 95 20 = 19" by (simp add: nearest_rank_def)
  ultimately show ?thesis using named_percentiles_exact [OF ok, of 95 p95] len by simp
qed

definition window_100 :: sliding_window where
  "window_100 = \<lparr>sw_capacity = 100, sw_samples = map (\<lambda>i. Fin (of_int i)) [1..100]\<rparr>"

lemma sort_ints: "sort (map (\<lambda>i. Fin (of_int i)) [a..b]) = map (\<lambda>i. Fin (of_int i)) [a..b]"
  by (rule sorted_sort_id) (auto simp: sorted_map intro: sorted_wrt_mono_rel [OF _ sorted_upto])

text \<open>
  Other percentiles are not exact. With the samples 1, ..., 100 the seventh percentile is 8,
  although the nearest rank the header documents is \<open>ceil(7 / 100 * 100) = 7\<close>: the double
  nearest to 0.07 is above 0.07, and its product with 100 rounds to a number above 7.
\<close>

lemma percentile_7_off_by_one:
  "percentile (Fin 7) window_100 = Inr (Some (Fin 8)) \<and> nearest_rank 7 100 = 7 \<and>
    sort (sw_samples window_100) ! 6 = Fin 7"
proof -
  have ok: "window_ok window_100" by (simp add: window_ok_def window_100_def list_all_iff)
  have len: "length (sw_samples window_100) = 100" by (simp add: window_100_def)
  have srt: "sort (sw_samples window_100) = map (\<lambda>i. Fin (of_int i)) [1..100]"
    by (simp add: window_100_def sort_ints)
  have ne: "sw_samples window_100 \<noteq> []" using len by auto
  have nr: "nearest_rank 7 100 = 7" by (simp add: nearest_rank_def)
  have "percentile (Fin 7) window_100 = Inr (Some (sort (sw_samples window_100) ! nat (max 1 8 - 1)))"
    using percentile_eq [OF ok ne, of 7] len by (simp add: code_rank_7_100)
  with srt nr show ?thesis by (simp add: nth_upto)
qed

text \<open>
  \<open>percentile\<close> is monotone in the percentage, its extreme values are the smallest and the
  largest sample, and it only ever returns a sample of the window.
\<close>

lemma percentile_monotone:
  assumes w: "window_ok w" "sw_samples w \<noteq> []" "length (sw_samples w) \<le> 2 ^ 53"
    and pq: "0 \<le> p" "p \<le> q" "q \<le> 100"
  shows "\<exists>lo u v hi. percentile (Fin 0) w = Inr (Some lo) \<and> percentile (Fin p) w = Inr (Some u) \<and>
    percentile (Fin q) w = Inr (Some v) \<and> percentile (Fin 100) w = Inr (Some hi) \<and>
    lo = Min (set (sw_samples w)) \<and> lo \<le> u \<and> u \<le> v \<and> v \<le> hi \<and>
    hi = Max (set (sw_samples w)) \<and> u \<in> set (sw_samples w) \<and> v \<in> set (sw_samples w)"
proof -
  define ys n where "ys = sort (sw_samples w)" and "n = length (sw_samples w)"
  define pick where "pick p = ys ! nat (max 1 (code_rank p n) - 1)" for p
  have n: "0 < n" "n \<le> 2 ^ 53" and len: "length ys = n" using w by (simp_all add: n_def ys_def)
  have eq: "percentile (Fin p) w = Inr (Some (pick p))" if "0 \<le> p" "p \<le> 100" for p
    using percentile_eq [OF w that] by (simp add: pick_def ys_def n_def)
  have idx: "nat (max 1 (code_rank p n) - 1) < n" if "0 \<le> p" "p \<le> 100" for p
    using code_rank_bounds [OF that n(2)] n(1) by linarith
  have mono: "pick p \<le> pick q" if "0 \<le> p" "p \<le> q" "q \<le> 100" for p q
    unfolding pick_def using code_rank_mono [OF that(2), of n] idx [of q] that
    by (intro sorted_nth_mono) (auto simp: ys_def n_def)
  have mem: "pick p \<in> set (sw_samples w)" if "0 \<le> p" "p \<le> 100" for p
    using idx [OF that] len by (metis pick_def nth_mem set_sort ys_def)
  have pick_0: "pick 0 = ys ! 0" by (simp add: pick_def)
  have "nat (max 1 (int n) - 1) = n - 1" using n(1) by linarith
  then have pick_100: "pick 100 = ys ! (n - 1)" by (simp only: pick_def code_rank_100 [OF n(2)])
  have bounds: "pick 0 \<le> x" "x \<le> pick 100" if "x \<in> set (sw_samples w)" for x
  proof -
    have "x \<in> set ys" using that by (simp add: ys_def)
    then obtain i where i: "i < n" "x = ys ! i" by (auto simp: in_set_conv_nth len)
    moreover have "sorted ys" by (simp add: ys_def)
    ultimately show "pick 0 \<le> x" "x \<le> pick 100"
      using n len unfolding pick_0 pick_100 by (auto intro!: sorted_nth_mono)
  qed
  have "pick 0 = Min (set (sw_samples w))" "pick 100 = Max (set (sw_samples w))"
    using bounds mem [of 0] mem [of 100] by (auto intro!: Min_eqI [symmetric] Max_eqI [symmetric])
  moreover have "p \<le> 100" "0 \<le> q" using pq by linarith+
  ultimately show ?thesis
    using eq [of 0] eq [of p] eq [of q] eq [of 100] mono [of 0 p] mono [of p q] mono [of q 100]
      mem [of p] mem [of q] pq by auto
qed

lemma percentile_monotone_witness:
  "\<exists>u v. percentile (Fin 5) window_20 = Inr (Some u) \<and> percentile (Fin 80) window_20 = Inr (Some v) \<and>
    u \<le> v \<and> v \<le> Fin 20"
proof -
  have ok: "window_ok window_20" by (simp add: window_ok_def window_20_def list_all_iff)
  have len: "length (sw_samples window_20) = 20" by (simp add: window_20_def)
  have "sw_samples window_20 \<noteq> []" using len by auto
  moreover have "Max (set (sw_samples window_20)) = Fin 20"
    by (rule Max_eqI) (auto simp: window_20_def image_iff intro!: bexI [of _ 20])
  ultimately show ?thesis using percentile_monotone [OF ok, of 5 80] len by auto
qed

end
