(* ===== verification/TokenBucket.thy ===== *)
theory TokenBucket
  imports F64
begin

text \<open>
  \<^verbatim>\<open>controller/src/token_bucket.cpp\<close>: a token bucket over \<open>steady_clock\<close>. A time point is its
  count of nanoseconds; the reading of \<open>Clock::now()\<close> is an argument of the operations that take
  one. The lock makes each method atomic.

  The lemmas show that the level stays between 0 and the capacity whatever the clock and the
  rounding do, that no run of requests is granted more than the capacity plus the refill of the
  time that passed (up to an explicit rounding error), and that a drained bucket fills again.
\<close>

subsection \<open>The class\<close>

record token_bucket =
  tb_capacity :: f64
  tb_refill_rate :: f64
  tb_tokens :: f64
  tb_last_refill :: int

definition new_bucket :: "int \<Rightarrow> f64 \<Rightarrow> f64 \<Rightarrow> token_bucket result" where
  "new_bucket now cap rate =
     (if \<not> isfinite cap \<or> f_le cap (Fin 0)
      then Inl (Invalid_Argument ''TokenBucket capacity must be finite and positive'')
      else if \<not> isfinite rate \<or> f_le rate (Fin 0)
      then Inl (Invalid_Argument ''TokenBucket refill rate must be finite and positive'')
      else Inr \<lparr>tb_capacity = cap, tb_refill_rate = rate, tb_tokens = cap, tb_last_refill = now\<rparr>)"

text \<open>\<open>std::chrono::duration<double>(d).count()\<close> for \<open>d\<close> nanoseconds.\<close>

definition seconds :: "int \<Rightarrow> f64" where
  "seconds d = f_div (f_of_int d) (Fin 1000000000)"

definition refill :: "int \<Rightarrow> token_bucket \<Rightarrow> token_bucket" where
  "refill now b =
     (if now \<le> tb_last_refill b then b
      else let elapsed = seconds (now - tb_last_refill b) in
        b\<lparr>tb_tokens := f_min (tb_capacity b)
             (f_add (tb_tokens b) (f_mul elapsed (tb_refill_rate b))),
          tb_last_refill := now\<rparr>)"

definition try_consume :: "int \<Rightarrow> f64 \<Rightarrow> token_bucket \<Rightarrow> (bool \<times> token_bucket) result" where
  "try_consume now tokens b =
     (if \<not> isfinite tokens \<or> f_le tokens (Fin 0)
      then Inl (Invalid_Argument ''consumed tokens must be finite and positive'')
      else let b' = refill now b in
        if f_lt (tb_tokens b') tokens then Inr (False, b')
        else Inr (True, b'\<lparr>tb_tokens := f_sub (tb_tokens b') tokens\<rparr>))"

definition available_tokens :: "int \<Rightarrow> token_bucket \<Rightarrow> f64 \<times> token_bucket" where
  "available_tokens now b = (let b' = refill now b in (tb_tokens b', b'))"

definition bucket_capacity :: "token_bucket \<Rightarrow> f64" where
  "bucket_capacity b = tb_capacity b"

definition refill_rate_per_second :: "token_bucket \<Rightarrow> f64" where
  "refill_rate_per_second b = tb_refill_rate b"

subsection \<open>The invariant\<close>

definition bucket_ok :: "token_bucket \<Rightarrow> bool" where
  "bucket_ok b \<longleftrightarrow> (\<exists>c r t. tb_capacity b = Fin c \<and> tb_refill_rate b = Fin r \<and> tb_tokens b = Fin t \<and>
     is_double c \<and> is_double r \<and> is_double t \<and> 0 < c \<and> 0 < r \<and> 0 \<le> t \<and> t \<le> c)"

lemma new_bucket_ok:
  "new_bucket now cap rate = Inr b \<Longrightarrow> wf64 cap \<Longrightarrow> wf64 rate \<Longrightarrow> bucket_ok b"
  by (cases cap; cases rate) (auto simp: new_bucket_def bucket_ok_def split: if_splits)

text \<open>The nonnegative doubles with \<open>+\<infinity>\<close>: what a refill adds.\<close>

fun f_nonneg :: "f64 \<Rightarrow> bool" where
  "f_nonneg (Fin x) \<longleftrightarrow> 0 \<le> x"
| "f_nonneg PInf = True"
| "f_nonneg _ = False"

lemma to_f64_nonneg: "0 \<le> q \<Longrightarrow> f_nonneg (to_f64 q)"
  using rnd_nonneg [of q] max_f64_big by (auto simp: to_f64_def Let_def)

lemma seconds_nonneg: "0 \<le> d \<Longrightarrow> f_nonneg (seconds d)"
  using to_f64_nonneg [of "of_int d"] to_f64_nonneg
  by (cases "to_f64 (of_int d)") (auto simp: seconds_def f_of_int_def signed_inf_def f_sgn_def)

lemma f_mul_rate_nonneg: "f_nonneg x \<Longrightarrow> 0 < r \<Longrightarrow> f_nonneg (f_mul x (Fin r))"
  by (cases x) (auto simp: to_f64_nonneg signed_inf_def f_sgn_def)

lemma f_min_add:
  assumes "is_double c" "is_double t" "0 \<le> t" "t \<le> c" "f_nonneg x"
  shows "\<exists>u. f_min (Fin c) (f_add (Fin t) x) = Fin u \<and> is_double u \<and> t \<le> u \<and> u \<le> c \<and>
    (\<forall>q. x = Fin q \<longrightarrow> u \<le> t + q + c / 2 ^ 53 + eta)"
proof (cases x)
  case (Fin q)
  then have q: "0 \<le> q" using assms(5) by simp
  have c: "rnd c = c" "\<bar>c\<bar> \<le> max_f64" and t: "rnd t = t" using assms by (simp_all add: is_double_def)
  have lower: "t \<le> rnd (t + q)" using q t by (intro rnd_ge) auto
  show ?thesis
  proof (cases "rnd (t + q) < c")
    case True
    then have "\<bar>rnd (t + q)\<bar> \<le> max_f64" using lower assms(3) c by (simp add: abs_le_iff)
    then have "to_f64 (t + q) = Fin (rnd (t + q))" and d: "is_double (rnd (t + q))"
      by (auto simp: to_f64_def Let_def abs_le_iff is_double_def)
    moreover have "rnd (t + q) \<le> t + q + c / 2 ^ 53 + eta"
    proof -
      have "t + q \<le> c"
        using True rnd_ge [of c "t + q"] c(1) linorder_le_cases [of "t + q" c] by (auto simp: not_le)
      then show ?thesis using rnd_upper [of "t + q" c] assms(3) q by linarith
    qed
    ultimately show ?thesis using True lower Fin by (auto simp: f_min_def)
  next
    case False
    then have "c \<le> t + q + c / 2 ^ 53 + eta"
    proof (cases "t + q < c")
      case True
      then show ?thesis using rnd_upper [of "t + q" c] False assms(3) q by linarith
    next
      case False
      moreover have "0 \<le> c / 2 ^ 53" using assms(3,4) by simp
      ultimately show ?thesis using eta_pos by linarith
    qed
    moreover have "f_min (Fin c) (f_add (Fin t) x) = Fin c"
      using False Fin max_f64_big c by (auto simp: f_min_def to_f64_def Let_def abs_le_iff)
    ultimately show ?thesis using assms Fin by auto
  qed
qed (use assms in \<open>auto simp: f_min_def\<close>)

text \<open>How much a refill after \<open>d\<close> nanoseconds adds: at most the exact amount, up to rounding.\<close>

lemma seconds_bounds:
  assumes "0 < d" "d < 2 ^ 63"
  shows "\<exists>e. seconds d = Fin e \<and> 0 \<le> e \<and> e \<le> of_int d / 1000000000 * (1 + 1 / 2 ^ 53)\<^sup>2"
proof -
  define q :: rat where "q = of_int d"
  have q: "1 \<le> q" "q \<le> 2 ^ 63"
    using assms by (simp_all add: q_def)
  have tiny: "(2::rat) powi (- 1022) \<le> 2 powi (- 30)" by (rule pow2_le) simp
  then have low: "2 powi (- 1022) \<le> q" using q by simp
  have r1: "1 \<le> rnd q" "rnd q \<le> 2 ^ 63"
    using rnd_ge [OF q(1) rnd_1] rnd_le [OF q(2)] rnd_exact [of 1 63] by simp_all
  have "rnd q / 1000000000 \<le> q / 1000000000 * (1 + 1 / 2 ^ 53)"
    using rnd_upper_rel [OF low] by simp
  have "(2::rat) powi (- 30) \<le> 1 / 1000000000" by simp
  then have low2: "2 powi (- 1022) \<le> rnd q / 1000000000" using r1 tiny by simp
  have "rnd (rnd q / 1000000000) \<le> rnd q / 1000000000 * (1 + 1 / 2 ^ 53)"
    by (rule rnd_upper_rel [OF low2])
  also have "\<dots> \<le> q * (1 + 1 / 2 ^ 53) / 1000000000 * (1 + 1 / 2 ^ 53)"
    using rnd_upper_rel [OF low] by (intro mult_right_mono divide_right_mono) auto
  finally have hi: "rnd (rnd q / 1000000000) \<le> q / 1000000000 * (1 + 1 / 2 ^ 53)\<^sup>2"
    by (simp add: power2_eq_square)
  have big: "(2::rat) ^ 63 \<le> 2 ^ 1000" by (rule power_increasing) auto
  have "to_f64 q = Fin (rnd q)" using q big by (intro to_f64_small) (simp only: abs_le_iff, linarith)
  moreover have "to_f64 (rnd q / 1000000000) = Fin (rnd (rnd q / 1000000000))"
  proof (rule to_f64_small)
    have "rnd q / 1000000000 \<le> 2 ^ 63" "0 \<le> rnd q / 1000000000" using r1 by (simp_all add: field_simps)
    then show "\<bar>rnd q / 1000000000\<bar> \<le> 2 ^ 1000" using big by linarith
  qed
  ultimately have "seconds d = Fin (rnd (rnd q / 1000000000))"
    by (simp add: seconds_def f_of_int_def q_def)
  moreover have "0 \<le> rnd (rnd q / 1000000000)" using r1 by (simp add: rnd_nonneg)
  ultimately show ?thesis using hi by (simp add: q_def)
qed

definition slack :: rat where
  "slack = (1 + 1 / 2 ^ 53) ^ 3"

lemma refill_amount:
  assumes "0 < d" "d < 2 ^ 63" "0 < r"
  shows "f_mul (seconds d) (Fin r) = PInf \<and> max_f64 \<le> of_int d / 1000000000 * r * slack \<or>
    (\<exists>q. f_mul (seconds d) (Fin r) = Fin q \<and> 0 \<le> q \<and> q \<le> of_int d / 1000000000 * r * slack + eta)"
proof -
  obtain e where e: "seconds d = Fin e" "0 \<le> e" "e \<le> of_int d / 1000000000 * (1 + 1 / 2 ^ 53)\<^sup>2"
    using seconds_bounds [OF assms(1,2)] by blast
  have er: "0 \<le> e * r" using e assms(3) by simp
  have "e * r * (1 + 1 / 2 ^ 53) \<le>
      of_int d / 1000000000 * (1 + 1 / 2 ^ 53)\<^sup>2 * r * (1 + 1 / 2 ^ 53)"
    using e assms(3) by (intro mult_right_mono) auto
  also have "\<dots> = of_int d / 1000000000 * r * slack"
    by (simp add: slack_def power2_eq_square power3_eq_cube)
  finally have hi: "e * r * (1 + 1 / 2 ^ 53) \<le> of_int d / 1000000000 * r * slack" .
  show ?thesis
  proof (cases "rnd (e * r) \<le> max_f64")
    case True
    have "rnd (e * r) \<le> e * r * (1 + 1 / 2 ^ 53) + eta"
      using rnd_upper [OF er order_refl] by (simp add: distrib_left)
    then have "rnd (e * r) \<le> of_int d / 1000000000 * r * slack + eta" using hi by linarith
    moreover have "0 \<le> rnd (e * r)" using er by (rule rnd_nonneg)
    ultimately show ?thesis using True max_f64_big e(1) by (auto simp: to_f64_def Let_def)
  next
    case False
    have "max_f64 < e * r"
      by (rule ccontr) (use False rnd_le [of "e * r" max_f64] in \<open>simp add: not_less\<close>)
    also have "e * r \<le> e * r * (1 + 1 / 2 ^ 53)" using er by (simp add: distrib_left)
    finally show ?thesis using False hi e(1) by (auto simp: to_f64_def Let_def)
  qed
qed

text \<open>One refill: it never lowers the level, and raises it by at most the inflow.\<close>

definition inflow :: "token_bucket \<Rightarrow> int \<Rightarrow> rat" where
  "inflow b d = of_int d / 1000000000 * f_val (tb_refill_rate b) * slack"

abbreviation level :: "token_bucket \<Rightarrow> rat" where
  "level b \<equiv> f_val (tb_tokens b)"

abbreviation cap_val :: "token_bucket \<Rightarrow> rat" where
  "cap_val b \<equiv> f_val (tb_capacity b)"

lemma refill_frame [simp]:
  "tb_capacity (refill now b) = tb_capacity b"
  "tb_refill_rate (refill now b) = tb_refill_rate b"
  "tb_last_refill (refill now b) = max now (tb_last_refill b)"
  by (simp_all add: refill_def Let_def)

lemma refill_step:
  assumes ok: "bucket_ok b" and time: "now - tb_last_refill b < 2 ^ 63"
  shows "bucket_ok (refill now b) \<and> level b \<le> level (refill now b) \<and>
    level (refill now b) \<le>
      level b + inflow b (max now (tb_last_refill b) - tb_last_refill b) + cap_val b / 2 ^ 53 + 2 * eta"
proof (cases "now \<le> tb_last_refill b")
  case True
  moreover have "0 \<le> cap_val b / 2 ^ 53" using ok by (auto simp: bucket_ok_def)
  ultimately show ?thesis using ok eta_pos by (simp add: refill_def inflow_def)
next
  case False
  define d where "d = now - tb_last_refill b"
  have d: "0 < d" "d < 2 ^ 63" using False time by (simp_all add: d_def)
  obtain c r t where b: "tb_capacity b = Fin c" "tb_refill_rate b = Fin r" "tb_tokens b = Fin t"
    and c: "is_double c" "0 < c" and r: "is_double r" "0 < r" and t: "is_double t" "0 \<le> t" "t \<le> c"
    using ok by (auto simp: bucket_ok_def)
  define x where "x = f_mul (seconds d) (Fin r)"
  have x: "f_nonneg x" unfolding x_def using d r by (intro f_mul_rate_nonneg seconds_nonneg) auto
  obtain u where u: "f_min (Fin c) (f_add (Fin t) x) = Fin u" "is_double u" "t \<le> u" "u \<le> c"
    and ub: "\<And>q. x = Fin q \<Longrightarrow> u \<le> t + q + c / 2 ^ 53 + eta"
    using f_min_add [OF c(1) t x] by auto
  have b': "refill now b = b\<lparr>tb_tokens := Fin u, tb_last_refill := now\<rparr>"
    using False u(1) by (simp add: refill_def Let_def b x_def d_def)
  have "u \<le> t + inflow b d + c / 2 ^ 53 + 2 * eta"
    using refill_amount [OF d r(2)]
  proof (elim disjE exE conjE)
    assume "max_f64 \<le> of_int d / 1000000000 * r * slack"
    moreover have "c \<le> max_f64" "0 \<le> c / 2 ^ 53" using c by (simp_all add: is_double_def abs_le_iff)
    moreover have "inflow b d = of_int d / 1000000000 * r * slack" by (simp add: inflow_def b)
    ultimately show ?thesis using u(4) t(2) eta_pos by linarith
  next
    fix q assume "f_mul (seconds d) (Fin r) = Fin q" "q \<le> of_int d / 1000000000 * r * slack + eta"
    then show ?thesis using ub [of q] by (simp add: x_def inflow_def b)
  qed
  moreover have "bucket_ok (refill now b)"
    using b' b c r t u by (auto simp: bucket_ok_def)
  ultimately show ?thesis using b' b u False by (simp add: d_def)
qed

lemma f_sub_level:
  assumes "is_double c" "t \<le> c" "0 < a" "a \<le> t"
  shows "\<exists>u. f_sub (Fin t) (Fin a) = Fin u \<and> is_double u \<and> 0 \<le> u \<and> u \<le> c \<and>
    u \<le> t - a + c / 2 ^ 53 + eta"
proof -
  have c: "rnd c = c" "c \<le> max_f64" using assms(1) by (simp_all add: is_double_def abs_le_iff)
  have u: "0 \<le> rnd (t - a)" "rnd (t - a) \<le> c"
    using assms by (auto intro: rnd_nonneg rnd_le [OF _ c(1)])
  then have "\<bar>rnd (t - a)\<bar> \<le> max_f64" using c by linarith
  then have "to_f64 (t - a) = Fin (rnd (t - a))" "is_double (rnd (t - a))"
    by (auto simp: to_f64_def Let_def abs_le_iff is_double_def)
  moreover have "rnd (t - a) \<le> t - a + c / 2 ^ 53 + eta"
    using assms by (intro rnd_upper) auto
  ultimately show ?thesis using u by (simp add: f_sub_def)
qed

definition granted :: "bool \<Rightarrow> f64 \<Rightarrow> rat" where
  "granted g a = (if g then f_val a else 0)"

definition rounding_cost :: "token_bucket \<Rightarrow> rat" where
  "rounding_cost b = 2 * cap_val b / 2 ^ 53 + 3 * eta"

lemma try_consume_step:
  assumes ok: "bucket_ok b" and time: "now - tb_last_refill b < 2 ^ 63"
    and res: "try_consume now a b = Inr (g, b')"
  shows "bucket_ok b' \<and> tb_capacity b' = tb_capacity b \<and> tb_refill_rate b' = tb_refill_rate b \<and>
    tb_last_refill b' = max now (tb_last_refill b) \<and> 0 < f_val a \<and>
    granted g a + level b' \<le> level b + inflow b (tb_last_refill b' - tb_last_refill b) + rounding_cost b"
proof -
  define b1 where "b1 = refill now b"
  have b1: "bucket_ok b1" "level b1 \<le> level b
      + inflow b (max now (tb_last_refill b) - tb_last_refill b) + cap_val b / 2 ^ 53 + 2 * eta"
    using refill_step [OF ok time] by (simp_all add: b1_def)
  have frame: "tb_capacity b1 = tb_capacity b" "tb_refill_rate b1 = tb_refill_rate b"
    "tb_last_refill b1 = max now (tb_last_refill b)" by (simp_all add: b1_def)
  obtain q where a: "a = Fin q" "0 < q"
    using res by (cases a) (auto simp: try_consume_def split: if_splits)
  obtain c r t where b: "tb_capacity b1 = Fin c" "tb_refill_rate b1 = Fin r" "tb_tokens b1 = Fin t"
    and ct: "is_double c" "0 < c" "t \<le> c" "is_double r" "0 < r" and t0: "0 \<le> t"
    using b1(1) by (auto simp: bucket_ok_def)
  have capv: "cap_val b = c" using b(1) frame(1) by (metis f_val.simps(1))
  have cost: "0 \<le> c / 2 ^ 53" using ct by simp
  define flow where "flow = inflow b (max now (tb_last_refill b) - tb_last_refill b)"
  have t_le: "t \<le> level b + flow + c / 2 ^ 53 + 2 * eta"
    using b1(2) b(3) by (simp add: flow_def capv)
  have rc: "rounding_cost b = 2 * (c / 2 ^ 53) + 3 * eta" by (simp add: rounding_cost_def capv)
  show ?thesis
  proof (cases "t < q")
    case True
    then have "g = False" "b' = b1"
      using res a b by (auto simp: try_consume_def b1_def Let_def)
    moreover have "t \<le> level b + flow + rounding_cost b" using t_le cost eta_pos rc by linarith
    ultimately show ?thesis using b1(1) frame a b(3) by (simp add: granted_def flow_def)
  next
    case False
    then have g: "g = True" "b' = b1\<lparr>tb_tokens := f_sub (Fin t) (Fin q)\<rparr>"
      using res a b by (auto simp: try_consume_def b1_def Let_def)
    obtain u where u: "f_sub (Fin t) (Fin q) = Fin u" "is_double u" "0 \<le> u" "u \<le> c"
      "u \<le> t - q + c / 2 ^ 53 + eta"
      using f_sub_level [OF ct(1,3) a(2)] False by auto
    have "bucket_ok b'" using g u b ct by (auto simp: bucket_ok_def)
    moreover have "q + u \<le> level b + flow + rounding_cost b" using u(5) t_le rc by linarith
    ultimately show ?thesis using g u(1) frame a by (simp add: granted_def flow_def)
  qed
qed

text \<open>A run of requests, each with the clock reading it makes; the sum of what was granted.\<close>

fun run_bucket :: "(int \<times> f64) list \<Rightarrow> token_bucket \<Rightarrow> rat \<times> token_bucket" where
  "run_bucket [] b = (0, b)"
| "run_bucket ((now, a) # rs) b = (case try_consume now a b of
     Inl _ \<Rightarrow> run_bucket rs b
   | Inr (g, b') \<Rightarrow> (let (s, b'') = run_bucket rs b' in (granted g a + s, b'')))"

lemma inflow_add: "inflow b (d + e) = inflow b d + inflow b e"
  by (simp add: inflow_def field_simps)

lemma rounding_cost_nonneg: "bucket_ok b \<Longrightarrow> 0 \<le> rounding_cost b"
  by (auto simp: rounding_cost_def bucket_ok_def)

lemma run_bucket_bound:
  assumes "bucket_ok b" and "0 \<le> tb_last_refill b" and "list_all (clock_ok \<circ> fst) rs"
    and "run_bucket rs b = (s, b')"
  shows "bucket_ok b' \<and> tb_capacity b' = tb_capacity b \<and> tb_last_refill b \<le> tb_last_refill b' \<and>
    s + level b' \<le> level b + inflow b (tb_last_refill b' - tb_last_refill b)
      + of_nat (length rs) * rounding_cost b"
  using assms
proof (induction rs arbitrary: b s)
  case Nil
  then show ?case by (simp add: inflow_def)
next
  case (Cons x rs)
  obtain now a where x: "x = (now, a)" by fastforce
  have time: "now - tb_last_refill b < 2 ^ 63" using Cons.prems by (simp add: x clock_ok_def)
  show ?case
  proof (cases "try_consume now a b")
    case (Inl e)
    then have "run_bucket rs b = (s, b')" using Cons.prems by (simp add: x)
    from Cons.IH [OF Cons.prems(1,2) _ this] Cons.prems show ?thesis
      using rounding_cost_nonneg [of b] by (simp add: distrib_right)
  next
    case (Inr gb)
    obtain g b1 where gb: "gb = (g, b1)" by fastforce
    obtain s1 where s1: "run_bucket rs b1 = (s1, b')" "s = granted g a + s1"
      using Cons.prems(4) by (auto simp: x Inr gb split: prod.splits)
    note step = try_consume_step [OF Cons.prems(1) time Inr [unfolded gb]]
    have "0 \<le> tb_last_refill b1" using step Cons.prems(2) by simp
    from Cons.IH [OF _ this _ s1(1)] step Cons.prems(3) have
      ih: "bucket_ok b'" "tb_capacity b' = tb_capacity b1" "tb_last_refill b1 \<le> tb_last_refill b'"
        "s1 + level b' \<le> level b1 + inflow b1 (tb_last_refill b' - tb_last_refill b1)
          + of_nat (length rs) * rounding_cost b1" by auto
    have same: "inflow b1 d = inflow b d" "rounding_cost b1 = rounding_cost b" for d
      using step by (simp_all add: inflow_def rounding_cost_def)
    have "inflow b (tb_last_refill b' - tb_last_refill b) =
      inflow b (tb_last_refill b1 - tb_last_refill b) + inflow b (tb_last_refill b' - tb_last_refill b1)"
      by (simp flip: inflow_add)
    moreover have "granted g a + level b1
        \<le> level b + inflow b (tb_last_refill b1 - tb_last_refill b) + rounding_cost b"
      using step by blast
    moreover have "of_nat (length (x # rs)) * rounding_cost b =
        rounding_cost b + of_nat (length rs) * rounding_cost b" by (simp add: distrib_right)
    ultimately have "s + level b' \<le> level b + inflow b (tb_last_refill b' - tb_last_refill b)
        + of_nat (length (x # rs)) * rounding_cost b"
      using ih(4) unfolding same s1(2) by linarith
    then show ?thesis using ih(1-3) step by simp
  qed
qed

text \<open>A wait of \<open>2 ^ j\<close> seconds is measured as at least that, so it refills what it should.\<close>

lemma seconds_at_least:
  assumes "2 ^ j * 1000000000 \<le> d" "d < 2 ^ 63"
  shows "\<exists>e. seconds d = Fin e \<and> 2 ^ j \<le> e"
proof -
  have pos: "0 < d" using assms(1) by (rule order.strict_trans2 [rotated]) simp
  then obtain e where e: "seconds d = Fin e" using seconds_bounds [OF _ assms(2)] by blast
  have rd: "2 ^ j * 1000000000 \<le> rnd (of_int d)"
  proof (rule rnd_ge)
    have "(of_int (2 ^ j * 1000000000) :: rat) \<le> of_int d" using assms(1) by (simp only: of_int_le_iff)
    then show "2 ^ j * 1000000000 \<le> (of_int d :: rat)" by simp
    show "rnd (2 ^ j * 1000000000) = 2 ^ j * 1000000000"
      using rnd_exact [of 1000000000 "int j"] by (simp add: mult.commute)
  qed
  have "2 ^ j \<le> rnd (rnd (of_int d) / 1000000000)"
    using rd rnd_exact [of 1 "int j"] by (intro rnd_ge) simp_all
  moreover have "e = rnd (rnd (of_int d) / 1000000000)"
    using e by (auto simp: seconds_def f_of_int_def to_f64_def Let_def signed_inf_def f_sgn_def
        split: if_splits)
  ultimately show ?thesis using e by simp
qed

lemma f_min_full:
  assumes "is_double c" "0 \<le> t" "x = PInf \<or> (\<exists>q. x = Fin q \<and> c \<le> q)"
  shows "f_min (Fin c) (f_add (Fin t) x) = Fin c"
proof -
  have c: "rnd c = c" "c \<le> max_f64" using assms(1) by (simp_all add: is_double_def abs_le_iff)
  have "c \<le> rnd (t + q)" if "c \<le> q" for q using that assms(2) c(1) by (intro rnd_ge) auto
  moreover have "- max_f64 \<le> c" using assms(1) by (simp add: is_double_def abs_le_iff)
  ultimately show ?thesis using assms(3) c by (force simp: f_min_def to_f64_def Let_def)
qed

lemma refill_full:
  assumes ok: "bucket_ok b" and enough: "cap_val b \<le> 2 ^ j * f_val (tb_refill_rate b)"
    and wait: "2 ^ j * 1000000000 \<le> now - tb_last_refill b" "now - tb_last_refill b < 2 ^ 63"
  shows "refill now b = b\<lparr>tb_tokens := tb_capacity b, tb_last_refill := now\<rparr>"
proof -
  obtain c r t where b: "tb_capacity b = Fin c" "tb_refill_rate b = Fin r" "tb_tokens b = Fin t"
    and c: "is_double c" "0 < c" "0 < r" "0 \<le> t"
    using ok by (auto simp: bucket_ok_def)
  obtain e where e: "seconds (now - tb_last_refill b) = Fin e" "2 ^ j \<le> e"
    using seconds_at_least [OF wait] by blast
  have "c \<le> 2 ^ j * r" using enough b by simp
  also have "\<dots> \<le> e * r" using e(2) c(3) by (intro mult_right_mono) auto
  finally have "c \<le> rnd (e * r)" using c(1) by (intro rnd_ge) (simp_all add: is_double_def)
  moreover have "- max_f64 \<le> c" using c(1) by (simp add: is_double_def abs_le_iff)
  ultimately have "to_f64 (e * r) = PInf \<or> (\<exists>q. to_f64 (e * r) = Fin q \<and> c \<le> q)"
    by (auto simp: to_f64_def Let_def)
  then have full: "f_min (Fin c) (f_add (Fin t) (to_f64 (e * r))) = Fin c"
    by (rule f_min_full [OF c(1,4)])
  have "(0::int) < 2 ^ j * 1000000000" by simp
  with wait(1) have "tb_last_refill b < now" by linarith
  with full show ?thesis by (simp add: refill_def Let_def b e(1))
qed

lemma new_bucket_fields:
  assumes "new_bucket t0 cap rate = Inr b"
  shows "tb_capacity b = cap \<and> tb_refill_rate b = rate \<and> tb_tokens b = cap \<and> tb_last_refill b = t0"
  using assms by (auto simp: new_bucket_def split: if_splits)

subsection \<open>Properties\<close>

text \<open>
  C21: the rate limit. A new bucket never grants, over any run of requests with any clock readings,
  more tokens than its capacity plus the refill of the time between its creation and the last
  clock reading that moved forward, up to rounding: a factor of \<open>(1 + 2 ^ -53) ^ 3\<close> on the refill
  and \<open>2 ^ -52\<close> of the capacity (plus three halves of the smallest denormal) per request.
\<close>

theorem rate_limit:
  assumes "new_bucket t0 cap rate = Inr b" "wf64 cap" "wf64 rate"
    and "clock_ok t0" "list_all (clock_ok \<circ> fst) rs" and "run_bucket rs b = (s, b')"
  shows "s \<le> f_val cap + of_int (tb_last_refill b' - t0) / 1000000000 * f_val rate * slack
    + of_nat (length rs) * (2 * f_val cap / 2 ^ 53 + 3 * eta)"
proof -
  have ok: "bucket_ok b" by (rule new_bucket_ok [OF assms(1-3)])
  note f = new_bucket_fields [OF assms(1)]
  have "bucket_ok b' \<and> s + level b' \<le> level b + inflow b (tb_last_refill b' - tb_last_refill b)
      + of_nat (length rs) * rounding_cost b"
    using run_bucket_bound [OF ok _ assms(5,6)] assms(4) f by (simp add: clock_ok_def)
  moreover have "0 \<le> level b'" if "bucket_ok b'" using that by (auto simp: bucket_ok_def)
  ultimately show ?thesis using f by (simp add: inflow_def rounding_cost_def)
qed

theorem rate_limit_witness:
  "\<exists>b s b'. new_bucket 0 (Fin 2) (Fin 20) = Inr b \<and>
    run_bucket [(0, Fin 1), (0, Fin 1), (0, Fin 1)] b = (s, b') \<and>
    s \<le> 2 + of_nat 3 * (4 / 2 ^ 53 + 3 * eta)"
proof -
  have wf: "wf64 (Fin 2)" "wf64 (Fin 20)"
    using max_f64_big by (simp_all add: is_double_def f64_simps)
  obtain b where b: "new_bucket 0 (Fin 2) (Fin 20) = Inr b" by (simp add: new_bucket_def)
  obtain s b' where r: "run_bucket [(0, Fin 1), (0, Fin 1), (0, Fin 1)] b = (s, b')" by fastforce
  have rat1: "rnd 1 = 1" by (rule rnd_1)
  have "tb_last_refill b' = 0"
    using r new_bucket_fields [OF b] rat1 max_f64_big
    by (auto simp: try_consume_def refill_def f_sub_def to_f64_def Let_def split: prod.splits if_splits)
  with r b rate_limit [OF b wf _ _ r] show ?thesis by (simp add: clock_ok_def)
qed

text \<open>
  C32: the level of a bucket stays a finite number between 0 and the capacity in every run, whatever
  the requests, the clock readings and the rounding errors, and refused or throwing requests
  included.
\<close>

theorem level_in_range:
  assumes "new_bucket t0 cap rate = Inr b" "wf64 cap" "wf64 rate"
    and "clock_ok t0" "list_all (clock_ok \<circ> fst) rs" and "run_bucket rs b = (s, b')"
  shows "\<exists>t. tb_tokens b' = Fin t \<and> 0 \<le> t \<and> Fin t \<le> cap \<and> tb_capacity b' = cap"
proof -
  have ok: "bucket_ok b" by (rule new_bucket_ok [OF assms(1-3)])
  note f = new_bucket_fields [OF assms(1)]
  have "bucket_ok b' \<and> tb_capacity b' = tb_capacity b"
    using run_bucket_bound [OF ok _ assms(5,6)] assms(4) f by (simp add: clock_ok_def)
  then show ?thesis using f by (auto simp: bucket_ok_def)
qed

theorem level_in_range_witness:
  "\<exists>b s b' t. new_bucket 5 (Fin 2) (Fin 20) = Inr b \<and>
    run_bucket [(7, Fin 1), (3, NaN), (100000000, Fin 2)] b = (s, b') \<and>
    tb_tokens b' = Fin t \<and> 0 \<le> t \<and> t \<le> 2"
proof -
  have wf: "wf64 (Fin 2)" "wf64 (Fin 20)" by (rule wf64_numeral, simp)+
  obtain b where b: "new_bucket 5 (Fin 2) (Fin 20) = Inr b" by (simp add: new_bucket_def)
  obtain s b' where r: "run_bucket [(7, Fin 1), (3, NaN), (100000000, Fin 2)] b = (s, b')"
    by fastforce
  show ?thesis using level_in_range [OF b wf _ _ r] b r by (auto simp: clock_ok_def)
qed

text \<open>
  C33: no starvation. After a wait of \<open>2 ^ j\<close> seconds in which the nominal refill reaches the
  capacity, the measured level is exactly the capacity, and every request of at most the capacity
  is granted, however empty the bucket was.
\<close>

theorem refilled_bucket_grants:
  assumes "bucket_ok b" "cap_val b \<le> 2 ^ j * f_val (tb_refill_rate b)"
    and "2 ^ j * 1000000000 \<le> now - tb_last_refill b" "now - tb_last_refill b < 2 ^ 63"
    and "0 < a" "Fin a \<le> tb_capacity b"
  shows "fst (available_tokens now b) = tb_capacity b \<and>
    (\<exists>b'. try_consume now (Fin a) b = Inr (True, b'))"
proof -
  note full = refill_full [OF assms(1-4)]
  obtain c where c: "tb_capacity b = Fin c" using assms(1) by (auto simp: bucket_ok_def)
  then show ?thesis using full assms(5,6)
    by (auto simp: available_tokens_def try_consume_def Let_def)
qed

theorem refilled_bucket_grants_witness:
  "\<exists>b'. try_consume 2000000000 (Fin 2)
     \<lparr>tb_capacity = Fin 2, tb_refill_rate = Fin 20, tb_tokens = Fin 0, tb_last_refill = 0\<rparr>
   = Inr (True, b')"
proof -
  define b where
    "b = \<lparr>tb_capacity = Fin 2, tb_refill_rate = Fin 20, tb_tokens = Fin 0, tb_last_refill = 0\<rparr>"
  have wf: "wf64 (Fin 2)" "wf64 (Fin 20)" by (rule wf64_numeral, simp)+
  then have "bucket_ok b" using max_f64_big by (simp add: bucket_ok_def b_def is_double_def)
  from refilled_bucket_grants [OF this, of 0 2000000000 2] show ?thesis by (simp add: b_def)
qed

end
