(* ===== verification/AdmissionPolicy.thy ===== *)
theory AdmissionPolicy
  imports F64
begin

text \<open>
  \<^verbatim>\<open>controller/src/admission_policy.cpp\<close> and \<^verbatim>\<open>metrics_snapshot.hpp\<close>: the threshold policy with
  cooldown and hysteresis that recommends the controller's in-flight cap. An \<open>int\<close> of the code is
  an integer whose overflow is an error value, a \<open>double\<close> is an \<open>f64\<close>.

  The lemmas give the invariant of the policy's counters, the decision on every branch, how slowly
  the recommendation rises after an overload and how fast it falls, and the configurations for
  which the constructor's checks are not enough (NaN, the largest \<open>int\<close>, an empty queue).
\<close>

subsection \<open>Data\<close>

datatype admission_decision = Admit | Queue | Reject

record admission_config =
  cfg_min_inflight :: int
  cfg_max_inflight :: int
  cfg_max_queue_size :: int
  cfg_target_p95_ttft_ms :: f64
  cfg_critical_p95_ttft_ms :: f64
  cfg_max_kv_cache_usage_ratio :: f64
  cfg_max_gpu_memory_usage_ratio :: f64
  cfg_max_waiting_requests :: int
  cfg_recovery_ratio :: f64
  cfg_cooldown_samples :: int

record metrics_snapshot =
  ms_timestamp :: int
  ms_p95_ttft_ms :: f64
  ms_running_requests :: int
  ms_waiting_requests :: int
  ms_kv_cache_usage_ratio :: f64
  ms_gpu_memory_usage_ratio :: f64
  ms_gpu_utilization_ratio :: f64
  ms_error_rate :: f64

record admission_request_state =
  rs_current_inflight :: int
  rs_current_queue_size :: int

record admission_result =
  ar_decision :: admission_decision
  ar_recommended_max_inflight :: int
  ar_overloaded :: bool
  ar_critical :: bool

record admission_policy =
  ap_config :: admission_config
  ap_recommended_max_inflight :: int
  ap_cooldown_remaining :: int
  ap_consecutive_recovery_samples :: int

definition default_config :: admission_config where
  "default_config = \<lparr>cfg_min_inflight = 1, cfg_max_inflight = 8, cfg_max_queue_size = 16,
     cfg_target_p95_ttft_ms = Fin 800, cfg_critical_p95_ttft_ms = Fin 1600,
     cfg_max_kv_cache_usage_ratio = to_f64 (85 / 100),
     cfg_max_gpu_memory_usage_ratio = to_f64 (90 / 100),
     cfg_max_waiting_requests = 16, cfg_recovery_ratio = Fin (3 / 4), cfg_cooldown_samples = 3\<rparr>"

subsection \<open>Construction\<close>

definition validate_ratio :: "f64 \<Rightarrow> string \<Rightarrow> unit result" where
  "validate_ratio value name =
     (if f_lt value (Fin 0) \<or> f_lt (Fin 1) value
      then Inl (Invalid_Argument (name @ '' must be in [0, 1]'')) else Inr ())"

definition validate_config :: "admission_config \<Rightarrow> unit result" where
  "validate_config c =
     (if cfg_min_inflight c \<le> 0
      then Inl (Invalid_Argument ''min_inflight must be positive'')
      else if cfg_max_inflight c < cfg_min_inflight c
      then Inl (Invalid_Argument ''max_inflight must be >= min_inflight'')
      else if cfg_max_queue_size c < 0
      then Inl (Invalid_Argument ''max_queue_size must be non-negative'')
      else if f_le (cfg_target_p95_ttft_ms c) (Fin 0)
      then Inl (Invalid_Argument ''target_p95_ttft_ms must be positive'')
      else if f_lt (cfg_critical_p95_ttft_ms c) (cfg_target_p95_ttft_ms c)
      then Inl (Invalid_Argument ''critical_p95_ttft_ms must be >= target_p95_ttft_ms'')
      else case validate_ratio (cfg_max_kv_cache_usage_ratio c) ''max_kv_cache_usage_ratio'' of
        Inl e \<Rightarrow> Inl e
      | Inr _ \<Rightarrow>
        (case validate_ratio (cfg_max_gpu_memory_usage_ratio c) ''max_gpu_memory_usage_ratio'' of
          Inl e \<Rightarrow> Inl e
        | Inr _ \<Rightarrow>
          if cfg_max_waiting_requests c < 0
          then Inl (Invalid_Argument ''max_waiting_requests must be non-negative'')
          else if f_le (cfg_recovery_ratio c) (Fin 0) \<or> f_ge (cfg_recovery_ratio c) (Fin 1)
          then Inl (Invalid_Argument ''recovery_ratio must be in (0, 1)'')
          else if cfg_cooldown_samples c \<le> 0
          then Inl (Invalid_Argument ''cooldown_samples must be positive'')
          else Inr ()))"

definition new_policy :: "admission_config \<Rightarrow> admission_policy result" where
  "new_policy c = (case validate_config c of
     Inl e \<Rightarrow> Inl e
   | Inr _ \<Rightarrow> Inr \<lparr>ap_config = c, ap_recommended_max_inflight = cfg_max_inflight c,
       ap_cooldown_remaining = 0, ap_consecutive_recovery_samples = 0\<rparr>)"

subsection \<open>Classification of a sample\<close>

definition is_soft_overload :: "admission_config \<Rightarrow> metrics_snapshot \<Rightarrow> bool" where
  "is_soft_overload c m \<longleftrightarrow>
     f_ge (ms_p95_ttft_ms m) (cfg_target_p95_ttft_ms c) \<or>
     f_ge (ms_kv_cache_usage_ratio m) (cfg_max_kv_cache_usage_ratio c) \<or>
     f_ge (ms_gpu_memory_usage_ratio m) (cfg_max_gpu_memory_usage_ratio c) \<or>
     cfg_max_waiting_requests c \<le> ms_waiting_requests m"

definition is_critical_overload :: "admission_config \<Rightarrow> metrics_snapshot \<Rightarrow> bool" where
  "is_critical_overload c m \<longleftrightarrow>
     f_ge (ms_p95_ttft_ms m) (cfg_critical_p95_ttft_ms c) \<or>
     f_ge (ms_kv_cache_usage_ratio m) (to_f64 (98 / 100)) \<or>
     f_ge (ms_gpu_memory_usage_ratio m) (to_f64 (98 / 100)) \<or>
     f_ge (ms_error_rate m) (to_f64 (10 / 100))"

definition is_recovery_sample :: "admission_config \<Rightarrow> metrics_snapshot \<Rightarrow> bool" where
  "is_recovery_sample c m \<longleftrightarrow>
     f_lt (ms_p95_ttft_ms m) (f_mul (cfg_target_p95_ttft_ms c) (cfg_recovery_ratio c)) \<and>
     f_lt (ms_kv_cache_usage_ratio m)
       (f_mul (cfg_max_kv_cache_usage_ratio c) (cfg_recovery_ratio c)) \<and>
     f_lt (ms_gpu_memory_usage_ratio m)
       (f_mul (cfg_max_gpu_memory_usage_ratio c) (cfg_recovery_ratio c)) \<and>
     f_lt (f_of_int (ms_waiting_requests m))
       (f_mul (f_of_int (cfg_max_waiting_requests c)) (cfg_recovery_ratio c)) \<and>
     f_lt (ms_error_rate m) (to_f64 (1 / 100))"

subsection \<open>The recommendation and the decision\<close>

text \<open>Integer division of the code truncates towards zero.\<close>

definition halve :: "int \<Rightarrow> int" where
  "halve n = (if 0 \<le> n then n div 2 else - (- n div 2))"

definition update_recommendation ::
    "bool \<Rightarrow> bool \<Rightarrow> bool \<Rightarrow> admission_policy \<Rightarrow> admission_policy result" where
  "update_recommendation soft critical recovery p =
     (let c = ap_config p; r = ap_recommended_max_inflight p in
      if critical then
        Inr (p\<lparr>ap_recommended_max_inflight := max (cfg_min_inflight c) (halve r),
               ap_cooldown_remaining := cfg_cooldown_samples c,
               ap_consecutive_recovery_samples := 0\<rparr>)
      else if soft then
        (case checked_int (r - 1) of
           Inl e \<Rightarrow> Inl e
         | Inr r' \<Rightarrow> Inr (p\<lparr>ap_recommended_max_inflight := max (cfg_min_inflight c) r',
               ap_cooldown_remaining := cfg_cooldown_samples c,
               ap_consecutive_recovery_samples := 0\<rparr>))
      else if 0 < ap_cooldown_remaining p then
        Inr (p\<lparr>ap_cooldown_remaining := ap_cooldown_remaining p - 1\<rparr>)
      else if \<not> recovery then Inr (p\<lparr>ap_consecutive_recovery_samples := 0\<rparr>)
      else case checked_int (ap_consecutive_recovery_samples p + 1) of
        Inl e \<Rightarrow> Inl e
      | Inr k \<Rightarrow>
        (if cfg_cooldown_samples c \<le> k then
          (case checked_int (r + 1) of
             Inl e \<Rightarrow> Inl e
           | Inr r' \<Rightarrow> Inr (p\<lparr>ap_recommended_max_inflight := min (cfg_max_inflight c) r',
               ap_consecutive_recovery_samples := 0\<rparr>))
         else Inr (p\<lparr>ap_consecutive_recovery_samples := k\<rparr>)))"

definition evaluate :: "metrics_snapshot \<Rightarrow> admission_request_state \<Rightarrow> admission_policy
    \<Rightarrow> (admission_result \<times> admission_policy) result" where
  "evaluate m s p =
     (if rs_current_inflight s < 0 \<or> rs_current_queue_size s < 0
      then Inl (Invalid_Argument ''request state counters must be non-negative'')
      else let c = ap_config p;
             soft = is_soft_overload c m;
             critical = is_critical_overload c m;
             recovery = is_recovery_sample c m
        in case update_recommendation soft critical recovery p of
          Inl e \<Rightarrow> Inl e
        | Inr p' \<Rightarrow>
          let decision =
            (if critical \<or> cfg_max_queue_size c \<le> rs_current_queue_size s then Reject
             else if soft \<or> ap_recommended_max_inflight p' \<le> rs_current_inflight s then Queue
             else Admit)
          in Inr (\<lparr>ar_decision = decision,
                   ar_recommended_max_inflight = ap_recommended_max_inflight p',
                   ar_overloaded = (soft \<or> critical), ar_critical = critical\<rparr>, p'))"

definition decision_to_string :: "admission_decision \<Rightarrow> string" where
  "decision_to_string d = (case d of Admit \<Rightarrow> ''Admit'' | Queue \<Rightarrow> ''Queue'' | Reject \<Rightarrow> ''Reject'')"

subsection \<open>The invariant\<close>

text \<open>
  \<open>ints_ok\<close>: the integer fields are values of the C++ type. \<open>policy_ok\<close>: what the constructor
  establishes and every sample keeps. The policy can overflow only if its cap is the largest
  \<open>int\<close>, which \<open>bounded_cap\<close> excludes.
\<close>

definition ints_ok :: "admission_config \<Rightarrow> bool" where
  "ints_ok c \<longleftrightarrow> int_ok (cfg_min_inflight c) \<and> int_ok (cfg_max_inflight c) \<and>
     int_ok (cfg_max_queue_size c) \<and> int_ok (cfg_max_waiting_requests c) \<and>
     int_ok (cfg_cooldown_samples c)"

definition policy_ok :: "admission_policy \<Rightarrow> bool" where
  "policy_ok p \<longleftrightarrow> (let c = ap_config p in
     ints_ok c \<and> 0 < cfg_min_inflight c \<and> 0 < cfg_cooldown_samples c \<and>
     cfg_min_inflight c \<le> ap_recommended_max_inflight p \<and>
     ap_recommended_max_inflight p \<le> cfg_max_inflight c \<and>
     0 \<le> ap_cooldown_remaining p \<and> ap_cooldown_remaining p \<le> cfg_cooldown_samples c \<and>
     0 \<le> ap_consecutive_recovery_samples p \<and>
     ap_consecutive_recovery_samples p < cfg_cooldown_samples c)"

definition bounded_cap :: "admission_policy \<Rightarrow> bool" where
  "bounded_cap p \<longleftrightarrow> cfg_max_inflight (ap_config p) < int_max"

abbreviation nonneg_state :: "admission_request_state \<Rightarrow> bool" where
  "nonneg_state s \<equiv> 0 \<le> rs_current_inflight s \<and> 0 \<le> rs_current_queue_size s"

definition healthy :: "admission_config \<Rightarrow> metrics_snapshot \<Rightarrow> bool" where
  "healthy c m \<longleftrightarrow> \<not> is_soft_overload c m \<and> \<not> is_critical_overload c m \<and> is_recovery_sample c m"

definition overload :: "admission_config \<Rightarrow> metrics_snapshot \<Rightarrow> bool" where
  "overload c m \<longleftrightarrow> is_soft_overload c m \<or> is_critical_overload c m"

lemma validate_config_ok:
  "validate_config c = Inr () \<Longrightarrow> 0 < cfg_min_inflight c \<and> cfg_min_inflight c \<le> cfg_max_inflight c \<and>
    0 \<le> cfg_max_queue_size c \<and> 0 \<le> cfg_max_waiting_requests c \<and> 0 < cfg_cooldown_samples c"
  by (auto simp: validate_config_def split: if_splits sum.splits)

lemma new_policy_ok: "new_policy c = Inr p \<Longrightarrow> ints_ok c \<Longrightarrow>
    policy_ok p \<and> ap_config p = c \<and> ap_recommended_max_inflight p = cfg_max_inflight c"
  using validate_config_ok [of c]
  by (auto simp: new_policy_def policy_ok_def Let_def split: sum.splits)

subsection \<open>One sample\<close>

text \<open>The branches of \<open>update_recommendation\<close> on a policy that satisfies the invariant.\<close>

named_theorems branch_simps

lemma update_critical [branch_simps]:
  "policy_ok p \<Longrightarrow> update_recommendation soft True recovery p =
    Inr (p\<lparr>ap_recommended_max_inflight :=
             max (cfg_min_inflight (ap_config p)) (ap_recommended_max_inflight p div 2),
           ap_cooldown_remaining := cfg_cooldown_samples (ap_config p),
           ap_consecutive_recovery_samples := 0\<rparr>)"
  by (auto simp: update_recommendation_def policy_ok_def halve_def Let_def)

lemma update_soft [branch_simps]:
  "policy_ok p \<Longrightarrow> update_recommendation True False recovery p =
    Inr (p\<lparr>ap_recommended_max_inflight :=
             max (cfg_min_inflight (ap_config p)) (ap_recommended_max_inflight p - 1),
           ap_cooldown_remaining := cfg_cooldown_samples (ap_config p),
           ap_consecutive_recovery_samples := 0\<rparr>)"
  by (auto simp: update_recommendation_def policy_ok_def ints_ok_def int_ok_def Let_def)

lemma update_cooldown [branch_simps]:
  "0 < ap_cooldown_remaining p \<Longrightarrow> update_recommendation False False recovery p =
    Inr (p\<lparr>ap_cooldown_remaining := ap_cooldown_remaining p - 1\<rparr>)"
  by (simp add: update_recommendation_def Let_def)

lemma update_neutral [branch_simps]:
  "ap_cooldown_remaining p \<le> 0 \<Longrightarrow> update_recommendation False False False p =
    Inr (p\<lparr>ap_consecutive_recovery_samples := 0\<rparr>)"
  by (simp add: update_recommendation_def Let_def)

lemma update_recovery [branch_simps]:
  assumes "policy_ok p" "bounded_cap p" "ap_cooldown_remaining p \<le> 0"
  shows "update_recommendation False False True p =
    Inr (if ap_consecutive_recovery_samples p + 1 < cfg_cooldown_samples (ap_config p)
         then p\<lparr>ap_consecutive_recovery_samples := ap_consecutive_recovery_samples p + 1\<rparr>
         else p\<lparr>ap_recommended_max_inflight := min (cfg_max_inflight (ap_config p))
                  (ap_recommended_max_inflight p + 1),
                ap_consecutive_recovery_samples := 0\<rparr>)"
proof -
  have "int_ok (ap_consecutive_recovery_samples p + 1)" "int_ok (ap_recommended_max_inflight p + 1)"
    using assms by (auto simp: policy_ok_def bounded_cap_def ints_ok_def int_ok_def int_max_def Let_def)
  then show ?thesis using assms(3) by (simp add: update_recommendation_def Let_def)
qed

lemma update_recommendation_ok:
  assumes "policy_ok p" "bounded_cap p"
  shows "\<exists>p'. update_recommendation soft critical recovery p = Inr p' \<and> policy_ok p' \<and>
    ap_config p' = ap_config p"
proof (cases "critical \<or> soft")
  case True
  then show ?thesis using assms(1)
    by (cases critical; cases soft) (auto simp: branch_simps policy_ok_def Let_def)
next
  case False
  then show ?thesis using assms
    by (cases "0 < ap_cooldown_remaining p"; cases recovery)
      (auto simp: branch_simps policy_ok_def Let_def not_less)
qed

lemma evaluate_eq:
  assumes "policy_ok p" "bounded_cap p" "nonneg_state s"
  shows "\<exists>r p'. evaluate m s p = Inr (r, p') \<and> policy_ok p' \<and> ap_config p' = ap_config p \<and>
    ar_recommended_max_inflight r = ap_recommended_max_inflight p' \<and>
    update_recommendation (is_soft_overload (ap_config p) m) (is_critical_overload (ap_config p) m)
      (is_recovery_sample (ap_config p) m) p = Inr p'"
  using update_recommendation_ok [OF assms(1,2), of "is_soft_overload (ap_config p) m"
      "is_critical_overload (ap_config p) m" "is_recovery_sample (ap_config p) m"] assms(3)
  by (auto simp: evaluate_def Let_def)

subsection \<open>Runs\<close>

text \<open>A sequence of \<open>evaluate\<close> calls; it stops at the first one that throws.\<close>

fun run_policy :: "(metrics_snapshot \<times> admission_request_state) list \<Rightarrow> admission_policy
    \<Rightarrow> (admission_result list \<times> admission_policy) result" where
  "run_policy [] p = Inr ([], p)"
| "run_policy ((m, s) # xs) p = (case evaluate m s p of
     Inl e \<Rightarrow> Inl e
   | Inr (r, p') \<Rightarrow> (case run_policy xs p' of
       Inl e \<Rightarrow> Inl e
     | Inr (rs, p'') \<Rightarrow> Inr (r # rs, p'')))"

definition samples_ok :: "(metrics_snapshot \<times> admission_request_state) list \<Rightarrow> bool" where
  "samples_ok xs \<longleftrightarrow> list_all (\<lambda>(m, s). nonneg_state s) xs"

lemma run_policy_Cons:
  assumes "policy_ok p" "bounded_cap p" "samples_ok ((m, s) # xs)"
    and "run_policy ((m, s) # xs) p = Inr (rs, p')"
  obtains r p1 rs1 where "rs = r # rs1" "evaluate m s p = Inr (r, p1)" "policy_ok p1" "bounded_cap p1"
    "ap_config p1 = ap_config p" "ar_recommended_max_inflight r = ap_recommended_max_inflight p1"
    "update_recommendation (is_soft_overload (ap_config p) m) (is_critical_overload (ap_config p) m)
       (is_recovery_sample (ap_config p) m) p = Inr p1"
    "samples_ok xs" "run_policy xs p1 = Inr (rs1, p')"
proof -
  have "nonneg_state s" "samples_ok xs" using assms(3) by (simp_all add: samples_ok_def)
  with evaluate_eq [OF assms(1,2), of s m] assms(2,4) that show ?thesis
    by (fastforce simp: bounded_cap_def split: sum.splits)
qed

lemma run_policy_ok:
  assumes "policy_ok p" "bounded_cap p" "samples_ok xs"
  shows "\<exists>rs p'. run_policy xs p = Inr (rs, p') \<and> policy_ok p' \<and> ap_config p' = ap_config p \<and>
    length rs = length xs \<and> list_all (\<lambda>r. cfg_min_inflight (ap_config p) \<le> ar_recommended_max_inflight r \<and>
      ar_recommended_max_inflight r \<le> cfg_max_inflight (ap_config p)) rs"
  using assms
proof (induction xs arbitrary: p)
  case (Cons x xs)
  obtain m s where x: "x = (m, s)" by fastforce
  have s: "nonneg_state s" "samples_ok xs" using Cons.prems(3) by (simp_all add: samples_ok_def x)
  obtain r p1 where p1: "evaluate m s p = Inr (r, p1)" "policy_ok p1" "ap_config p1 = ap_config p"
    "ar_recommended_max_inflight r = ap_recommended_max_inflight p1"
    using evaluate_eq [OF Cons.prems(1,2) s(1), of m] by blast
  have "bounded_cap p1" using Cons.prems(2) p1(3) by (simp add: bounded_cap_def)
  from Cons.IH [OF p1(2) this s(2)] p1 show ?case by (auto simp: x policy_ok_def Let_def)
qed simp

text \<open>Without a bound on the cap: a sample that succeeds keeps the invariant, and when one fails.\<close>

lemma evaluate_keeps:
  assumes "policy_ok p" "evaluate m s p = Inr (r, p')"
  shows "policy_ok p'" "ap_config p' = ap_config p" "ar_recommended_max_inflight r = ap_recommended_max_inflight p'"
proof -
  obtain soft critical recovery where u: "update_recommendation soft critical recovery p = Inr p'"
    and r: "ar_recommended_max_inflight r = ap_recommended_max_inflight p'"
    using assms(2) by (auto simp: evaluate_def Let_def split: if_splits sum.splits)
  have "policy_ok p' \<and> ap_config p' = ap_config p"
  proof (cases "critical \<or> soft")
    case True
    then show ?thesis using assms(1) u
      by (cases critical; cases soft) (auto simp: branch_simps policy_ok_def Let_def)
  next
    case False
    then show ?thesis using assms(1) u
      by (auto simp: update_recommendation_def policy_ok_def Let_def checked_int_def split: if_splits sum.splits)
  qed
  then show "policy_ok p'" "ap_config p' = ap_config p" "ar_recommended_max_inflight r = ap_recommended_max_inflight p'"
    using r by simp_all
qed

lemma run_policy_range:
  assumes "policy_ok p" "run_policy xs p = Inr (rs, p')"
  shows "policy_ok p' \<and> ap_config p' = ap_config p \<and> length rs = length xs \<and>
    list_all (\<lambda>r. cfg_min_inflight (ap_config p) \<le> ar_recommended_max_inflight r \<and>
      ar_recommended_max_inflight r \<le> cfg_max_inflight (ap_config p)) rs"
  using assms
proof (induction xs arbitrary: p rs)
  case (Cons x xs)
  obtain m s where x: "x = (m, s)" by fastforce
  obtain r p1 rs1 where p1: "evaluate m s p = Inr (r, p1)" "run_policy xs p1 = Inr (rs1, p')" "rs = r # rs1"
    using Cons.prems(2) by (auto simp: x split: sum.splits)
  note k = evaluate_keeps [OF Cons.prems(1) p1(1)]
  from Cons.IH [OF k(1) p1(2)] k show ?case by (auto simp: p1(3) policy_ok_def Let_def)
qed simp

lemma evaluate_fails:
  assumes "policy_ok p"
  shows "(\<exists>e. evaluate m s p = Inl e) \<longleftrightarrow> \<not> nonneg_state s \<or>
    ap_recommended_max_inflight p = int_max \<and> healthy (ap_config p) m \<and> ap_cooldown_remaining p = 0 \<and>
    cfg_cooldown_samples (ap_config p) \<le> ap_consecutive_recovery_samples p + 1"
proof -
  let ?u = "\<lambda>soft critical recovery. update_recommendation soft critical recovery p"
  have ints: "int_ok (ap_consecutive_recovery_samples p + 1)" "0 \<le> ap_cooldown_remaining p"
    "int_ok (ap_recommended_max_inflight p + 1) \<longleftrightarrow> ap_recommended_max_inflight p \<noteq> int_max"
    using assms by (auto simp: policy_ok_def ints_ok_def int_ok_def int_max_def Let_def)
  have "(\<exists>e. ?u soft critical recovery = Inl e) \<longleftrightarrow> \<not> critical \<and> \<not> soft \<and> recovery \<and>
      ap_recommended_max_inflight p = int_max \<and> ap_cooldown_remaining p = 0 \<and>
      cfg_cooldown_samples (ap_config p) \<le> ap_consecutive_recovery_samples p + 1" for soft critical recovery
  proof (cases "critical \<or> soft")
    case True
    then show ?thesis using assms by (cases critical; cases soft) (simp_all add: branch_simps)
  next
    case False
    then show ?thesis using ints by (auto simp: update_recommendation_def Let_def checked_int_def)
  qed
  moreover have "(\<exists>e. evaluate m s p = Inl e) \<longleftrightarrow> \<not> nonneg_state s \<or>
      (\<exists>e. ?u (is_soft_overload (ap_config p) m) (is_critical_overload (ap_config p) m)
        (is_recovery_sample (ap_config p) m) = Inl e)"
    by (auto simp: evaluate_def Let_def split: sum.splits)
  ultimately show ?thesis by (auto simp: healthy_def)
qed

subsection \<open>Speed of the recommendation\<close>

text \<open>
  The recommendation after \<open>n\<close> samples is at most \<open>speed_limit n p\<close>: one step up for each
  \<open>cooldown_samples\<close> samples that come after the cooldown. A run of healthy samples reaches it.
\<close>

definition speed_limit :: "nat \<Rightarrow> admission_policy \<Rightarrow> int" where
  "speed_limit n p = min (cfg_max_inflight (ap_config p))
     (ap_recommended_max_inflight p +
       (ap_consecutive_recovery_samples p + max 0 (int n - ap_cooldown_remaining p))
         div cfg_cooldown_samples (ap_config p))"

lemma speed_limit_0: "policy_ok p \<Longrightarrow> speed_limit 0 p = ap_recommended_max_inflight p"
  by (auto simp: speed_limit_def policy_ok_def Let_def)

lemma div_add_period: "0 < (c::int) \<Longrightarrow> (a + c) div c = a div c + 1"
  by simp

lemma speed_limit_healthy:
  assumes "policy_ok p" "bounded_cap p" "update_recommendation False False True p = Inr p'"
  shows "speed_limit n p' = speed_limit (Suc n) p"
proof (cases "0 < ap_cooldown_remaining p")
  case True
  then have "p' = p\<lparr>ap_cooldown_remaining := ap_cooldown_remaining p - 1\<rparr>"
    using assms(3) by (simp add: update_cooldown)
  then show ?thesis by (simp add: speed_limit_def algebra_simps)
next
  case False
  let ?C = "cfg_cooldown_samples (ap_config p)" and ?k = "ap_consecutive_recovery_samples p"
  have z: "ap_cooldown_remaining p = 0" using assms(1) False by (simp add: policy_ok_def Let_def)
  have C: "0 < ?C" "?k < ?C" using assms(1) by (simp_all add: policy_ok_def Let_def)
  have p': "p' = (if ?k + 1 < ?C then p\<lparr>ap_consecutive_recovery_samples := ?k + 1\<rparr>
      else p\<lparr>ap_recommended_max_inflight := min (cfg_max_inflight (ap_config p))
               (ap_recommended_max_inflight p + 1), ap_consecutive_recovery_samples := 0\<rparr>)"
    using assms z by (simp add: update_recovery)
  show ?thesis
  proof (cases "?k + 1 < ?C")
    case True
    then show ?thesis using p' z by (simp add: speed_limit_def algebra_simps)
  next
    case False
    then have "?k + int (Suc n) = int n + ?C" using C by simp
    then have "(?k + int (Suc n)) div ?C = int n div ?C + 1" using C(1) by (metis div_add_period)
    moreover have "0 \<le> int n div ?C" using C(1) by (simp add: pos_imp_zdiv_nonneg_iff)
    ultimately show ?thesis using False p' z by (simp add: speed_limit_def min_def)
  qed
qed

lemma speed_limit_step:
  assumes "policy_ok p" "bounded_cap p" "update_recommendation soft critical recovery p = Inr p'"
  shows "speed_limit n p' \<le> speed_limit (Suc n) p"
proof -
  let ?C = "cfg_cooldown_samples (ap_config p)" and ?k = "ap_consecutive_recovery_samples p"
  have ok: "0 < ?C" "0 \<le> ?k" "0 \<le> ap_cooldown_remaining p" "ap_cooldown_remaining p \<le> ?C"
    "0 < cfg_min_inflight (ap_config p)" "cfg_min_inflight (ap_config p) \<le> ap_recommended_max_inflight p"
    using assms(1) by (simp_all add: policy_ok_def Let_def)
  have reset: "speed_limit n q \<le> speed_limit (Suc n) p"
    if "ap_config q = ap_config p" "ap_consecutive_recovery_samples q = 0"
      "ap_recommended_max_inflight q \<le> ap_recommended_max_inflight p"
      "ap_cooldown_remaining p \<le> ap_cooldown_remaining q" for q
  proof -
    have "max 0 (int n - ap_cooldown_remaining q) div ?C
        \<le> (?k + max 0 (int (Suc n) - ap_cooldown_remaining p)) div ?C"
      using ok that by (intro zdiv_mono1) auto
    with that show ?thesis by (auto simp: speed_limit_def)
  qed
  show ?thesis
  proof (cases "critical \<or> soft")
    case True
    then show ?thesis using assms(1,3) ok
      by (cases critical; cases soft) (auto simp: branch_simps intro!: reset)
  next
    case False
    then show ?thesis
    proof (cases recovery)
      case True
      with False assms speed_limit_healthy [of p p' n] show ?thesis by simp
    next
      case recovery: False
      show ?thesis
      proof (cases "0 < ap_cooldown_remaining p")
        case True
        with False assms(3) show ?thesis by (auto simp: update_cooldown speed_limit_def algebra_simps)
      next
        case False
        with \<open>\<not> (critical \<or> soft)\<close> recovery assms(3) have "p' = p\<lparr>ap_consecutive_recovery_samples := 0\<rparr>"
          by (simp add: update_neutral)
        then show ?thesis by (intro reset) auto
      qed
    qed
  qed
qed

lemma run_speed_limit:
  assumes "policy_ok p" "bounded_cap p" "samples_ok xs" "run_policy xs p = Inr (rs, p')"
  shows "ap_recommended_max_inflight p' \<le> speed_limit (length xs) p"
  using assms
proof (induction xs arbitrary: p rs)
  case (Cons x xs)
  obtain m s where x: "x = (m, s)" by fastforce
  obtain p1 rs1 where p1: "policy_ok p1" "bounded_cap p1" "samples_ok xs" "run_policy xs p1 = Inr (rs1, p')"
    "update_recommendation (is_soft_overload (ap_config p) m) (is_critical_overload (ap_config p) m)
       (is_recovery_sample (ap_config p) m) p = Inr p1"
    using run_policy_Cons [OF Cons.prems(1,2)] Cons.prems(3,4) x by metis
  show ?case using Cons.IH [OF p1(1-4)] speed_limit_step [OF Cons.prems(1,2) p1(5), of "length xs"]
    by simp
qed (simp add: speed_limit_0)

lemma run_healthy:
  assumes "policy_ok p" "bounded_cap p" "samples_ok xs" "list_all (\<lambda>(m, s). healthy (ap_config p) m) xs"
    and "run_policy xs p = Inr (rs, p')"
  shows "ap_recommended_max_inflight p' = speed_limit (length xs) p"
  using assms
proof (induction xs arbitrary: p rs)
  case (Cons x xs)
  obtain m s where x: "x = (m, s)" by fastforce
  obtain p1 rs1 where p1: "policy_ok p1" "bounded_cap p1" "samples_ok xs" "run_policy xs p1 = Inr (rs1, p')"
    "ap_config p1 = ap_config p"
    "update_recommendation (is_soft_overload (ap_config p) m) (is_critical_overload (ap_config p) m)
       (is_recovery_sample (ap_config p) m) p = Inr p1"
    using run_policy_Cons [OF Cons.prems(1,2)] Cons.prems(3,5) x by metis
  have "update_recommendation False False True p = Inr p1"
    using p1(6) Cons.prems(4) by (simp add: healthy_def x)
  from Cons.IH [OF p1(1-3) _ p1(4)] Cons.prems(4) p1(5) speed_limit_healthy [OF Cons.prems(1,2) this]
  show ?case by simp
qed (simp add: speed_limit_0)

lemma run_critical:
  assumes "policy_ok p" "bounded_cap p" "samples_ok xs"
    and "list_all (\<lambda>(m, s). is_critical_overload (ap_config p) m) xs"
    and "run_policy xs p = Inr (rs, p')"
  shows "ap_recommended_max_inflight p' =
    max (cfg_min_inflight (ap_config p)) (ap_recommended_max_inflight p div 2 ^ length xs)"
  using assms
proof (induction xs arbitrary: p rs)
  case Nil
  then show ?case by (auto simp: policy_ok_def Let_def)
next
  case (Cons x xs)
  obtain m s where x: "x = (m, s)" by fastforce
  let ?min = "cfg_min_inflight (ap_config p)" and ?r = "ap_recommended_max_inflight p"
  obtain p1 rs1 where p1: "policy_ok p1" "bounded_cap p1" "samples_ok xs" "run_policy xs p1 = Inr (rs1, p')"
    "ap_config p1 = ap_config p"
    "update_recommendation (is_soft_overload (ap_config p) m) (is_critical_overload (ap_config p) m)
       (is_recovery_sample (ap_config p) m) p = Inr p1"
    using run_policy_Cons [OF Cons.prems(1,2)] Cons.prems(3,5) x by metis
  have r1: "ap_recommended_max_inflight p1 = max ?min (?r div 2)"
    using p1(6) Cons.prems(1,4) by (auto simp: x update_critical)
  have pos: "0 < ?min" using Cons.prems(1) by (simp add: policy_ok_def Let_def)
  have "?min div 2 ^ k \<le> ?min" for k :: nat
    using pos zdiv_mono2 [of ?min 1 "2 ^ k"] by simp
  moreover have "max ?min (?r div 2) div 2 ^ length xs
      = max (?min div 2 ^ length xs) ((?r div 2) div 2 ^ length xs)"
    using zdiv_mono1 [of ?min "?r div 2" "2 ^ length xs"] zdiv_mono1 [of "?r div 2" ?min "2 ^ length xs"]
    by (auto simp: max_def)
  ultimately have "max ?min (max ?min (?r div 2) div 2 ^ length xs)
      = max ?min ((?r div 2) div 2 ^ length xs)" by (simp add: max.absorb1 flip: max.assoc)
  also have "(?r div 2) div 2 ^ length xs = ?r div 2 ^ length (x # xs)"
    by (simp add: zdiv_zmult2_eq)
  finally show ?case using Cons.IH [OF p1(1-3) _ p1(4)] Cons.prems(4) r1 p1(5) by simp
qed

subsection \<open>Concrete samples\<close>

text \<open>Decimal literals of the code are rounded; their rounding error is far below their distance.\<close>

lemma rnd_literal:
  assumes "1 / 1024 \<le> q"
  shows "q * (1 - 1 / 2 ^ 53) \<le> rnd q \<and> rnd q \<le> q * (1 + 1 / 2 ^ 53)"
proof (rule rnd_between)
  have "(2::rat) powi (- 1022) \<le> 2 powi (- 10)" by (rule pow2_le) simp
  then show "2 powi (- 1022) \<le> q" using assms by simp
qed

lemma literal_bounds [simp]:
  "97 / 100 \<le> rnd (49 / 50)" "99 / 1000 \<le> rnd (1 / 10)" "9 / 1000 \<le> rnd (1 / 100)"
  "84 / 100 \<le> rnd (17 / 20)" "89 / 100 \<le> rnd (9 / 10)"
  "rnd (17 / 20) \<le> 86 / 100" "rnd (9 / 10) \<le> 91 / 100"
  using rnd_literal [of "49 / 50"] rnd_literal [of "1 / 10"] rnd_literal [of "1 / 100"]
    rnd_literal [of "17 / 20"] rnd_literal [of "9 / 10"] by simp_all

definition calm :: metrics_snapshot where
  "calm = \<lparr>ms_timestamp = 0, ms_p95_ttft_ms = Fin 100, ms_running_requests = 1,
     ms_waiting_requests = 0, ms_kv_cache_usage_ratio = Fin 0, ms_gpu_memory_usage_ratio = Fin 0,
     ms_gpu_utilization_ratio = Fin 0, ms_error_rate = Fin 0\<rparr>"

definition hot :: metrics_snapshot where
  "hot = calm\<lparr>ms_p95_ttft_ms := Fin 2000\<rparr>"

definition idle :: admission_request_state where
  "idle = \<lparr>rs_current_inflight = 0, rs_current_queue_size = 0\<rparr>"

lemma literal_products:
  "f_mul (Fin 800) (Fin (3 / 4)) = Fin 600"
  "f_mul (Fin (rnd (17 / 20))) (Fin (3 / 4)) = Fin (rnd (rnd (17 / 20) * (3 / 4)))"
  "f_mul (Fin (rnd (9 / 10))) (Fin (3 / 4)) = Fin (rnd (rnd (9 / 10) * (3 / 4)))"
  "f_mul (f_of_int 16) (Fin (3 / 4)) = Fin 12"
  "f_of_int 0 = Fin 0"
proof -
  have "\<bar>rnd (17 / 20) * (3 / 4)\<bar> \<le> 1" "\<bar>rnd (9 / 10) * (3 / 4)\<bar> \<le> 1"
    using literal_bounds(4-7) by linarith+
  then show "f_mul (Fin (rnd (17 / 20))) (Fin (3 / 4)) = Fin (rnd (rnd (17 / 20) * (3 / 4)))"
    "f_mul (Fin (rnd (9 / 10))) (Fin (3 / 4)) = Fin (rnd (rnd (9 / 10) * (3 / 4)))"
    by (simp_all only: f_mul.simps) (auto intro!: to_f64_le53)
qed (simp_all add: to_f64_le53 f_of_int_def f64_simps)

lemma product_pos [simp]:
  "1 / 2 \<le> rnd (rnd (17 / 20) * (3 / 4))" "1 / 2 \<le> rnd (rnd (9 / 10) * (3 / 4))"
  using literal_bounds(4,5) by (intro rnd_ge rnd_half; linarith)+

lemma default_validated: "validate_config default_config = Inr ()"
  using literal_bounds(4-7) by (simp add: validate_config_def validate_ratio_def default_config_def to_f64_le53)

lemma calm_healthy: "healthy default_config calm"
  using literal_bounds(1-5) product_pos
  by (simp add: healthy_def is_soft_overload_def is_critical_overload_def is_recovery_sample_def
      default_config_def calm_def literal_products to_f64_le53 del: f_mul.simps)

lemma hot_critical: "is_critical_overload default_config hot" "is_soft_overload default_config hot"
  by (simp_all add: is_critical_overload_def is_soft_overload_def default_config_def hot_def calm_def)

definition default_policy :: admission_policy where
  "default_policy = \<lparr>ap_config = default_config, ap_recommended_max_inflight = 8,
     ap_cooldown_remaining = 0, ap_consecutive_recovery_samples = 0\<rparr>"

lemma default_sel:
  "cfg_min_inflight default_config = 1" "cfg_max_inflight default_config = 8"
  "cfg_max_queue_size default_config = 16" "cfg_cooldown_samples default_config = 3"
  "ap_config default_policy = default_config" "ap_recommended_max_inflight default_policy = 8"
  by (simp_all add: default_config_def default_policy_def)

lemma new_default_policy: "new_policy default_config = Inr default_policy"
  by (simp add: new_policy_def default_validated default_policy_def default_sel)

lemma default_ints_ok: "ints_ok default_config" "cfg_max_inflight default_config < int_max"
  by (simp_all add: ints_ok_def int_ok_def int_max_def default_config_def)

lemma default_policy_ok: "policy_ok default_policy" "bounded_cap default_policy"
  using new_policy_ok [OF new_default_policy default_ints_ok(1)] default_ints_ok(2)
  by (simp_all add: bounded_cap_def)

lemma samples_ok_replicate [simp]: "samples_ok (replicate n (m, idle))"
  by (simp add: samples_ok_def list_all_iff idle_def)

subsection \<open>Properties\<close>

text \<open>
  C18: from construction on, as long as \<open>evaluate\<close> succeeds there is one result for each sample and
  every recommendation lies between \<open>min_inflight\<close> and \<open>max_inflight\<close>. And \<open>evaluate\<close> fails in exactly
  two cases: a counter of the request state is negative, or a healthy sample would raise a
  recommendation that is the largest \<open>int\<close>. So with a cap below the largest \<open>int\<close> and non-negative
  counters no further sequence of samples makes it fail.
\<close>

theorem recommendation_in_range:
  assumes "new_policy c = Inr p0" "ints_ok c" "run_policy xs p0 = Inr (rs, p)"
  shows "length rs = length xs \<and>
    (\<forall>r \<in> set rs. cfg_min_inflight c \<le> ar_recommended_max_inflight r \<and>
      ar_recommended_max_inflight r \<le> cfg_max_inflight c) \<and>
    (\<forall>m s. (\<exists>e. evaluate m s p = Inl e) \<longleftrightarrow> \<not> nonneg_state s \<or>
      ap_recommended_max_inflight p = int_max \<and> healthy c m \<and> ap_cooldown_remaining p = 0 \<and>
      cfg_cooldown_samples c \<le> ap_consecutive_recovery_samples p + 1) \<and>
    (cfg_max_inflight c < int_max \<and> samples_ok ys \<longrightarrow> (\<exists>rs' p'. run_policy ys p = Inr (rs', p')))"
proof -
  have "policy_ok p0" "ap_config p0 = c" using new_policy_ok [OF assms(1,2)] by simp_all
  with run_policy_range [OF _ assms(3)] have p: "policy_ok p" "ap_config p = c" "length rs = length xs"
    "\<forall>r \<in> set rs. cfg_min_inflight c \<le> ar_recommended_max_inflight r \<and> ar_recommended_max_inflight r \<le> cfg_max_inflight c"
    by (auto simp: list_all_iff)
  then show ?thesis using evaluate_fails [OF p(1)] run_policy_ok [OF p(1), of ys] by (auto simp: bounded_cap_def)
qed

theorem recommendation_in_range_witness:
  "\<exists>rs p. run_policy (replicate 5 (hot, idle)) default_policy = Inr (rs, p) \<and> length rs = 5 \<and>
    (\<forall>r \<in> set rs. 1 \<le> ar_recommended_max_inflight r \<and> ar_recommended_max_inflight r \<le> 8) \<and>
    (\<exists>e. evaluate calm (idle\<lparr>rs_current_queue_size := - 1\<rparr>) p = Inl e)"
proof -
  obtain rs p where run: "run_policy (replicate 5 (hot, idle)) default_policy = Inr (rs, p)"
    using run_policy_ok [OF default_policy_ok, of "replicate 5 (hot, idle)"] by auto
  from recommendation_in_range [OF new_default_policy default_ints_ok(1) run] run show ?thesis
    by (auto simp: default_sel)
qed

text \<open>
  C19: hysteresis. After an overloaded sample the recommendation cannot rise during the next
  \<open>2 * cooldown_samples - 1\<close> samples whatever they are, and later by at most one for each
  \<open>cooldown_samples\<close> samples; a run of healthy samples rises exactly at that rate until the cap.
\<close>

theorem recovery_is_slow:
  assumes "policy_ok p" "bounded_cap p" "evaluate m s p = Inr (r, p1)" "overload (ap_config p) m"
    and "samples_ok xs" "run_policy xs p1 = Inr (rs, p2)" "C = cfg_cooldown_samples (ap_config p)"
  shows "(int (length xs) < 2 * C \<longrightarrow> ap_recommended_max_inflight p2 \<le> ar_recommended_max_inflight r) \<and>
    ap_recommended_max_inflight p2
      \<le> ar_recommended_max_inflight r + max 0 (int (length xs) - C) div C \<and>
    (list_all (\<lambda>(m, s). healthy (ap_config p) m) xs \<longrightarrow> ap_recommended_max_inflight p2 =
      min (cfg_max_inflight (ap_config p))
        (ar_recommended_max_inflight r + max 0 (int (length xs) - C) div C))"
proof -
  have C: "0 < C" using assms(1,7) by (simp add: policy_ok_def Let_def)
  have "nonneg_state s" using assms(3) by (auto simp: evaluate_def split: if_splits)
  then have p1: "policy_ok p1" "ap_config p1 = ap_config p"
    "ar_recommended_max_inflight r = ap_recommended_max_inflight p1"
    "update_recommendation (is_soft_overload (ap_config p) m) (is_critical_overload (ap_config p) m)
      (is_recovery_sample (ap_config p) m) p = Inr p1"
    using evaluate_eq [OF assms(1,2), of s m] assms(3) by auto
  have "ap_cooldown_remaining p1 = C" "ap_consecutive_recovery_samples p1 = 0"
    using p1(4) assms(1,4,7)
    by (cases "is_critical_overload (ap_config p) m"; auto simp: overload_def branch_simps)+
  then have limit: "speed_limit (length xs) p1 = min (cfg_max_inflight (ap_config p))
      (ap_recommended_max_inflight p1 + max 0 (int (length xs) - C) div C)"
    using p1(2) assms(7) by (simp add: speed_limit_def)
  have b1: "bounded_cap p1" using p1(2) assms(2) by (simp add: bounded_cap_def)
  have "max 0 (int (length xs) - C) div C = 0" if "int (length xs) < 2 * C"
    using that C by (intro div_pos_pos_trivial) auto
  then show ?thesis using run_speed_limit [OF p1(1) b1 assms(5,6)]
      run_healthy [OF p1(1) b1 assms(5) _ assms(6)] limit p1(2,3) by auto
qed

theorem recovery_is_slow_witness:
  "\<exists>r p1 rs p2. evaluate hot idle default_policy = Inr (r, p1) \<and>
    run_policy (replicate 9 (calm, idle)) p1 = Inr (rs, p2) \<and>
    ar_recommended_max_inflight r = 4 \<and> ap_recommended_max_inflight p2 = 6"
proof -
  note c = default_sel
  have idle: "nonneg_state idle" by (simp add: idle_def)
  obtain r p1 where r: "evaluate hot idle default_policy = Inr (r, p1)" "policy_ok p1"
    "ap_config p1 = default_config" "ar_recommended_max_inflight r = ap_recommended_max_inflight p1"
    "update_recommendation True True (is_recovery_sample default_config hot) default_policy = Inr p1"
    using evaluate_eq [OF default_policy_ok idle, of hot] hot_critical c by auto
  have r4: "ar_recommended_max_inflight r = 4"
    using r(4,5) default_policy_ok by (auto simp: update_critical default_sel)
  have "bounded_cap p1" using r(3) default_ints_ok(2) by (simp add: bounded_cap_def)
  then obtain rs p2 where run: "run_policy (replicate 9 (calm, idle)) p1 = Inr (rs, p2)"
    using run_policy_ok [OF r(2), of "replicate 9 (calm, idle)"] by auto
  have "ap_recommended_max_inflight p2 = 6"
    using recovery_is_slow [OF default_policy_ok r(1) _ _ run refl] r4 c calm_healthy hot_critical
    by (simp add: overload_def)
  then show ?thesis using r(1) run r4 by blast
qed

text \<open>
  C20: recovery is complete. From any state of the policy, once the samples are healthy for
  \<open>cooldown_samples\<close> samples and another \<open>cooldown_samples\<close> for each step missing, the
  recommendation is \<open>max_inflight\<close> again.
\<close>

theorem recovery_completes:
  assumes "policy_ok p" "bounded_cap p" "samples_ok xs"
    and "list_all (\<lambda>(m, s). healthy (ap_config p) m) xs"
    and "cfg_cooldown_samples (ap_config p) *
      (1 + (cfg_max_inflight (ap_config p) - ap_recommended_max_inflight p)) \<le> int (length xs)"
  shows "\<exists>rs p'. run_policy xs p = Inr (rs, p') \<and>
    ap_recommended_max_inflight p' = cfg_max_inflight (ap_config p)"
proof -
  define C d where "C = cfg_cooldown_samples (ap_config p)"
    and "d = cfg_max_inflight (ap_config p) - ap_recommended_max_inflight p"
  have ok: "0 < C" "0 \<le> ap_consecutive_recovery_samples p" "ap_cooldown_remaining p \<le> C"
    using assms(1) by (simp_all add: C_def policy_ok_def Let_def)
  have "C + C * d \<le> int (length xs)" using assms(5) by (simp add: C_def d_def algebra_simps)
  then have "C * d \<le> ap_consecutive_recovery_samples p + max 0 (int (length xs) - ap_cooldown_remaining p)"
    using ok by linarith
  then have "C * d div C \<le> (ap_consecutive_recovery_samples p +
      max 0 (int (length xs) - ap_cooldown_remaining p)) div C" using ok(1) by (rule zdiv_mono1)
  then have "speed_limit (length xs) p = cfg_max_inflight (ap_config p)"
    using ok(1) by (simp add: speed_limit_def C_def [symmetric] d_def)
  with run_policy_ok [OF assms(1-3)] run_healthy [OF assms(1-4)] show ?thesis by auto
qed

theorem recovery_completes_witness:
  "\<exists>rs p'. run_policy (replicate 15 (calm, idle)) (default_policy\<lparr>ap_recommended_max_inflight := 4\<rparr>)
      = Inr (rs, p') \<and> ap_recommended_max_inflight p' = 8"
proof -
  let ?p = "default_policy\<lparr>ap_recommended_max_inflight := 4\<rparr>"
  have c: "ap_config ?p = default_config" by (simp add: default_sel)
  have "policy_ok ?p" "bounded_cap ?p" using default_policy_ok
    by (simp_all add: policy_ok_def bounded_cap_def default_policy_def default_sel Let_def)
  from recovery_completes [OF this, of "replicate 15 (calm, idle)"] show ?thesis
    using calm_healthy by (simp add: c default_sel)
qed

text \<open>
  C25: back-off. A run of \<open>n\<close> critically overloaded samples divides the recommendation by
  \<open>2 ^ n\<close>, down to \<open>min_inflight\<close>, and rejects every request.
\<close>

theorem critical_backoff:
  assumes "policy_ok p" "bounded_cap p" "samples_ok xs"
    and "list_all (\<lambda>(m, s). is_critical_overload (ap_config p) m) xs"
  shows "\<exists>rs p'. run_policy xs p = Inr (rs, p') \<and> ap_recommended_max_inflight p' =
      max (cfg_min_inflight (ap_config p)) (ap_recommended_max_inflight p div 2 ^ length xs) \<and>
    map ar_decision rs = replicate (length xs) Reject"
proof -
  have "map ar_decision rs = replicate (length xs) Reject"
    if "run_policy xs p = Inr (rs, p')" for rs p'
    using assms that
  proof (induction xs arbitrary: p rs)
    case (Cons x xs)
    obtain m s where x: "x = (m, s)" by fastforce
    obtain r p1 rs1 where p1: "rs = r # rs1" "evaluate m s p = Inr (r, p1)" "policy_ok p1"
      "bounded_cap p1" "ap_config p1 = ap_config p" "samples_ok xs" "run_policy xs p1 = Inr (rs1, p')"
      using run_policy_Cons [OF Cons.prems(1,2)] Cons.prems(3,5) x by metis
    have "ar_decision r = Reject" using p1(2) Cons.prems(4)
      by (auto simp: x evaluate_def Let_def split: if_splits sum.splits)
    then show ?case using Cons.IH [OF p1(3,4,6) _ p1(7)] Cons.prems(4) p1(1,5) by simp
  qed simp
  then show ?thesis using run_policy_ok [OF assms(1-3)] run_critical [OF assms] by blast
qed

theorem critical_backoff_witness:
  "\<exists>rs p'. run_policy (replicate 2 (hot, idle)) default_policy = Inr (rs, p') \<and>
    ap_recommended_max_inflight p' = 2 \<and> map ar_decision rs = [Reject, Reject]"
  using critical_backoff [OF default_policy_ok, of "replicate 2 (hot, idle)"] hot_critical(1)
    samples_ok_replicate [of 2 hot]
  by (simp add: default_sel numeral_2_eq_2)

text \<open>
  C27: the decision of a sample. \<open>Reject\<close> exactly when the sample is critical or the queue is full,
  \<open>Admit\<close> exactly when it is not overloaded, the queue has room and the requests in flight are
  below the recommendation that this sample produced; so an admitted request never exceeds the
  recommendation, and never the configured cap. The flags tell the overload.
\<close>

theorem decision_spec:
  assumes "policy_ok p" "bounded_cap p" "nonneg_state s"
  shows "\<exists>r p'. evaluate m s p = Inr (r, p') \<and>
    (ar_decision r = Reject \<longleftrightarrow> is_critical_overload (ap_config p) m \<or>
       cfg_max_queue_size (ap_config p) \<le> rs_current_queue_size s) \<and>
    (ar_decision r = Admit \<longleftrightarrow> \<not> overload (ap_config p) m \<and>
       rs_current_queue_size s < cfg_max_queue_size (ap_config p) \<and>
       rs_current_inflight s < ap_recommended_max_inflight p') \<and>
    (ar_decision r = Admit \<longrightarrow> rs_current_inflight s + 1 \<le> cfg_max_inflight (ap_config p)) \<and>
    ar_recommended_max_inflight r = ap_recommended_max_inflight p' \<and>
    (ar_overloaded r \<longleftrightarrow> overload (ap_config p) m) \<and>
    (ar_critical r \<longleftrightarrow> is_critical_overload (ap_config p) m)"
proof -
  obtain r p' where e: "evaluate m s p = Inr (r, p')" "policy_ok p'" "ap_config p' = ap_config p"
    using evaluate_eq [OF assms, of m] by blast
  have "ap_recommended_max_inflight p' \<le> cfg_max_inflight (ap_config p)"
    using e(2,3) by (simp add: policy_ok_def Let_def)
  with e show ?thesis
    by (auto simp: evaluate_def Let_def overload_def split: if_splits sum.splits)
qed

theorem decision_spec_witness:
  "\<exists>r p'. evaluate calm idle default_policy = Inr (r, p') \<and> ar_decision r = Admit \<and>
    \<not> ar_overloaded r"
proof -
  have idle: "nonneg_state idle" by (simp add: idle_def)
  have h: "\<not> overload default_config calm" using calm_healthy by (simp add: healthy_def overload_def)
  obtain r p' where e: "evaluate calm idle default_policy = Inr (r, p')" "policy_ok p'"
    "ap_config p' = default_config"
    using evaluate_eq [OF default_policy_ok idle, of calm] default_sel by auto
  then have "0 < ap_recommended_max_inflight p'" by (simp add: policy_ok_def Let_def default_sel)
  with e decision_spec [OF default_policy_ok idle, of calm] h default_sel show ?thesis
    by (auto simp: idle_def)
qed

text \<open>
  With finite thresholds a recovery sample is never softly overloaded, in spite of the rounding
  of the products: the branches of \<open>update_recommendation\<close> cannot conflict there. (A recovery
  sample can be critical when a cache ratio limit is above 0.98; the order of the branches decides.)
\<close>

lemma recovery_excludes_soft:
  assumes "validate_config c = Inr ()" "ints_ok c" "int_ok (ms_waiting_requests m)"
    and "cfg_target_p95_ttft_ms c = Fin t" "cfg_max_kv_cache_usage_ratio c = Fin k"
    "cfg_max_gpu_memory_usage_ratio c = Fin g" "cfg_recovery_ratio c = Fin q"
    and "is_double t" "is_double k" "is_double g"
    and "is_recovery_sample c m"
  shows "\<not> is_soft_overload c m"
proof -
  have q: "0 < q" "q < 1" and pos: "0 < t" "0 \<le> k" "0 \<le> g" "0 \<le> cfg_max_waiting_requests c"
    using assms(1,4-7) by (auto simp: validate_config_def validate_ratio_def split: if_splits sum.splits)
  have below: "\<not> f_ge v (Fin x)" if "f_lt v (f_mul (Fin x) (Fin q))" "is_double x" "0 \<le> x" for v x
  proof -
    have "0 \<le> x * q" "x * q \<le> x" using that(3) q by (simp_all add: mult_left_le)
    moreover from this have "rnd (x * q) \<le> x" using that(2) by (intro rnd_le) (auto simp: is_double_def)
    moreover have "\<bar>x * q\<bar> \<le> max_f64" using calculation that(2,3) by (simp add: is_double_def)
    ultimately show ?thesis using that(1) by (cases v) (auto simp: to_f64_Fin f_ge_def f_le_def)
  qed
  have int: "f_of_int n = Fin (of_int n)" "is_double (of_int n)" if "int_ok n" for n
  proof -
    have n: "\<bar>n\<bar> \<le> 2 ^ 53" using that by (auto simp: int_ok_def int_max_def)
    have "\<bar>rat_of_int n\<bar> \<le> 2 ^ 53" using n by (metis of_int_abs of_int_le_iff of_int_numeral of_int_power)
    also have "(2::rat) ^ 53 \<le> 2 ^ 1000" by (rule power_increasing) auto
    finally show "is_double (of_int n)" using max_f64_big n by (simp add: is_double_def)
    show "f_of_int n = Fin (of_int n)" using n by (simp add: f_of_int_def to_f64_of_int)
  qed
  have w: "int_ok (cfg_max_waiting_requests c)" using assms(2) by (simp add: ints_ok_def)
  have "\<not> f_ge (f_of_int (ms_waiting_requests m)) (Fin (of_int (cfg_max_waiting_requests c)))"
    using assms(11,7) int [OF w] pos(4) by (intro below) (auto simp: is_recovery_sample_def)
  then have "\<not> cfg_max_waiting_requests c \<le> ms_waiting_requests m"
    using int(1) [OF assms(3)] by simp
  then show ?thesis
    using assms(4-11) pos below unfolding is_recovery_sample_def is_soft_overload_def by auto
qed

lemma is_double_double: "\<bar>q\<bar> \<le> 1 \<Longrightarrow> is_double (rnd q)"
proof -
  assume "\<bar>q\<bar> \<le> 1"
  moreover have "(1::rat) \<le> 2 ^ 1000" by simp
  ultimately have "\<bar>q\<bar> \<le> max_f64" using max_f64_big by linarith
  then show ?thesis using rnd_abs_le_max by (simp add: is_double_def)
qed

lemma recovery_excludes_soft_witness:
  "is_recovery_sample default_config calm \<and> \<not> is_soft_overload default_config calm"
proof -
  have "rnd 800 = 800" by (simp add: f64_simps)
  moreover have "(800::rat) \<le> 2 ^ 1000" by (rule order_trans [of _ "2 ^ 10"]) (simp, rule power_increasing, auto)
  ultimately have "is_double 800" using max_f64_big unfolding is_double_def by linarith
  then show ?thesis
    using recovery_excludes_soft [OF default_validated default_ints_ok(1), of calm 800
        "rnd (17 / 20)" "rnd (9 / 10)" "3 / 4"] calm_healthy
    by (simp add: healthy_def is_double_double default_config_def calm_def int_ok_def int_max_def to_f64_le53)
qed

text \<open>
  The limits the constructor accepts although they make the policy useless. With
  \<open>max_queue_size = 0\<close> every request is rejected, even on an idle server; with
  \<open>max_waiting_requests = 0\<close> every sample counts as overloaded, no request is ever admitted and
  the recommendation only falls.
\<close>

lemma zero_limits:
  assumes "policy_ok p" "bounded_cap p" "nonneg_state s" "evaluate m s p = Inr (r, p')"
  shows "(cfg_max_queue_size (ap_config p) = 0 \<longrightarrow> ar_decision r = Reject) \<and>
    (cfg_max_waiting_requests (ap_config p) = 0 \<and> 0 \<le> ms_waiting_requests m \<longrightarrow>
      ar_overloaded r \<and> ar_decision r \<noteq> Admit \<and>
      ar_recommended_max_inflight r \<le> ap_recommended_max_inflight p)"
proof -
  have "ar_recommended_max_inflight r \<le> ap_recommended_max_inflight p"
    if "is_soft_overload (ap_config p) m"
    using evaluate_eq [OF assms(1-3), of m] assms(1,4) that
    by (cases "is_critical_overload (ap_config p) m")
      (auto simp: branch_simps policy_ok_def Let_def)
  moreover have "is_soft_overload (ap_config p) m"
    if "cfg_max_waiting_requests (ap_config p) = 0" "0 \<le> ms_waiting_requests m"
    using that by (simp add: is_soft_overload_def)
  ultimately show ?thesis using assms(3,4)
    by (auto simp: evaluate_def Let_def split: if_splits sum.splits)
qed

lemma zero_limits_witness:
  "\<exists>p r p'. new_policy (default_config\<lparr>cfg_max_queue_size := 0\<rparr>) = Inr p \<and>
    evaluate calm idle p = Inr (r, p') \<and> ar_decision r = Reject"
proof -
  let ?c = "default_config\<lparr>cfg_max_queue_size := 0\<rparr>"
  have "validate_config ?c = Inr ()"
    using default_validated by (auto simp: validate_config_def split: if_splits sum.splits)
  then obtain p where p: "new_policy ?c = Inr p" by (simp add: new_policy_def)
  have "ints_ok ?c" using default_ints_ok(1) by (simp add: ints_ok_def int_ok_def int_max_def)
  then have ok: "policy_ok p" "ap_config p = ?c" using new_policy_ok [OF p] by simp_all
  then have b: "bounded_cap p" by (simp add: bounded_cap_def default_sel int_max_def)
  have idle: "nonneg_state idle" by (simp add: idle_def)
  obtain r p' where e: "evaluate calm idle p = Inr (r, p')" using evaluate_eq [OF ok(1) b idle] by blast
  show ?thesis using zero_limits [OF ok(1) b idle e] p e ok(2) by auto
qed

text \<open>
  A NaN threshold passes the constructor's checks (each is a comparison that a NaN makes
  false), and no sample of such a policy is a recovery sample: once lowered, the recommendation
  never rises again. A NaN latency target also switches off the latency trigger.
\<close>

lemma nan_limit_accepted:
  assumes "validate_config c = Inr ()"
    and "c' \<in> {c\<lparr>cfg_target_p95_ttft_ms := NaN\<rparr>, c\<lparr>cfg_max_kv_cache_usage_ratio := NaN\<rparr>,
      c\<lparr>cfg_max_gpu_memory_usage_ratio := NaN\<rparr>, c\<lparr>cfg_recovery_ratio := NaN\<rparr>}"
  shows "validate_config c' = Inr () \<and> \<not> is_recovery_sample c' m \<and>
    is_soft_overload (c\<lparr>cfg_target_p95_ttft_ms := NaN\<rparr>) m =
      is_soft_overload (c\<lparr>cfg_target_p95_ttft_ms := NaN\<rparr>) (m\<lparr>ms_p95_ttft_ms := v\<rparr>) \<and>
    (policy_ok p \<and> ap_config p = c' \<and> evaluate m s p = Inr (r, p') \<longrightarrow>
      ar_recommended_max_inflight r \<le> ap_recommended_max_inflight p)"
proof -
  have nan: "\<not> f_lt x NaN" "\<not> f_lt NaN x" "\<not> f_le NaN x" "\<not> f_le x NaN" "\<not> f_ge x NaN" "\<not> f_ge NaN x"
    "f_mul NaN x = NaN" "f_mul x NaN = NaN" for x
    by (cases x; simp add: f_le_def f_ge_def)+
  have rec: "\<not> is_recovery_sample c' m"
    using assms(2) by (auto simp: is_recovery_sample_def nan)
  moreover have "validate_config c' = Inr ()"
    using assms by (auto simp: validate_config_def validate_ratio_def nan split: if_splits sum.splits)
  moreover have "ar_recommended_max_inflight r \<le> ap_recommended_max_inflight p"
    if p: "policy_ok p" "ap_config p = c'" "evaluate m s p = Inr (r, p')"
  proof -
    obtain soft critical where "update_recommendation soft critical False p = Inr p'"
      and r: "ar_recommended_max_inflight r = ap_recommended_max_inflight p'"
      using p rec by (auto simp: evaluate_def Let_def split: if_splits sum.splits)
    then show ?thesis using p(1)
      by (cases critical; cases soft; cases "0 < ap_cooldown_remaining p")
        (auto simp: branch_simps policy_ok_def Let_def)
  qed
  ultimately show ?thesis by (auto simp: is_soft_overload_def nan)
qed

lemma nan_limit_accepted_witness:
  "validate_config (default_config\<lparr>cfg_recovery_ratio := NaN\<rparr>) = Inr () \<and>
    \<not> is_recovery_sample (default_config\<lparr>cfg_recovery_ratio := NaN\<rparr>) calm"
  using nan_limit_accepted [OF default_validated, of "default_config\<lparr>cfg_recovery_ratio := NaN\<rparr>" calm]
  by blast

lemma run_int_max:
  assumes "policy_ok p" "ap_recommended_max_inflight p = int_max" "ap_cooldown_remaining p = 0"
    and "samples_ok xs" "list_all (\<lambda>(m, s). healthy (ap_config p) m) xs"
    and "cfg_cooldown_samples (ap_config p) - ap_consecutive_recovery_samples p \<le> int (length xs)"
  shows "run_policy xs p = Inl (Undefined ''signed integer overflow'')"
  using assms
proof (induction xs arbitrary: p)
  case (Cons x xs)
  obtain m s where x: "x = (m, s)" by fastforce
  have h: "healthy (ap_config p) m" "nonneg_state s" "samples_ok xs"
    using Cons.prems(4,5) by (simp_all add: x samples_ok_def)
  let ?k = "ap_consecutive_recovery_samples p" and ?C = "cfg_cooldown_samples (ap_config p)"
  have k: "int_ok (?k + 1)" "\<not> int_ok (int_max + 1)"
    using Cons.prems(1) by (auto simp: policy_ok_def ints_ok_def int_ok_def int_max_def Let_def)
  show ?case
  proof (cases "?C \<le> ?k + 1")
    case True
    then show ?thesis using h k Cons.prems(2,3)
      by (simp add: x evaluate_def healthy_def update_recommendation_def Let_def checked_int_def)
  next
    case False
    define p1 where "p1 = p\<lparr>ap_consecutive_recovery_samples := ?k + 1\<rparr>"
    have "update_recommendation False False True p = Inr p1"
      using False k Cons.prems(3) by (simp add: update_recommendation_def Let_def p1_def)
    then obtain r where e: "evaluate m s p = Inr (r, p1)"
      using h by (simp add: evaluate_def healthy_def Let_def)
    have "run_policy xs p1 = Inl (Undefined ''signed integer overflow'')"
      using Cons.prems False h by (intro Cons.IH) (auto simp: p1_def policy_ok_def Let_def x)
    then show ?thesis by (simp add: x e)
  qed
qed (simp add: policy_ok_def Let_def)

text \<open>
  The bound on the cap is needed. A policy whose \<open>max_inflight\<close> is the largest \<open>int\<close> passes
  the constructor's checks, and \<open>cooldown_samples\<close> healthy samples bring it to the signed overflow
  of \<open>recommended_max_inflight_ + 1\<close>, which the code computes before it takes the minimum.
\<close>

lemma largest_cap_overflows:
  assumes "new_policy c = Inr p" "ints_ok c" "cfg_max_inflight c = int_max"
    and "samples_ok xs" "list_all (\<lambda>(m, s). healthy c m) xs"
    and "cfg_cooldown_samples c \<le> int (length xs)"
  shows "run_policy xs p = Inl (Undefined ''signed integer overflow'')"
proof -
  have "policy_ok p" "ap_config p = c" "ap_recommended_max_inflight p = int_max"
    using new_policy_ok [OF assms(1,2)] assms(3) by simp_all
  moreover have "ap_cooldown_remaining p = 0" "ap_consecutive_recovery_samples p = 0"
    using assms(1) by (auto simp: new_policy_def split: sum.splits)
  ultimately show ?thesis using assms(4-6) by (intro run_int_max) auto
qed

lemma largest_cap_overflows_witness:
  "\<exists>p. new_policy (default_config\<lparr>cfg_max_inflight := int_max\<rparr>) = Inr p \<and>
    run_policy (replicate 3 (calm, idle)) p = Inl (Undefined ''signed integer overflow'')"
proof -
  let ?c = "default_config\<lparr>cfg_max_inflight := int_max\<rparr>"
  have "validate_config ?c = Inr ()" using default_validated
    by (auto simp: validate_config_def default_sel int_max_def split: if_splits sum.splits)
  then obtain p where p: "new_policy ?c = Inr p" by (simp add: new_policy_def)
  have "ints_ok ?c" using default_ints_ok(1) by (simp add: ints_ok_def int_ok_def int_max_def)
  moreover have "healthy ?c calm" using calm_healthy
    by (simp add: healthy_def is_soft_overload_def is_critical_overload_def is_recovery_sample_def)
  ultimately show ?thesis using largest_cap_overflows [OF p] p by (simp add: default_sel)
qed

end
