(* ===== verification/SseParser.thy ===== *)
theory SseParser
  imports Prelude "HOL-Library.Sublist"
begin

text \<open>
  \<^verbatim>\<open>controller/src/sse_parser.cpp\<close>: the incremental parser of Server-Sent Events. A byte is a
  \<open>char\<close>, a \<open>std::string\<close> or \<open>string_view\<close> a list of them; sizes are 64-bit words and the guards
  compute on them as the code does. \<open>feed\<close> mutates the parser before it may throw, so its model
  returns the state together with the exception or the events.

  The lemmas show that the guards mean what they say on natural numbers, that the parser's memory
  stays bounded, that the events do not depend on how the input is cut into chunks, that they are
  those of a declarative specification of the format, and that a stream written the way the mock
  server writes it is read back.
\<close>

subsection \<open>The class\<close>

record sse_event =
  ev_data :: string
  ev_is_done :: bool

record sse_parser =
  max_buffer_size :: size_t
  buffer :: string
  current_data :: string
  has_data :: bool

abbreviation newline :: char where
  "newline \<equiv> CHR 0x0A"

abbreviation carriage_return :: char where
  "carriage_return \<equiv> CHR 0x0D"

definition new_parser :: "size_t \<Rightarrow> sse_parser result" where
  "new_parser m = (if m = 0
     then Inl (Invalid_Argument ''SseParser max_buffer_size must be greater than zero'')
     else Inr \<lparr>max_buffer_size = m, buffer = [], current_data = [], has_data = False\<rparr>)"

definition strip_single_leading_space :: "string \<Rightarrow> string" where
  "strip_single_leading_space v = (if v \<noteq> [] \<and> hd v = CHR '' '' then tl v else v)"

definition enforce_limit :: "size_t \<Rightarrow> sse_parser \<Rightarrow> unit result" where
  "enforce_limit extra_bytes p =
     (if max_buffer_size p < extra_bytes \<or> max_buffer_size p - extra_bytes < size_of (buffer p)
      then Inl (Length_Error ''SseParser buffer size limit exceeded'') else Inr ())"

definition append_data_line :: "string \<Rightarrow> sse_parser \<Rightarrow> sse_parser result" where
  "append_data_line v p =
     (let separator_bytes = (if has_data p then 1 else 0) in
      if max_buffer_size p < size_of v \<or>
         max_buffer_size p - size_of v < size_of (current_data p) \<or>
         max_buffer_size p - separator_bytes < size_of (current_data p) + size_of v
      then Inl (Length_Error ''SseParser event data size limit exceeded'')
      else let d = (if has_data p then current_data p @ [newline] else current_data p)
        in Inr (p\<lparr>current_data := d @ v, has_data := True\<rparr>))"

definition make_event :: "sse_parser \<Rightarrow> sse_event" where
  "make_event p = \<lparr>ev_data = current_data p, ev_is_done = (current_data p = ''[DONE]'')\<rparr>"

definition clear_current_event :: "sse_parser \<Rightarrow> sse_parser" where
  "clear_current_event p = p\<lparr>current_data := [], has_data := False\<rparr>"

definition reset :: "sse_parser \<Rightarrow> sse_parser" where
  "reset p = clear_current_event (p\<lparr>buffer := []\<rparr>)"

definition pending_bytes :: "sse_parser \<Rightarrow> size_t" where
  "pending_bytes p = size_of (buffer p)"

text \<open>
  The loop of \<open>feed\<close>. The part of the buffer from \<open>line_start\<close> on is the list \<open>rest\<close>;
  \<open>take_line\<close> is the search for the next newline and \<open>strip_cr\<close> the removal of a carriage return
  before it.
\<close>

fun take_line :: "string \<Rightarrow> (string \<times> string) option" where
  "take_line [] = None"
| "take_line (c # cs) = (if c = newline then Some ([], cs)
     else case take_line cs of None \<Rightarrow> None | Some (l, r) \<Rightarrow> Some (c # l, r))"

definition strip_cr :: "string \<Rightarrow> string" where
  "strip_cr l = (if l \<noteq> [] \<and> last l = carriage_return then butlast l else l)"

definition data_prefix :: string where
  "data_prefix = ''data:''"

definition process_line :: "string \<Rightarrow> sse_parser \<Rightarrow> (sse_parser \<times> sse_event list) result" where
  "process_line l p =
     (if l = [] then
        (if has_data p then Inr (clear_current_event p, [make_event p]) else Inr (p, []))
      else if hd l = CHR '':'' then Inr (p, [])
      else if length data_prefix \<le> length l \<and> take (length data_prefix) l = data_prefix then
        (case append_data_line (strip_single_leading_space (drop (length data_prefix) l)) p of
           Inl e \<Rightarrow> Inl e
         | Inr p' \<Rightarrow> Inr (p', []))
      else Inr (p, []))"

lemma take_line_length: "take_line cs = Some (l, r) \<Longrightarrow> length r < length cs"
  by (induction cs arbitrary: l) (auto split: if_splits option.splits)

function consume_lines ::
    "sse_parser \<Rightarrow> string \<Rightarrow> sse_parser \<times> (sse_event list \<times> string) result" where
  "consume_lines p rest = (case take_line rest of
     None \<Rightarrow> (p, Inr ([], rest))
   | Some (line, rest') \<Rightarrow>
     (case process_line (strip_cr line) p of
        Inl e \<Rightarrow> (p, Inl e)
      | Inr (p1, evs) \<Rightarrow>
        (case consume_lines p1 rest' of
           (p2, Inl e) \<Rightarrow> (p2, Inl e)
         | (p2, Inr (evs', r)) \<Rightarrow> (p2, Inr (evs @ evs', r)))))"
  by pat_completeness auto
termination
  by (relation "measure (length \<circ> snd)") (auto dest: take_line_length)

declare consume_lines.simps [simp del]

definition feed :: "string \<Rightarrow> sse_parser \<Rightarrow> sse_parser \<times> sse_event list result" where
  "feed chunk p = (case enforce_limit (size_of chunk) p of
     Inl e \<Rightarrow> (p, Inl e)
   | Inr _ \<Rightarrow>
     let p0 = p\<lparr>buffer := buffer p @ chunk\<rparr> in
     (case consume_lines p0 (buffer p0) of
        (p1, Inl e) \<Rightarrow> (p1, Inl e)
      | (p1, Inr (events, r)) \<Rightarrow> (p1\<lparr>buffer := r\<rparr>, Inr events)))"

text \<open>A sequence of \<open>feed\<close> calls, up to the first that throws.\<close>

fun feed_all :: "string list \<Rightarrow> sse_parser \<Rightarrow> sse_parser \<times> sse_event list result" where
  "feed_all [] p = (p, Inr [])"
| "feed_all (c # cs) p = (case feed c p of
     (p1, Inl e) \<Rightarrow> (p1, Inl e)
   | (p1, Inr evs) \<Rightarrow>
     (case feed_all cs p1 of
        (p2, Inl e) \<Rightarrow> (p2, Inl e)
      | (p2, Inr evs') \<Rightarrow> (p2, Inr (evs @ evs'))))"

subsection \<open>The guards and the invariant\<close>

text \<open>
  \<open>parser_ok\<close> holds in every state the parser can be in, \<open>parser_idle\<close> after a \<open>feed\<close> that did
  not throw: the buffer then holds an incomplete line.
\<close>

definition parser_ok :: "sse_parser \<Rightarrow> bool" where
  "parser_ok p \<longleftrightarrow> max_buffer_size p \<noteq> 0 \<and> length (buffer p) \<le> unat (max_buffer_size p) \<and>
     length (current_data p) \<le> unat (max_buffer_size p) \<and> (\<not> has_data p \<longrightarrow> current_data p = [])"

definition parser_idle :: "sse_parser \<Rightarrow> bool" where
  "parser_idle p \<longleftrightarrow> parser_ok p \<and> newline \<notin> set (buffer p)"

lemma new_parser_ok: "new_parser m = Inr p \<Longrightarrow> parser_idle p"
  by (auto simp: new_parser_def parser_idle_def parser_ok_def split: if_splits)

lemma size_guard:
  fixes m a b :: size_t
  shows "m < a \<or> m - a < b \<longleftrightarrow> \<not> unat a + unat b \<le> unat m"
proof (cases "a \<le> m")
  case True
  then have "unat (m - a) = unat m - unat a" "unat a \<le> unat m"
    by (simp_all add: unat_sub word_le_nat_alt)
  then show ?thesis by (auto simp: word_less_nat_alt)
qed (auto simp: word_less_nat_alt word_le_nat_alt)

lemma enforce_limit_iff:
  assumes "parser_ok p" "fits c"
  shows "enforce_limit (size_of c) p = Inr () \<longleftrightarrow>
    length (buffer p) + length c \<le> unat (max_buffer_size p)"
proof -
  have "unat (size_of (buffer p)) = length (buffer p)" "unat (size_of c) = length c"
    using assms by (auto simp: parser_ok_def intro: unat_size_of unat_size_of_le)
  then show ?thesis by (simp add: enforce_limit_def size_guard add.commute)
qed

lemma enforce_limit_error: "enforce_limit n p = Inl e \<Longrightarrow>
    e = Length_Error ''SseParser buffer size limit exceeded''"
  by (auto simp: enforce_limit_def split: if_splits)

definition data_room :: "sse_parser \<Rightarrow> string \<Rightarrow> bool" where
  "data_room p v \<longleftrightarrow> length (current_data p) + length v + (if has_data p then 1 else 0)
     \<le> unat (max_buffer_size p)"

lemma append_data_line_eq:
  assumes "parser_ok p" "fits v"
  shows "append_data_line v p = (if data_room p v
    then Inr (p\<lparr>current_data := (if has_data p then current_data p @ [newline] else current_data p) @ v,
              has_data := True\<rparr>)
    else Inl (Length_Error ''SseParser event data size limit exceeded''))"
proof -
  let ?m = "max_buffer_size p" and ?d = "size_of (current_data p)" and ?v = "size_of v"
  define s :: size_t where "s = (if has_data p then 1 else 0)"
  have u: "unat ?d = length (current_data p)" "unat ?v = length v"
    using assms by (auto simp: parser_ok_def intro: unat_size_of unat_size_of_le)
  have s: "unat s = (if has_data p then 1 else 0)" "s \<le> ?m"
    using assms(1) by (auto simp: s_def parser_ok_def word_le_nat_alt unat_gt_0 Suc_le_eq)
  have "unat (?d + ?v) = unat ?d + unat ?v" if "unat ?v + unat ?d \<le> unat ?m"
    using that by (intro unat_add_le [of _ _ ?m]) simp
  moreover have "?m - s < ?d + ?v \<longleftrightarrow> \<not> unat s + unat (?d + ?v) \<le> unat ?m"
    using size_guard [of ?m s "?d + ?v"] s(2) by (simp add: linorder_not_less [symmetric])
  ultimately have "(?m < ?v \<or> ?m - ?v < ?d) \<or> ?m - s < ?d + ?v \<longleftrightarrow> \<not> data_room p v"
    using s(1) u unfolding size_guard data_room_def by auto
  then show ?thesis by (auto simp: append_data_line_def Let_def s_def)
qed

text \<open>
  What a line contributes: \<open>line_data\<close> is the value of a data line, \<open>None\<close> for a comment and for
  any other field.
\<close>

definition line_data :: "string \<Rightarrow> string option" where
  "line_data l = (if l = [] \<or> hd l = CHR '':'' \<or> take (length data_prefix) l \<noteq> data_prefix then None
     else Some (strip_single_leading_space (drop (length data_prefix) l)))"

lemma process_line_eq:
  "process_line l p = (if l = [] then
      Inr (if has_data p then (clear_current_event p, [make_event p]) else (p, []))
    else case line_data l of None \<Rightarrow> Inr (p, [])
      | Some v \<Rightarrow> (case append_data_line v p of Inl e \<Rightarrow> Inl e | Inr p' \<Rightarrow> Inr (p', [])))"
proof -
  have "length data_prefix \<le> length l" if "take (length data_prefix) l = data_prefix"
    using arg_cong [OF that, of length] by simp
  then show ?thesis by (auto simp: process_line_def line_data_def)
qed

lemma line_data_length: "line_data l = Some v \<Longrightarrow> length v \<le> length l"
  by (auto simp: line_data_def strip_single_leading_space_def split: if_splits)

lemma take_line_SomeD: "take_line cs = Some (l, r) \<Longrightarrow> cs = l @ newline # r \<and> newline \<notin> set l"
proof (induction cs arbitrary: l)
  case (Cons c cs)
  then show ?case by (cases "c = newline"; cases "take_line cs") auto
qed simp

lemma take_line_line: "newline \<notin> set l \<Longrightarrow> take_line (l @ newline # r) = Some (l, r)"
  by (induction l) auto

lemma take_line_None: "take_line cs = None \<longleftrightarrow> newline \<notin> set cs"
  by (induction cs) (auto split: option.splits)

lemma process_line_ok:
  assumes "process_line l p = Inr (p', evs)" "parser_ok p" "fits l"
  shows "parser_ok p' \<and> buffer p' = buffer p \<and> max_buffer_size p' = max_buffer_size p"
proof (cases "line_data l")
  case None
  with assms(1,2) show ?thesis
    by (auto simp: process_line_eq clear_current_event_def parser_ok_def split: if_splits)
next
  case (Some v)
  then have "fits v" using line_data_length [OF Some] assms(3) by (simp add: fits_def)
  from append_data_line_eq [OF assms(2) this] assms(1,2) Some show ?thesis
    by (auto simp: process_line_eq clear_current_event_def parser_ok_def data_room_def
        split: if_splits sum.splits)
qed

lemma process_line_error: "process_line l p = Inl e \<Longrightarrow>
    e = Length_Error ''SseParser event data size limit exceeded''"
  by (auto simp: process_line_eq append_data_line_def Let_def
      split: if_splits sum.splits option.splits)

lemma fits_strip_cr: "fits l \<Longrightarrow> fits (strip_cr l)"
  by (auto simp: strip_cr_def fits_def)

lemma consume_stop: "newline \<notin> set rest \<Longrightarrow> consume_lines p rest = (p, Inr ([], rest))"
  by (simp add: consume_lines.simps [of p rest] take_line_None [symmetric])

lemma consume_step:
  assumes "newline \<notin> set l"
  shows "consume_lines p (l @ newline # r) = (case process_line (strip_cr l) p of
      Inl e \<Rightarrow> (p, Inl e)
    | Inr (p1, evs) \<Rightarrow> (case consume_lines p1 r of
        (p2, Inl e) \<Rightarrow> (p2, Inl e)
      | (p2, Inr (evs', r')) \<Rightarrow> (p2, Inr (evs @ evs', r'))))"
proof -
  have "take_line (l @ newline # r) = Some (l, r)" using assms by (rule take_line_line)
  then show ?thesis by (simp add: consume_lines.simps [of p "l @ newline # r"])
qed

text \<open>Induction over the complete lines of a text.\<close>

lemma lines_induct [case_names stop line]:
  assumes "\<And>t. newline \<notin> set t \<Longrightarrow> P t"
    and "\<And>l r. newline \<notin> set l \<Longrightarrow> P r \<Longrightarrow> P (l @ newline # r)"
  shows "P t"
proof (induction t rule: length_induct)
  case (1 t)
  show ?case
  proof (cases "take_line t")
    case (Some lr)
    then obtain l r where "t = l @ newline # r" "newline \<notin> set l"
      by (cases lr) (auto dest: take_line_SomeD)
    with 1 assms(2) show ?thesis by simp
  qed (simp add: take_line_None assms(1))
qed

lemma consume_lines_ok:
  assumes "consume_lines p rest = (p', x)" "parser_ok p" "fits rest"
  shows "parser_ok p' \<and> buffer p' = buffer p \<and> max_buffer_size p' = max_buffer_size p \<and>
    (case x of Inl e \<Rightarrow> e = Length_Error ''SseParser event data size limit exceeded''
     | Inr (evs, r) \<Rightarrow> newline \<notin> set r \<and> suffix r rest)"
  using assms
proof (induction rest arbitrary: p p' x rule: lines_induct)
  case (stop t)
  then show ?case by (auto simp: consume_stop)
next
  case (line l r)
  then have fl: "fits (strip_cr l)" and fr: "fits r"
    by (auto intro!: fits_strip_cr) (auto simp: fits_def)
  show ?case
  proof (cases "process_line (strip_cr l) p")
    case (Inl e)
    with line.prems line.hyps process_line_error [OF Inl] show ?thesis by (auto simp: consume_step)
  next
    case (Inr y)
    then obtain p1 evs where p1: "process_line (strip_cr l) p = Inr (p1, evs)" by (cases y) simp
    obtain p2 x2 where c: "consume_lines p1 r = (p2, x2)" by fastforce
    note ok1 = process_line_ok [OF p1 line.prems(2) fl]
    have x: "p' = p2" "x = (case x2 of Inl e \<Rightarrow> Inl e | Inr (evs', r') \<Rightarrow> Inr (evs @ evs', r'))"
      using line.prems(1) by (auto simp: consume_step [OF line.hyps(1)] p1 c split: sum.splits)
    show ?thesis using line.IH [OF c _ fr] ok1
      by (auto simp: x split: sum.splits intro: suffix_ConsI suffix_appendI)
  qed
qed

lemma fits_buffer: "parser_ok p \<Longrightarrow> fits (buffer p)"
  by (auto simp: parser_ok_def intro: fits_le)

lemma feed_error_cases:
  assumes "feed c p = (p', Inl e)" "parser_ok p" "fits c"
  shows "parser_ok p' \<and> max_buffer_size p' = max_buffer_size p"
proof (cases "enforce_limit (size_of c) p")
  case (Inr u)
  let ?p = "p\<lparr>buffer := buffer p @ c\<rparr>"
  have "enforce_limit (size_of c) p = Inr ()" using Inr by simp
  then have "length (buffer p) + length c \<le> unat (max_buffer_size p)"
    using enforce_limit_iff [OF assms(2,3)] by simp
  then have "parser_ok ?p" using assms(2) by (simp add: parser_ok_def)
  moreover have "fits (buffer p @ c)" using fits_buffer [OF calculation] by simp
  moreover obtain x where "consume_lines ?p (buffer p @ c) = (p', x)"
    using assms(1) Inr by (auto simp: feed_def Let_def split: prod.splits sum.splits)
  ultimately show ?thesis using consume_lines_ok [of ?p "buffer p @ c" p' x] by simp
qed (use assms in \<open>simp add: feed_def\<close>)

subsection \<open>Cutting the input into chunks\<close>

text \<open>The loop does not look at the buffer field, and it can be interrupted anywhere.\<close>

lemma process_line_buffer:
  "process_line l (p\<lparr>buffer := b\<rparr>) =
    map_sum id (map_prod (\<lambda>q. q\<lparr>buffer := b\<rparr>) id) (process_line l p)"
  by (auto simp: process_line_eq clear_current_event_def make_event_def append_data_line_def Let_def
      split: sum.splits option.splits)

lemma consume_lines_buffer:
  "consume_lines (p\<lparr>buffer := b\<rparr>) t = map_prod (\<lambda>q. q\<lparr>buffer := b\<rparr>) id (consume_lines p t)"
proof (induction t arbitrary: p rule: lines_induct)
  case (line l r)
  then show ?case
    by (auto simp: consume_step process_line_buffer split: sum.splits prod.splits)
qed (simp add: consume_stop)

lemma consume_lines_append:
  assumes "consume_lines p a = (p1, Inr (e1, r1))"
  shows "consume_lines p (a @ b) = (case consume_lines p1 (r1 @ b) of
      (p2, Inl e) \<Rightarrow> (p2, Inl e)
    | (p2, Inr (e2, r2)) \<Rightarrow> (p2, Inr (e1 @ e2, r2)))"
  using assms
proof (induction a arbitrary: p e1 rule: lines_induct)
  case (line l r)
  then show ?case
    by (auto simp: consume_step split: sum.splits prod.splits)
qed (auto simp: consume_stop split: sum.splits prod.splits)

lemma consume_lines_append_error:
  "consume_lines p a = (p1, Inl e) \<Longrightarrow> consume_lines p (a @ b) = (p1, Inl e)"
proof (induction a arbitrary: p rule: lines_induct)
  case (line l r)
  then show ?case
    by (auto simp: consume_step split: sum.splits prod.splits)
qed (auto simp: consume_stop)

text \<open>What a \<open>feed\<close> does, in terms of lengths.\<close>

definition accepts :: "sse_parser \<Rightarrow> string \<Rightarrow> bool" where
  "accepts p c \<longleftrightarrow> length (buffer p) + length c \<le> unat (max_buffer_size p)"

lemma accepts_fits: "accepts p c \<Longrightarrow> fits c"
  by (rule fits_le [of _ "max_buffer_size p"]) (simp add: accepts_def)

lemma feed_eq:
  assumes "parser_ok p" "fits c"
  shows "feed c p = (if accepts p c then
      (case consume_lines p (buffer p @ c) of
         (p1, Inl e) \<Rightarrow> (p1\<lparr>buffer := buffer p @ c\<rparr>, Inl e)
       | (p1, Inr (evs, r)) \<Rightarrow> (p1\<lparr>buffer := r\<rparr>, Inr evs))
    else (p, Inl (Length_Error ''SseParser buffer size limit exceeded'')))"
proof (cases "enforce_limit (size_of c) p")
  case (Inl e)
  then have "\<not> accepts p c" "e = Length_Error ''SseParser buffer size limit exceeded''"
    using enforce_limit_iff [OF assms] enforce_limit_error by (auto simp: accepts_def)
  then show ?thesis using Inl by (simp add: feed_def)
next
  case (Inr u)
  then have "accepts p c" using enforce_limit_iff [OF assms] by (simp add: accepts_def)
  then show ?thesis using Inr
    by (auto simp: feed_def Let_def consume_lines_buffer split: prod.splits sum.splits)
qed

lemma feed_ok:
  assumes "feed c p = (p', Inr evs)" "parser_ok p" "fits c"
  shows "accepts p c \<and> parser_idle p' \<and> max_buffer_size p' = max_buffer_size p \<and>
    (\<exists>q r. consume_lines p (buffer p @ c) = (q, Inr (evs, r)) \<and> p' = q\<lparr>buffer := r\<rparr>)"
proof -
  have acc: "accepts p c" using assms by (auto simp: feed_eq split: if_splits)
  obtain q r where q: "consume_lines p (buffer p @ c) = (q, Inr (evs, r))" "p' = q\<lparr>buffer := r\<rparr>"
    using assms acc by (auto simp: feed_eq split: sum.splits prod.splits)
  have "fits (buffer p @ c)" using acc by (auto simp: accepts_def intro: fits_le [of _ "max_buffer_size p"])
  with consume_lines_ok [OF q(1) assms(2)] have ok: "parser_ok q" "max_buffer_size q = max_buffer_size p"
    "newline \<notin> set r" "suffix r (buffer p @ c)" by auto
  have "length r \<le> unat (max_buffer_size p)"
    using suffix_length_le [OF ok(4)] acc by (simp add: accepts_def)
  then show ?thesis using acc ok q by (auto simp: parser_idle_def parser_ok_def)
qed

lemma idle_feed_nil: "parser_idle p \<Longrightarrow> feed [] p = (p, Inr [])"
proof -
  assume "parser_idle p"
  then show ?thesis
    using feed_eq [of p "[]"] by (simp add: parser_idle_def consume_stop fits_def accepts_def parser_ok_def)
qed

text \<open>
  The contract of an incremental parser: a chunk may be cut in two. The client lemmas are about
  any such parser.
\<close>

locale chunked_parser =
  fixes ok :: "'s \<Rightarrow> bool" and step :: "'c list \<Rightarrow> 's \<Rightarrow> ('s \<times> 'e list) option"
  assumes step_ok: "ok s \<Longrightarrow> step c s = Some (s', es) \<Longrightarrow> ok s'"
    and step_nil: "ok s \<Longrightarrow> step [] s = Some (s, [])"
    and step_append: "ok s \<Longrightarrow> step (a @ b) s = Some (s2, es) \<Longrightarrow>
      \<exists>s1 es1 es2. step a s = Some (s1, es1) \<and> step b s1 = Some (s2, es2) \<and> es = es1 @ es2"
begin

fun steps :: "'c list list \<Rightarrow> 's \<Rightarrow> ('s \<times> 'e list) option" where
  "steps [] s = Some (s, [])"
| "steps (c # cs) s = (case step c s of None \<Rightarrow> None
   | Some (s1, es) \<Rightarrow> (case steps cs s1 of None \<Rightarrow> None | Some (s2, es') \<Rightarrow> Some (s2, es @ es')))"

lemma steps_append: "steps (cs @ ds) s = (case steps cs s of None \<Rightarrow> None
   | Some (s1, es) \<Rightarrow> (case steps ds s1 of None \<Rightarrow> None | Some (s2, es') \<Rightarrow> Some (s2, es @ es')))"
  by (induction cs arbitrary: s) (auto split: option.splits)

lemma steps_ok: "ok s \<Longrightarrow> steps cs s = Some (s', es) \<Longrightarrow> ok s'"
proof (induction cs arbitrary: s es)
  case (Cons c cs)
  then obtain s1 es1 es2 where "step c s = Some (s1, es1)" "steps cs s1 = Some (s', es2)"
    by (auto split: option.splits)
  with Cons.IH [of s1 es2] step_ok [OF Cons.prems(1)] show ?case by blast
qed simp

lemma step_refine:
  "ok s \<Longrightarrow> step (concat cs) s = Some (s', es) \<Longrightarrow> steps cs s = Some (s', es)"
proof (induction cs arbitrary: s es)
  case Nil
  then show ?case by (simp add: step_nil)
next
  case (Cons c cs)
  then obtain s1 es1 es2 where "step c s = Some (s1, es1)" "step (concat cs) s1 = Some (s', es2)"
    "es = es1 @ es2" using step_append [of s c "concat cs"] by auto
  moreover from this have "ok s1" using Cons.prems(1) step_ok by blast
  ultimately show ?case using Cons.IH by simp
qed

lemma steps_refine:
  "ok s \<Longrightarrow> steps (map concat css) s = Some (s', es) \<Longrightarrow> steps (concat css) s = Some (s', es)"
proof (induction css arbitrary: s es)
  case (Cons cs css)
  then obtain s1 es1 es2 where "step (concat cs) s = Some (s1, es1)"
    "steps (map concat css) s1 = Some (s', es2)" "es = es1 @ es2"
    by (auto split: option.splits)
  with Cons.IH [of s1 es2] step_ok [OF Cons.prems(1)] step_refine [OF Cons.prems(1)] show ?case
    by (simp add: steps_append)
qed simp

lemma steps_bytewise:
  assumes "ok s" "steps cs s = Some (s', es)"
  shows "steps (map (\<lambda>x. [x]) (concat cs)) s = Some (s', es)"
proof -
  have c: "concat (map (\<lambda>x. [x]) xs) = xs" for xs :: "'c list" by (induction xs) simp_all
  have "map concat (map (map (\<lambda>x. [x])) cs) = cs" by (simp add: comp_def c)
  with steps_refine [of s "map (map (\<lambda>x. [x])) cs"] assms show ?thesis
    by (simp add: map_concat [symmetric])
qed

end

definition feed_step :: "string \<Rightarrow> sse_parser \<Rightarrow> (sse_parser \<times> sse_event list) option" where
  "feed_step c p = (if fits c then (case feed c p of (p', Inr evs) \<Rightarrow> Some (p', evs) | _ \<Rightarrow> None) else None)"

lemma feed_append:
  assumes "parser_ok p" "feed (a @ b) p = (p2, Inr es)" "fits (a @ b)"
  shows "\<exists>p1 es1 es2. feed a p = (p1, Inr es1) \<and> feed b p1 = (p2, Inr es2) \<and> es = es1 @ es2"
proof -
  have fab: "fits a" "fits b" using assms(3) by (auto simp: fits_def)
  from feed_ok [OF assms(2,1,3)] obtain q r where acc: "accepts p (a @ b)"
    and q: "consume_lines p (buffer p @ a @ b) = (q, Inr (es, r))" "p2 = q\<lparr>buffer := r\<rparr>" by auto
  have acca: "accepts p a" using acc by (simp add: accepts_def)
  obtain p1 x where c1: "consume_lines p (buffer p @ a) = (p1, x)" by fastforce
  obtain es1 r1 where x: "x = Inr (es1, r1)"
    using c1 q(1) consume_lines_append_error [of p "buffer p @ a" p1 _ b] by (cases x) auto
  have f1: "feed a p = (p1\<lparr>buffer := r1\<rparr>, Inr es1)"
    using feed_eq [OF assms(1) fab(1)] acca c1 x by simp
  note ok1 = feed_ok [OF f1 assms(1) fab(1)]
  have "consume_lines p ((buffer p @ a) @ b) = (q, Inr (es, r))" using q(1) by simp
  then obtain es2 where c2: "consume_lines p1 (r1 @ b) = (q, Inr (es2, r))" "es = es1 @ es2"
    using consume_lines_append [OF c1 [unfolded x], of b] by (auto split: sum.splits prod.splits)
  have "fits (buffer p @ a)" using acca by (auto simp: accepts_def intro: fits_le [of _ "max_buffer_size p"])
  then have "length r1 \<le> length (buffer p @ a)"
    using consume_lines_ok [OF c1 assms(1)] x by (auto dest: suffix_length_le)
  then have "accepts (p1\<lparr>buffer := r1\<rparr>) b" using acc ok1 by (simp add: accepts_def)
  then have "feed b (p1\<lparr>buffer := r1\<rparr>) = (p2, Inr es2)"
    using feed_eq [of "p1\<lparr>buffer := r1\<rparr>" b] ok1 fab(2) c2 q(2)
    by (simp add: parser_idle_def consume_lines_buffer)
  with f1 c2(2) show ?thesis by blast
qed

lemma feed_step_Some: "feed_step c p = Some (p', es) \<longleftrightarrow> fits c \<and> feed c p = (p', Inr es)"
  by (auto simp: feed_step_def split: prod.splits sum.splits)

interpretation sse: chunked_parser parser_idle feed_step
proof
  fix p p' c es
  assume "parser_idle p" "feed_step c p = Some (p', es)"
  then show "parser_idle p'" using feed_ok [of c p p' es]
    by (simp add: feed_step_Some parser_idle_def)
next
  fix p
  assume "parser_idle p"
  then show "feed_step [] p = Some (p, [])" by (simp add: feed_step_Some idle_feed_nil fits_def)
next
  fix p a b p2 es
  assume "parser_idle p" "feed_step (a @ b) p = Some (p2, es)"
  then show "\<exists>s1 es1 es2. feed_step a p = Some (s1, es1) \<and> feed_step b s1 = Some (p2, es2) \<and>
      es = es1 @ es2"
    using feed_append [of p a b p2 es] by (auto simp: feed_step_Some parser_idle_def fits_def)
qed

lemma steps_feed_all: "list_all fits cs \<Longrightarrow> sse.steps cs p =
    (case feed_all cs p of (p', Inr evs) \<Rightarrow> Some (p', evs) | _ \<Rightarrow> None)"
  by (induction cs arbitrary: p) (auto simp: feed_step_def split: prod.splits sum.splits option.splits)

lemma feed_all_consume:
  assumes "feed_all cs p = (p', Inr evs)" "parser_idle p" "list_all fits cs"
  shows "parser_idle p' \<and> max_buffer_size p' = max_buffer_size p \<and>
    (\<exists>q r. consume_lines p (buffer p @ concat cs) = (q, Inr (evs, r)) \<and> p' = q\<lparr>buffer := r\<rparr>)"
  using assms
proof (induction cs arbitrary: p evs)
  case Nil
  then show ?case by (simp add: consume_stop parser_idle_def)
next
  case (Cons c cs)
  then obtain p1 e1 e2 where f: "feed c p = (p1, Inr e1)" "feed_all cs p1 = (p', Inr e2)"
    "evs = e1 @ e2" by (auto split: prod.splits sum.splits)
  have "parser_ok p" "fits c" using Cons.prems(2,3) by (simp_all add: parser_idle_def)
  note ok = feed_ok [OF f(1) this]
  then obtain q1 r1 where q1: "consume_lines p (buffer p @ c) = (q1, Inr (e1, r1))"
    "p1 = q1\<lparr>buffer := r1\<rparr>" by blast
  obtain q r where q: "consume_lines p1 (r1 @ concat cs) = (q, Inr (e2, r))" "p' = q\<lparr>buffer := r\<rparr>"
    and ok2: "parser_idle p'" "max_buffer_size p' = max_buffer_size p1"
    using Cons.IH [OF f(2)] ok Cons.prems(3) q1(2) by auto
  obtain q0 where "consume_lines q1 (r1 @ concat cs) = (q0, Inr (e2, r))" "q = q0\<lparr>buffer := r1\<rparr>"
    using q(1) q1(2)
    by (cases "consume_lines q1 (r1 @ concat cs)") (auto simp: consume_lines_buffer)
  then have "consume_lines p ((buffer p @ c) @ concat cs) = (q0, Inr (evs, r))"
    using consume_lines_append [OF q1(1), of "concat cs"] f(3) by simp
  then show ?case using ok2 ok q(2) \<open>q = _\<close> by auto
qed

subsection \<open>Specification of the format\<close>

text \<open>
  A text is a sequence of lines, each ended by a newline with an optional carriage return before
  it, and a rest; the lines are blocks separated by blank lines; a block contributes one event, of
  the values of its data lines joined by newlines, if it has any.
\<close>

definition text_lines :: "string \<Rightarrow> string list" where
  "text_lines t = map strip_cr (butlast (split_on newline t))"

fun join_lines :: "string list \<Rightarrow> string" where
  "join_lines [] = []"
| "join_lines [v] = v"
| "join_lines (v # w # vs) = v @ newline # join_lines (w # vs)"

definition block_values :: "string list \<Rightarrow> string list" where
  "block_values b = List.map_filter line_data b"

definition spec_event :: "string list \<Rightarrow> sse_event" where
  "spec_event vs = \<lparr>ev_data = join_lines vs, ev_is_done = (join_lines vs = ''[DONE]'')\<rparr>"

definition spec_blocks :: "string \<Rightarrow> string list list" where
  "spec_blocks t = map block_values (split_on [] (text_lines t))"

definition spec_events :: "string \<Rightarrow> sse_event list" where
  "spec_events t = map spec_event (filter (\<lambda>vs. vs \<noteq> []) (butlast (spec_blocks t)))"

text \<open>The blocks of the lines \<open>ls\<close> when the values \<open>vs\<close> of the first block were read before.\<close>

definition blocks_from :: "string list \<Rightarrow> string list \<Rightarrow> string list list" where
  "blocks_from vs ls = (vs @ block_values (hd (split_on [] ls))) # map block_values (tl (split_on [] ls))"

lemma map_hd_tl: "xs \<noteq> [] \<Longrightarrow> f (hd xs) # map f (tl xs) = map f xs"
  by (cases xs) simp_all

lemma block_values_simps:
  "block_values [] = []"
  "block_values (l # b) = (case line_data l of None \<Rightarrow> [] | Some v \<Rightarrow> [v]) @ block_values b"
  by (simp_all add: block_values_def map_filter_simps split: option.splits)

lemma blocks_from_simps [simp]:
  "blocks_from vs [] = [vs]"
  "blocks_from vs ([] # ls) = vs # blocks_from [] ls"
  "l \<noteq> [] \<Longrightarrow> blocks_from vs (l # ls) =
    blocks_from (vs @ (case line_data l of None \<Rightarrow> [] | Some v \<Rightarrow> [v])) ls"
  by (simp_all add: blocks_from_def block_values_simps map_hd_tl)

lemma blocks_from_not_Nil [simp]: "blocks_from vs ls \<noteq> []"
  by (simp add: blocks_from_def)

lemma spec_blocks_from: "spec_blocks t = blocks_from [] (text_lines t)"
  by (simp add: spec_blocks_def blocks_from_def map_hd_tl)

lemma hd_blocks_from: "\<exists>ws. hd (blocks_from vs ls) = vs @ ws"
  by (simp add: blocks_from_def)

lemma text_lines_simps [simp]:
  "newline \<notin> set t \<Longrightarrow> text_lines t = []"
  "newline \<notin> set l \<Longrightarrow> text_lines (l @ newline # r) = strip_cr l # text_lines r"
  by (simp_all add: text_lines_def split_on_none split_on_first)

lemma join_lines_snoc: "join_lines (vs @ [v]) = (if vs = [] then v else join_lines vs @ newline # v)"
  by (induction vs rule: join_lines.induct) auto

lemma join_lines_append: "length (join_lines vs) \<le> length (join_lines (vs @ ws))"
proof (induction ws rule: rev_induct)
  case (snoc w ws)
  then show ?case by (auto simp: join_lines_snoc simp flip: append_assoc)
qed simp

text \<open>The values of the block the parser is in the middle of.\<close>

definition holds_values :: "sse_parser \<Rightarrow> string list \<Rightarrow> bool" where
  "holds_values p vs \<longleftrightarrow> (has_data p \<longleftrightarrow> vs \<noteq> []) \<and> current_data p = join_lines vs"

lemma holds_values_data_room: "holds_values p vs \<Longrightarrow>
    data_room p v \<longleftrightarrow> length (join_lines (vs @ [v])) \<le> unat (max_buffer_size p)"
  by (auto simp: holds_values_def data_room_def join_lines_snoc)

text \<open>
  The loop succeeds exactly when the data of every block fits, and then its events are those of the
  specification.
\<close>

lemma consume_lines_spec:
  assumes "parser_ok p" "fits t" "holds_values p vs"
    and "bs = blocks_from vs (text_lines t)" and "consume_lines p t = (q, x)"
  shows "(case x of
      Inl _ \<Rightarrow> \<not> list_all (\<lambda>b. length (join_lines b) \<le> unat (max_buffer_size p)) bs
    | Inr (evs, r) \<Rightarrow> list_all (\<lambda>b. length (join_lines b) \<le> unat (max_buffer_size p)) bs \<and>
        evs = map spec_event (filter (\<lambda>vs. vs \<noteq> []) (butlast bs)) \<and>
        r = last (split_on newline t) \<and> holds_values q (last bs))"
  using assms
proof (induction t arbitrary: p vs bs q x rule: lines_induct)
  case (stop t)
  then show ?case by (auto simp: consume_stop split_on_none holds_values_def parser_ok_def)
next
  case (line l r)
  define c where "c = strip_cr l"
  have fits: "fits c" "fits r" using line.prems(2) unfolding c_def
    by (auto intro!: fits_strip_cr) (auto simp: fits_def)
  have last: "last (split_on newline (l @ newline # r)) = last (split_on newline r)"
    using line.hyps by (simp add: split_on_first)
  show ?case
  proof (cases "process_line c p")
    case (Inl e)
    then obtain v where v: "c \<noteq> []" "line_data c = Some v" "append_data_line v p = Inl e"
      by (auto simp: process_line_eq split: if_splits option.splits sum.splits)
    have "fits v" using line_data_length [OF v(2)] fits(1) by (simp add: fits_def)
    then have "\<not> length (join_lines (vs @ [v])) \<le> unat (max_buffer_size p)"
      using v(3) line.prems(1,3) by (simp add: append_data_line_eq holds_values_data_room split: if_splits)
    moreover obtain ws where "hd bs = (vs @ [v]) @ ws"
      using hd_blocks_from [of "vs @ [v]" "text_lines r"] line.prems(4) line.hyps v(1,2)
      by (auto simp: c_def)
    ultimately have "\<not> length (join_lines (hd bs)) \<le> unat (max_buffer_size p)"
      using join_lines_append [of "vs @ [v]" ws] by simp
    moreover have "bs \<noteq> []" using line.prems(4) by simp
    ultimately show ?thesis using line.prems(5) Inl line.hyps
      by (auto simp: consume_step c_def [symmetric] list_all_iff intro!: bexI [of _ "hd bs"])
  next
    case (Inr y)
    then obtain p1 e1 where p1: "process_line c p = Inr (p1, e1)" by (cases y) simp
    obtain p2 x2 where c2: "consume_lines p1 r = (p2, x2)" by fastforce
    have ok1: "parser_ok p1" "max_buffer_size p1 = max_buffer_size p"
      using process_line_ok [OF p1 line.prems(1) fits(1)] by simp_all
    have x: "q = p2" "x = (case x2 of Inl e \<Rightarrow> Inl e | Inr (evs', r') \<Rightarrow> Inr (e1 @ evs', r'))"
      using line.prems(5) p1 c2 by (auto simp: consume_step [OF line.hyps(1)] c_def split: sum.splits)
    show ?thesis
    proof (cases "c = []")
      case True
      then have h: "holds_values p1 []" "e1 = (if vs = [] then [] else [spec_event vs])"
        using p1 line.prems(3) by (auto simp: process_line_eq holds_values_def clear_current_event_def
            make_event_def spec_event_def split: if_splits)
      have bs: "bs = vs # blocks_from [] (text_lines r)" using True line.prems(4) line.hyps by (simp add: c_def)
      have "length (join_lines vs) \<le> unat (max_buffer_size p)"
        using line.prems(1,3) by (simp add: holds_values_def parser_ok_def)
      with line.IH [OF ok1(1) fits(2) h(1) refl c2] show ?thesis
        unfolding x bs last by (auto simp: h(2) ok1(2) split: sum.splits)
    next
      case False
      define ws where "ws = (case line_data c of None \<Rightarrow> [] | Some v \<Rightarrow> [v])"
      have "fits v" if "line_data c = Some v" for v
        using line_data_length [OF that] fits(1) by (simp add: fits_def)
      then have h: "holds_values p1 (vs @ ws)" "e1 = []"
        using p1 False line.prems(1,3)
        by (auto simp: process_line_eq holds_values_def ws_def append_data_line_eq join_lines_snoc
            split: if_splits option.splits sum.splits)
      have bs: "bs = blocks_from (vs @ ws) (text_lines r)"
        using False line.prems(4) line.hyps by (simp add: c_def ws_def)
      from line.IH [OF ok1(1) fits(2) h(1) bs c2] show ?thesis
        unfolding x last by (auto simp: h(2) ok1(2) split: sum.splits)
    qed
  qed
qed

lemma consume_lines_accepted:
  assumes "parser_ok p" "fits t" "holds_values p vs"
    and "list_all (\<lambda>b. length (join_lines b) \<le> unat (max_buffer_size p)) (blocks_from vs (text_lines t))"
  obtains q evs r where "consume_lines p t = (q, Inr (evs, r))"
proof -
  obtain q x where c: "consume_lines p t = (q, x)" by fastforce
  with consume_lines_spec [OF assms(1-3) refl c] assms(4) that show ?thesis by (cases x) auto
qed

text \<open>
  If no line is longer than \<open>L\<close> and no chunk longer than what \<open>L\<close> leaves of the buffer, no
  \<open>feed\<close> meets the buffer limit.
\<close>

lemma feed_all_accepted:
  assumes "parser_idle p" "consume_lines p (buffer p @ concat cs) = (q, Inr (evs, r))"
    and "list_all (\<lambda>l. length l \<le> L) (split_on newline (buffer p @ concat cs))"
    and "list_all (\<lambda>c. length c + L \<le> unat (max_buffer_size p)) cs"
  shows "feed_all cs p = (q\<lparr>buffer := r\<rparr>, Inr evs)"
  using assms
proof (induction cs arbitrary: p q evs)
  case Nil
  then show ?case by (auto simp: consume_stop parser_idle_def)
next
  case (Cons c cs)
  have ok: "parser_ok p" and nl: "newline \<notin> set (buffer p)"
    using Cons.prems(1) by (simp_all add: parser_idle_def)
  have "length (buffer p) \<le> length (hd (split_on newline (buffer p @ c @ concat cs)))"
    using split_on_prefix [OF nl] by (rule prefix_length_le)
  also have "\<dots> \<le> L" using Cons.prems(3) by (auto simp: list_all_iff)
  finally have acc: "accepts p c" using Cons.prems(4) by (simp add: accepts_def)
  note fc = accepts_fits [OF acc]
  obtain p1 x where c1: "consume_lines p (buffer p @ c) = (p1, x)" by fastforce
  obtain e1 r1 where x: "x = Inr (e1, r1)"
    using c1 Cons.prems(2) consume_lines_append_error [of p "buffer p @ c" p1 _ "concat cs"]
    by (cases x) auto
  have f1: "feed c p = (p1\<lparr>buffer := r1\<rparr>, Inr e1)" using feed_eq [OF ok fc] acc c1 x by simp
  note ok1 = feed_ok [OF f1 ok fc]
  obtain e2 where c2: "consume_lines p1 (r1 @ concat cs) = (q, Inr (e2, r))" "evs = e1 @ e2"
    using consume_lines_append [OF c1 [unfolded x], of "concat cs"] Cons.prems(2)
    by (auto split: sum.splits prod.splits)
  have fbc: "fits (buffer p @ c)" using acc by (auto simp: accepts_def intro: fits_le [of _ "max_buffer_size p"])
  have "holds_values p (if has_data p then [current_data p] else [])"
    using ok by (simp add: holds_values_def parser_ok_def)
  from consume_lines_spec [OF ok fbc this refl c1] have r1: "r1 = last (split_on newline (buffer p @ c))"
    by (simp add: x)
  have "list_all (\<lambda>l. length l \<le> L) (split_on newline (r1 @ concat cs))"
    using Cons.prems(3) split_on_append [of newline "buffer p @ c" "concat cs"] by (simp add: r1)
  then have "feed_all cs (p1\<lparr>buffer := r1\<rparr>) = (q\<lparr>buffer := r\<rparr>, Inr e2)"
    using Cons.IH [of "p1\<lparr>buffer := r1\<rparr>" "q\<lparr>buffer := r1\<rparr>" e2] ok1 c2(1) Cons.prems(4)
    by (simp add: consume_lines_buffer)
  then show ?case using f1 c2(2) by simp
qed

text \<open>
  The data of the current event and the unread text together do not grow, and a complete event
  leaves only what was read after it.
\<close>

lemma process_line_growth:
  assumes "process_line l p = Inr (p', evs)" "parser_ok p" "fits l"
  shows "length (current_data p') \<le> (if evs = [] then length (current_data p) + length l + 1 else 0)"
proof (cases "line_data l")
  case None
  with assms show ?thesis by (auto simp: process_line_eq clear_current_event_def split: if_splits)
next
  case (Some v)
  then have "length v \<le> length l" "fits v"
    using line_data_length [OF Some] assms(3) by (auto simp: fits_def)
  with append_data_line_eq [OF assms(2), of v] assms(1) Some show ?thesis
    by (auto simp: process_line_eq clear_current_event_def split: if_splits sum.splits)
qed

lemma length_strip_cr: "length (strip_cr l) \<le> length l"
  by (simp add: strip_cr_def)

lemma consume_lines_growth:
  assumes "parser_ok p" "fits t" "consume_lines p t = (q, Inr (evs, r))"
  shows "length (current_data q) + length r
    \<le> (if evs = [] then length (current_data p) + length t else length t)"
  using assms
proof (induction t arbitrary: p evs rule: lines_induct)
  case (line l s)
  have fits: "fits (strip_cr l)" "fits s" using line.prems(2)
    by (auto intro!: fits_strip_cr) (auto simp: fits_def)
  obtain p1 e1 e2 where p1: "process_line (strip_cr l) p = Inr (p1, e1)"
    "consume_lines p1 s = (q, Inr (e2, r))" "evs = e1 @ e2"
    using line.prems(3) by (auto simp: consume_step [OF line.hyps(1)] split: sum.splits prod.splits)
  have "parser_ok p1" using process_line_ok [OF p1(1) line.prems(1) fits(1)] by simp
  from line.IH [OF this fits(2) p1(2)] process_line_growth [OF p1(1) line.prems(1) fits(1)]
    length_strip_cr [of l] p1(3) show ?case by (auto split: if_splits)
qed (auto simp: consume_stop)

lemma process_line_room:
  assumes "parser_ok p" "length (current_data p) + length l + 1 \<le> unat (max_buffer_size p)"
  shows "\<exists>p' evs. process_line l p = Inr (p', evs)"
proof (cases "line_data l")
  case (Some v)
  then have "data_room p v" using line_data_length [OF Some] assms(2) by (simp add: data_room_def)
  moreover have "fits v"
    using line_data_length [OF Some] assms(2) by (intro fits_le [of _ "max_buffer_size p"]) simp
  ultimately show ?thesis using append_data_line_eq [OF assms(1), of v] Some
    by (auto simp: process_line_eq)
qed (auto simp: process_line_eq)

lemma consume_lines_room:
  assumes "parser_ok p" "fits t" "length (current_data p) + length t \<le> unat (max_buffer_size p)"
  shows "\<exists>q evs r. consume_lines p t = (q, Inr (evs, r))"
  using assms
proof (induction t arbitrary: p rule: lines_induct)
  case (line l s)
  have fits: "fits (strip_cr l)" "fits s" using line.prems(2)
    by (auto intro!: fits_strip_cr) (auto simp: fits_def)
  obtain p1 e1 where p1: "process_line (strip_cr l) p = Inr (p1, e1)"
    using process_line_room [OF line.prems(1), of "strip_cr l"] line.prems(3) length_strip_cr [of l] by auto
  have "parser_ok p1" "max_buffer_size p1 = max_buffer_size p"
    using process_line_ok [OF p1 line.prems(1) fits(1)] by simp_all
  moreover have "length (current_data p1) + length s \<le> unat (max_buffer_size p)"
    using process_line_growth [OF p1 line.prems(1) fits(1)] line.prems(3) length_strip_cr [of l]
    by (auto split: if_splits)
  ultimately obtain q e r where "consume_lines p1 s = (q, Inr (e, r))"
    using line.IH [OF _ fits(2)] by metis
  then show ?case by (simp add: consume_step [OF line.hyps] p1)
qed (auto simp: consume_stop)

text \<open>The frames of a stream, as \<^verbatim>\<open>tools/mock_vllm/mock_vllm_server.py\<close> writes them.\<close>

definition sse_frame :: "string \<Rightarrow> string" where
  "sse_frame d = ''data: '' @ d @ [newline, newline]"

lemma sse_frame_line: "sse_frame d @ t = (''data: '' @ d) @ newline # [] @ newline # t"
  by (simp add: sse_frame_def)

definition frame_data :: "string \<Rightarrow> bool" where
  "frame_data d \<longleftrightarrow> newline \<notin> set d \<and> (d \<noteq> [] \<longrightarrow> last d \<noteq> carriage_return)"

lemma frame_line: "frame_data d \<Longrightarrow> strip_cr (''data: '' @ d) = ''data: '' @ d"
  by (auto simp: strip_cr_def frame_data_def)

lemma frame_value: "line_data (''data: '' @ d) = Some d"
  by (simp add: line_data_def data_prefix_def strip_single_leading_space_def)

lemma frames_lines: "list_all frame_data ds \<Longrightarrow>
    split_on newline (concat (map sse_frame ds)) = concat (map (\<lambda>d. [''data: '' @ d, []]) ds) @ [[]]"
proof (induction ds)
  case (Cons d ds)
  then have d: "newline \<notin> set (''data: '' @ d)" by (simp add: frame_data_def)
  then have "split_on newline (sse_frame d @ concat (map sse_frame ds))
      = (''data: '' @ d) # split_on newline (newline # concat (map sse_frame ds))"
    unfolding sse_frame_line append_Nil by (rule split_on_first)
  then show ?case using Cons by simp
qed simp

lemma frames_blocks: "list_all frame_data ds \<Longrightarrow>
    spec_blocks (concat (map sse_frame ds)) = map (\<lambda>d. [d]) ds @ [[]]"
proof (induction ds)
  case (Cons d ds)
  then have d: "newline \<notin> set (''data: '' @ d)" "frame_data d" by (simp_all add: frame_data_def)
  have "text_lines (concat (map sse_frame (d # ds)))
      = (''data: '' @ d) # [] # text_lines (concat (map sse_frame ds))"
    using text_lines_simps(2) [OF d(1)] text_lines_simps(2) [of "[]"] frame_line [OF d(2)]
    by (simp add: sse_frame_line strip_cr_def)
  then show ?case using Cons frame_value [of d] by (simp add: spec_blocks_from)
qed (simp add: spec_blocks_from)

subsection \<open>Properties\<close>

text \<open>
  C29: bounded memory. Whatever chunks are fed, and whether or not the caller goes on after an
  exception, the buffer and the data of the event under construction never exceed
  \<open>max_buffer_size\<close>, the invariant holds, and \<open>pending_bytes\<close> is the length of the buffer.
\<close>

theorem parser_memory_bounded:
  assumes "new_parser m = Inr p" "list_all fits cs"
  shows "(let q = fold (\<lambda>c q. fst (feed c q)) cs p in
    parser_ok q \<and> length (buffer q) \<le> unat m \<and> length (current_data q) \<le> unat m \<and>
    unat (pending_bytes q) = length (buffer q))"
proof -
  have step: "parser_ok (fst (feed c q)) \<and> max_buffer_size (fst (feed c q)) = max_buffer_size q"
    if "parser_ok q" "fits c" for c q
  proof (cases "snd (feed c q)")
    case (Inl e)
    then show ?thesis using feed_error_cases [of c q "fst (feed c q)" e] that by (metis prod.collapse)
  next
    case (Inr evs)
    then have "feed c q = (fst (feed c q), Inr evs)" by (metis prod.collapse)
    from feed_ok [OF this that] show ?thesis by (simp add: parser_idle_def)
  qed
  define q where "q = fold (\<lambda>c q. fst (feed c q)) cs p"
  have "parser_ok (fold (\<lambda>c q. fst (feed c q)) cs q) \<and>
      max_buffer_size (fold (\<lambda>c q. fst (feed c q)) cs q) = max_buffer_size q" if "parser_ok q" for q
    using assms(2) that by (induction cs arbitrary: q) (auto simp: step)
  moreover have "parser_ok p" "max_buffer_size p = m" using new_parser_ok [OF assms(1)] assms(1)
    by (auto simp: parser_idle_def new_parser_def split: if_splits)
  ultimately have "parser_ok q" "max_buffer_size q = m" by (auto simp: q_def)
  moreover from this have "unat (pending_bytes q) = length (buffer q)"
    by (auto simp: parser_ok_def pending_bytes_def intro!: unat_size_of_le)
  ultimately show ?thesis unfolding q_def [symmetric] Let_def by (simp add: parser_ok_def)
qed

theorem parser_memory_bounded_witness:
  "\<exists>p. new_parser 8 = Inr p \<and>
    length (buffer (fold (\<lambda>c q. fst (feed c q)) [''data:abc'', ''defghijkl'', [newline]] p)) \<le> 8"
proof -
  obtain p where p: "new_parser 8 = Inr p" by (simp add: new_parser_def)
  show ?thesis using p parser_memory_bounded [OF p, of "[''data:abc'', ''defghijkl'', [newline]]"]
    by (simp add: fits_def Let_def)
qed

text \<open>
  C16: chunks do not matter. Two ways to cut the same bytes that are both accepted give the same
  events and leave the parser in the same state, and feeding the bytes one at a time is then
  accepted too, with the same result.
\<close>

theorem chunking_is_irrelevant:
  assumes "parser_idle p" "list_all fits cs" "list_all fits ds" "concat cs = concat ds"
    and "feed_all cs p = (p1, Inr e1)" "feed_all ds p = (p2, Inr e2)"
  shows "p1 = p2 \<and> e1 = e2 \<and> feed_all (map (\<lambda>x. [x]) (concat cs)) p = (p1, Inr e1)"
proof -
  have "p1 = p2 \<and> e1 = e2"
    using feed_all_consume [OF assms(5,1,2)] feed_all_consume [OF assms(6,1,3)] assms(4) by auto
  moreover have "sse.steps (map (\<lambda>x. [x]) (concat cs)) p = Some (p1, e1)"
    using assms(1,2,5) by (intro sse.steps_bytewise) (simp_all add: steps_feed_all)
  moreover have "list_all fits (map (\<lambda>x. [x]) (concat cs))" by (simp add: list_all_iff fits_def)
  ultimately show ?thesis by (auto simp: steps_feed_all split: prod.splits sum.splits)
qed

definition parser_64 :: sse_parser where
  "parser_64 = \<lparr>max_buffer_size = 64, buffer = [], current_data = [], has_data = False\<rparr>"

lemma parser_64: "new_parser 64 = Inr parser_64" "parser_idle parser_64"
  by (simp_all add: new_parser_def parser_64_def parser_idle_def parser_ok_def)

theorem chunking_is_irrelevant_witness:
  "feed_all (map (\<lambda>x. [x]) (sse_frame ''a'' @ sse_frame ''[DONE]'')) parser_64 =
    (parser_64, Inr [\<lparr>ev_data = ''a'', ev_is_done = False\<rparr>, \<lparr>ev_data = ''[DONE]'', ev_is_done = True\<rparr>])"
proof -
  let ?cs = "[sse_frame ''a'', sse_frame ''[DONE]'']"
  let ?ds = "[''data'', '': a'' @ [newline, newline] @ ''data: [DONE'', '']'' @ [newline, newline]]"
  have "feed_all ?cs parser_64 = (parser_64,
      Inr [\<lparr>ev_data = ''a'', ev_is_done = False\<rparr>, \<lparr>ev_data = ''[DONE]'', ev_is_done = True\<rparr>])"
    "feed_all ?ds parser_64 = (parser_64,
      Inr [\<lparr>ev_data = ''a'', ev_is_done = False\<rparr>, \<lparr>ev_data = ''[DONE]'', ev_is_done = True\<rparr>])"
    by code_simp+
  from chunking_is_irrelevant [OF parser_64(2) _ _ _ this] show ?thesis
    by (simp add: fits_def sse_frame_def)
qed

text \<open>
  C17: an accepted input yields exactly the events of the specification of the format: blocks of
  lines separated by blank lines, each block with a data line one event with the values joined by
  newlines, comments and other fields ignored, a carriage return before the newline dropped. The
  buffer keeps the incomplete last line and the parser the values of the incomplete last block.
\<close>

theorem events_match_specification:
  assumes "new_parser m = Inr p" "list_all fits cs" "feed_all cs p = (p', Inr evs)" "fits (concat cs)"
  shows "evs = spec_events (concat cs) \<and> buffer p' = last (split_on newline (concat cs)) \<and>
    holds_values p' (last (spec_blocks (concat cs)))"
proof -
  have idle: "parser_idle p" by (rule new_parser_ok [OF assms(1)])
  have p: "buffer p = []" "holds_values p []" using assms(1)
    by (auto simp: new_parser_def holds_values_def split: if_splits)
  obtain q r where q: "consume_lines p (concat cs) = (q, Inr (evs, r))" "p' = q\<lparr>buffer := r\<rparr>"
    using feed_all_consume [OF assms(3) idle assms(2)] p(1) by auto
  from consume_lines_spec [OF _ assms(4) p(2) spec_blocks_from q(1)] idle q(2)
  show ?thesis by (auto simp: spec_events_def holds_values_def parser_idle_def)
qed

theorem events_match_specification_witness:
  "spec_events (concat ['': ping'' @ [carriage_return], [newline] @ ''data:a'' @ [newline] @ ''id: 7'' @ [newline],
      ''data: b'' @ [carriage_return, newline, newline] @ ''dat'']) = [\<lparr>ev_data = ''a'' @ [newline] @ ''b'', ev_is_done = False\<rparr>]"
proof -
  let ?cs = "['': ping'' @ [carriage_return], [newline] @ ''data:a'' @ [newline] @ ''id: 7'' @ [newline],
      ''data: b'' @ [carriage_return, newline, newline] @ ''dat'']"
  have f: "feed_all ?cs parser_64 = (parser_64\<lparr>buffer := ''dat''\<rparr>,
      Inr [\<lparr>ev_data = ''a'' @ [newline] @ ''b'', ev_is_done = False\<rparr>])" by code_simp
  have "list_all fits ?cs" "fits (concat ?cs)" by (simp_all add: fits_def)
  from events_match_specification [OF parser_64(1) this(1) f this(2), THEN conjunct1, symmetric]
  show ?thesis .
qed

text \<open>
  C28: acceptance. When no line of the input is longer than \<open>L\<close>, no chunk longer than
  \<open>max_buffer_size - L\<close> and the data of no event longer than \<open>max_buffer_size\<close>, the parser accepts
  the input without an exception, with the events of the specification.
\<close>

theorem bounded_input_is_accepted:
  assumes "new_parser m = Inr p" "fits (concat cs)"
    and "list_all (\<lambda>l. length l \<le> L) (split_on newline (concat cs))"
    and "list_all (\<lambda>c. length c + L \<le> unat m) cs"
    and "list_all (\<lambda>b. length (join_lines b) \<le> unat m) (spec_blocks (concat cs))"
  shows "\<exists>p'. feed_all cs p = (p', Inr (spec_events (concat cs)))"
proof -
  have idle: "parser_idle p" by (rule new_parser_ok [OF assms(1)])
  have p: "buffer p = []" "holds_values p []" "max_buffer_size p = m" using assms(1)
    by (auto simp: new_parser_def holds_values_def split: if_splits)
  have ok: "parser_ok p" using idle by (simp add: parser_idle_def)
  obtain q evs r where c: "consume_lines p (concat cs) = (q, Inr (evs, r))"
    using consume_lines_accepted [OF ok assms(2) p(2)] assms(5) p(3) by (auto simp: spec_blocks_from)
  have "feed_all cs p = (q\<lparr>buffer := r\<rparr>, Inr evs)"
    using feed_all_accepted [OF idle, of cs q evs r L] c assms(3,4) p by simp
  moreover have "evs = spec_events (concat cs)"
    using consume_lines_spec [OF ok assms(2) p(2) spec_blocks_from c] by (simp add: spec_events_def)
  ultimately show ?thesis by blast
qed

theorem bounded_input_is_accepted_witness:
  "\<exists>p'. feed_all [''data: a'' @ [newline], [newline]] parser_64 =
    (p', Inr (spec_events (concat [''data: a'' @ [newline], [newline]])))"
proof (rule bounded_input_is_accepted [OF parser_64(1)])
  show "list_all (\<lambda>l. length l \<le> 7) (split_on newline (concat [''data: a'' @ [newline], [newline]]))"
    by code_simp
  show "list_all (\<lambda>b. length (join_lines b) \<le> unat (64 :: size_t))
      (spec_blocks (concat [''data: a'' @ [newline], [newline]]))" by code_simp
qed (simp_all add: fits_def)

text \<open>
  C15: round trip. A stream of frames \<open>data: d\<close>, each ended by a blank line, is read back as exactly
  those data, in order, with \<open>[DONE]\<close> recognised, for every way the network may cut it into chunks
  of up to \<open>k\<close> bytes, if the longest frame line and a chunk fit the buffer together.
\<close>

theorem frames_roundtrip:
  assumes "new_parser m = Inr p" "list_all frame_data ds" "concat cs = concat (map sse_frame ds)"
    and "list_all (\<lambda>c. length c \<le> k) cs" "list_all (\<lambda>d. length d + 6 + k \<le> unat m) ds"
    and "k + 6 \<le> unat m" "fits (concat cs)"
  shows "\<exists>p'. feed_all cs p =
    (p', Inr (map (\<lambda>d. \<lparr>ev_data = d, ev_is_done = (d = ''[DONE]'')\<rparr>) ds))"
proof -
  have idle: "parser_idle p" by (rule new_parser_ok [OF assms(1)])
  have p: "buffer p = []" "holds_values p []" "max_buffer_size p = m" using assms(1)
    by (auto simp: new_parser_def holds_values_def split: if_splits)
  have ok: "parser_ok p" using idle by (simp add: parser_idle_def)
  have blocks: "spec_blocks (concat cs) = map (\<lambda>d. [d]) ds @ [[]]"
    using frames_blocks [OF assms(2)] assms(3) by simp
  have "list_all (\<lambda>b. length (join_lines b) \<le> unat m) (spec_blocks (concat cs))"
    using assms(5) by (auto simp: blocks list_all_iff)
  then obtain q evs r where c: "consume_lines p (concat cs) = (q, Inr (evs, r))"
    using consume_lines_accepted [OF ok assms(7) p(2)] p(3) by (auto simp: spec_blocks_from)
  have "list_all (\<lambda>l. length l \<le> unat m - k) (split_on newline (concat cs))"
    using assms(3,5,6) frames_lines [OF assms(2)] by (auto simp: list_all_iff)
  moreover have "list_all (\<lambda>c. length c + (unat m - k) \<le> unat m) cs"
    using assms(4,6) by (auto simp: list_all_iff)
  ultimately have "feed_all cs p = (q\<lparr>buffer := r\<rparr>, Inr evs)"
    using feed_all_accepted [OF idle, of cs q evs r "unat m - k"] c p by simp
  moreover have "evs = map spec_event (map (\<lambda>d. [d]) ds)"
    using consume_lines_spec [OF ok assms(7) p(2) spec_blocks_from c] by (simp add: blocks)
  ultimately show ?thesis by (auto simp: spec_event_def comp_def)
qed

theorem frames_roundtrip_witness:
  "\<exists>p'. feed_all (map (\<lambda>x. [x]) (sse_frame ''hi'' @ sse_frame ''[DONE]'')) parser_64 =
    (p', Inr [\<lparr>ev_data = ''hi'', ev_is_done = False\<rparr>, \<lparr>ev_data = ''[DONE]'', ev_is_done = True\<rparr>])"
  using frames_roundtrip [OF parser_64(1), of "[''hi'', ''[DONE]'']"
      "map (\<lambda>x. [x]) (sse_frame ''hi'' @ sse_frame ''[DONE]'')" 1]
  by (simp add: frame_data_def sse_frame_def fits_def)

definition parser_20 :: sse_parser where
  "parser_20 = \<lparr>max_buffer_size = 20, buffer = [], current_data = [], has_data = False\<rparr>"

text \<open>
  C30: an exception for the size of an event loses no event. If \<open>feed\<close> of a chunk throws after the
  size check of the buffer, no event was complete in any prefix of the chunk, so the events that
  the throw discards are none.
\<close>

theorem overflow_loses_no_event:
  assumes "parser_idle p" "accepts p (a @ b)"
    and "feed a p = (p1, Inr es)" "feed (a @ b) p = (p2, Inl e)"
  shows "es = []"
proof (rule ccontr)
  assume es: "es \<noteq> []"
  have ok: "parser_ok p" using assms(1) by (simp add: parser_idle_def)
  have fits: "fits (a @ b)" "fits a" using accepts_fits [OF assms(2)] by (auto simp: fits_def)
  obtain q r where q: "consume_lines p (buffer p @ a) = (q, Inr (es, r))"
    using feed_ok [OF assms(3) ok fits(2)] by blast
  have fa: "fits (buffer p @ a)" "fits (buffer p @ a @ b)"
    using assms(2) unat_below [of "max_buffer_size p"] by (auto simp: accepts_def fits_def)
  note grow = consume_lines_growth [OF ok fa(1) q]
  have ok1: "parser_ok q" "max_buffer_size q = max_buffer_size p" "suffix r (buffer p @ a)"
    using consume_lines_ok [OF q ok fa(1)] by auto
  have "length (current_data q) + length (r @ b) \<le> unat (max_buffer_size q)"
    using grow es assms(2) ok1(2) by (simp add: accepts_def)
  moreover have "fits (r @ b)" using fa(2) suffix_length_le [OF ok1(3)] by (auto simp: fits_def)
  ultimately obtain q2 e2 r2 where "consume_lines q (r @ b) = (q2, Inr (e2, r2))"
    using consume_lines_room [OF ok1(1)] by blast
  then have "consume_lines p (buffer p @ a @ b) = (q2, Inr (es @ e2, r2))"
    using consume_lines_append [OF q, of b] by simp
  then show False using feed_eq [OF ok fits(1)] assms(2,4) by simp
qed

theorem overflow_loses_no_event_witness:
  "snd (feed (''data:1'' @ [newline])
     (parser_20\<lparr>current_data := replicate 14 (CHR ''a''), has_data := True\<rparr>)) = Inr []"
proof -
  let ?p = "parser_20\<lparr>current_data := replicate 14 (CHR ''a''), has_data := True\<rparr>"
  let ?b = "''data:22222'' @ [newline]"
  obtain p1 es where f: "feed (''data:1'' @ [newline]) ?p = (p1, Inr es)"
    "feed ((''data:1'' @ [newline]) @ ?b) ?p = (snd (p1, fst (feed ((''data:1'' @ [newline]) @ ?b) ?p)),
      Inl (Length_Error ''SseParser event data size limit exceeded''))"
  proof -
    have "feed (''data:1'' @ [newline]) ?p = (fst (feed (''data:1'' @ [newline]) ?p), Inr [])"
      "snd (feed ((''data:1'' @ [newline]) @ ?b) ?p)
        = Inl (Length_Error ''SseParser event data size limit exceeded'')" by code_simp+
    then show ?thesis using that by (metis prod.collapse snd_conv)
  qed
  have "parser_idle ?p" "accepts ?p ((''data:1'' @ [newline]) @ ?b)"
    by (simp_all add: parser_idle_def parser_ok_def accepts_def parser_20_def)
  from overflow_loses_no_event [OF this f] f(1) show ?thesis by simp
qed

text \<open>
  But an exception is not atomic. The lines of the chunk before the one that does not fit have
  been added to the event under construction, while the whole chunk stays in the buffer: a caller
  that goes on reads them a second time (here the line \<open>1\<close>), and meets the same exception.
\<close>

lemma overflow_repeats_lines:
  "(let (p1, r1) = feed (''data:'' @ replicate 14 (CHR ''a'') @ [newline]) parser_20;
       (p2, r2) = feed (''data:1'' @ [newline] @ ''data:22222'' @ [newline]) p1;
       (p3, r3) = feed [] p2
     in r1 = Inr [] \<and> r2 = Inl (Length_Error ''SseParser event data size limit exceeded'') \<and>
       current_data p2 = replicate 14 (CHR ''a'') @ [newline] @ ''1'' \<and>
       buffer p2 = ''data:1'' @ [newline] @ ''data:22222'' @ [newline] \<and>
       r3 = r2 \<and> current_data p3 = replicate 14 (CHR ''a'') @ [newline] @ ''1'' @ [newline] @ ''1'')"
  by code_simp

end
