(* ===== verification/InflightLimiter.thy ===== *)
theory InflightLimiter
  imports Prelude
begin

text \<open>
  \<^verbatim>\<open>controller/src/inflight_limiter.cpp\<close>: the counters of requests in flight and of queued requests,
  and the move-only permits that stand for a slot. The operations on the shared state hold its
  mutex from beginning to end, so each is one function of that state. A permit refers to the state
  weakly: a permit that outlives its limiter releases nothing.

  The objects of a program are a \<open>world\<close>: the limiters that are alive and the permits that exist.
  The lemmas show that the counters are exactly the permits that own a slot, in every sequence of
  operations on any number of limiters and permits, so that the guard against a counter of zero in
  \<open>release\<close> is never needed, and that the limiter is a \<open>slot_pool\<close>, the contract the server uses.
\<close>

subsection \<open>Data\<close>

datatype inflight_decision = Admit | Queue | Reject | Closed

type_synonym addr = nat

text \<open>\<open>Permit::State\<close>, with a callback of any type \<open>'c\<close>.\<close>

record 'c limiter =
  current_inflight :: size_t
  queued_requests :: size_t
  max_inflight :: size_t
  max_queue_size :: size_t
  closed :: bool
  on_release :: "'c option"

record permit =
  pm_state :: "addr option"
  owns_slot :: bool

record inflight_snapshot =
  is_current_inflight :: size_t
  is_queued_requests :: size_t
  is_max_inflight :: size_t
  is_max_queue_size :: size_t
  is_closed :: bool

definition no_permit :: permit where
  "no_permit = \<lparr>pm_state = None, owns_slot = False\<rparr>"

definition new_permit :: "addr \<Rightarrow> permit" where
  "new_permit a = \<lparr>pm_state = Some a, owns_slot = True\<rparr>"

subsection \<open>The limiter\<close>

definition new_limiter :: "size_t \<Rightarrow> size_t \<Rightarrow> 'c limiter result" where
  "new_limiter m q = (if m = 0
     then Inl (Invalid_Argument ''max_inflight must be greater than zero'')
     else Inr \<lparr>current_inflight = 0, queued_requests = 0, max_inflight = m, max_queue_size = q,
       closed = False, on_release = None\<rparr>)"

definition try_acquire_or_queue ::
    "addr \<Rightarrow> 'c limiter \<Rightarrow> (inflight_decision \<times> permit \<times> size_t) \<times> 'c limiter" where
  "try_acquire_or_queue a s =
     (if closed s then ((Closed, no_permit, 0), s)
      else if current_inflight s < max_inflight s then
        ((Admit, new_permit a, 0), s\<lparr>current_inflight := current_inflight s + 1\<rparr>)
      else if queued_requests s < max_queue_size s then
        let s' = s\<lparr>queued_requests := queued_requests s + 1\<rparr>
        in ((Queue, no_permit, queued_requests s'), s')
      else ((Reject, no_permit, 0), s))"

definition try_promote_queued :: "addr \<Rightarrow> 'c limiter \<Rightarrow> permit \<times> 'c limiter" where
  "try_promote_queued a s =
     (if closed s \<or> queued_requests s = 0 \<or> max_inflight s \<le> current_inflight s then (no_permit, s)
      else (new_permit a, s\<lparr>queued_requests := queued_requests s - 1,
                            current_inflight := current_inflight s + 1\<rparr>))"

definition cancel_queued :: "'c limiter \<Rightarrow> bool \<times> 'c limiter" where
  "cancel_queued s = (if queued_requests s = 0 then (False, s)
     else (True, s\<lparr>queued_requests := queued_requests s - 1\<rparr>))"

definition close_limiter :: "'c limiter \<Rightarrow> 'c limiter" where
  "close_limiter s = s\<lparr>closed := True, queued_requests := 0\<rparr>"

definition set_on_release :: "'c option \<Rightarrow> 'c limiter \<Rightarrow> 'c limiter" where
  "set_on_release cb s = s\<lparr>on_release := cb\<rparr>"

definition snapshot :: "'c limiter \<Rightarrow> inflight_snapshot" where
  "snapshot s = \<lparr>is_current_inflight = current_inflight s, is_queued_requests = queued_requests s,
     is_max_inflight = max_inflight s, is_max_queue_size = max_queue_size s, is_closed = closed s\<rparr>"

definition inflight_decision_to_string :: "inflight_decision \<Rightarrow> string" where
  "inflight_decision_to_string d = (case d of Admit \<Rightarrow> ''Admit'' | Queue \<Rightarrow> ''Queue''
     | Reject \<Rightarrow> ''Reject'' | Closed \<Rightarrow> ''Closed'')"

subsection \<open>Permits\<close>

text \<open>
  The part of \<open>release\<close> under the mutex gives the new state and the callback it copied;
  \<open>release_permit\<close> is the whole method, with the limiters that are alive as a map from addresses
  (\<open>weak_ptr::lock\<close> is a lookup) and the callback that is called after the mutex is unlocked as a
  result.
\<close>

definition release_slot :: "'c limiter \<Rightarrow> 'c option \<times> 'c limiter" where
  "release_slot s = (if current_inflight s = 0 then (None, s)
     else (on_release s, s\<lparr>current_inflight := current_inflight s - 1\<rparr>))"

definition release_permit ::
    "permit \<Rightarrow> (addr \<rightharpoonup> 'c limiter) \<Rightarrow> permit \<times> (addr \<rightharpoonup> 'c limiter) \<times> 'c option" where
  "release_permit p h =
     (if \<not> owns_slot p then (p, h, None)
      else let p' = p\<lparr>owns_slot := False\<rparr> in
        case Option.bind (pm_state p) h of
          None \<Rightarrow> (p', h, None)
        | Some s \<Rightarrow> (case release_slot s of
            (cb, s') \<Rightarrow> (p', h(the (pm_state p) \<mapsto> s'), cb)))"

definition valid :: "permit \<Rightarrow> bool" where
  "valid p = owns_slot p"

text \<open>Move construction: the new permit and what is left of the old one.\<close>

definition move_permit :: "permit \<Rightarrow> permit \<times> permit" where
  "move_permit other = (\<lparr>pm_state = pm_state other, owns_slot = owns_slot other\<rparr>,
     other\<lparr>pm_state := None, owns_slot := False\<rparr>)"

text \<open>Move assignment of two different permits (on the same one it does nothing).\<close>

definition assign_permit :: "permit \<Rightarrow> permit \<Rightarrow> (addr \<rightharpoonup> 'c limiter)
    \<Rightarrow> permit \<times> permit \<times> (addr \<rightharpoonup> 'c limiter) \<times> 'c option" where
  "assign_permit this other h = (case release_permit this h of
     (_, h', cb) \<Rightarrow> (\<lparr>pm_state = pm_state other, owns_slot = owns_slot other\<rparr>,
       other\<lparr>pm_state := None, owns_slot := False\<rparr>, h', cb))"

subsection \<open>Worlds\<close>

record 'c world =
  limiters :: "addr \<rightharpoonup> 'c limiter"
  next_addr :: addr
  permits :: "permit list"

text \<open>
  What a program can do with limiters and permits. A limiter is named by its address, a permit by
  its position; a destroyed permit stays in the list as an empty one. \<open>exec_op\<close> gives the callback
  the operation calls, and \<open>None\<close> for an operation on an object that does not exist.
\<close>

datatype 'c limiter_op =
    New_Limiter size_t size_t
  | Drop_Limiter addr
  | Acquire addr
  | Promote addr
  | Cancel addr
  | Close addr
  | Set_On_Release addr "'c option"
  | Release nat
  | Move nat
  | Assign nat nat
  | Destroy nat

definition on_limiter :: "addr \<Rightarrow> 'c world \<Rightarrow> ('c limiter \<Rightarrow> permit list \<times> 'c limiter)
    \<Rightarrow> ('c world \<times> 'c option) option" where
  "on_limiter a w f = (case limiters w a of None \<Rightarrow> None
     | Some s \<Rightarrow> (case f s of (ps, s') \<Rightarrow>
         Some (w\<lparr>limiters := (limiters w)(a \<mapsto> s'), permits := permits w @ ps\<rparr>, None)))"

fun exec_op :: "'c limiter_op \<Rightarrow> 'c world \<Rightarrow> ('c world \<times> 'c option) option" where
  "exec_op (New_Limiter m q) w = (case new_limiter m q of
     Inl _ \<Rightarrow> Some (w, None)
   | Inr s \<Rightarrow> Some (w\<lparr>limiters := (limiters w)(next_addr w \<mapsto> s), next_addr := next_addr w + 1\<rparr>, None))"
| "exec_op (Drop_Limiter a) w = (if limiters w a = None then None
     else Some (w\<lparr>limiters := (limiters w)(a := None)\<rparr>, None))"
| "exec_op (Acquire a) w = on_limiter a w (\<lambda>s. case try_acquire_or_queue a s of ((_, p, _), s') \<Rightarrow> ([p], s'))"
| "exec_op (Promote a) w = on_limiter a w (\<lambda>s. case try_promote_queued a s of (p, s') \<Rightarrow> ([p], s'))"
| "exec_op (Cancel a) w = on_limiter a w (\<lambda>s. ([], snd (cancel_queued s)))"
| "exec_op (Close a) w = on_limiter a w (\<lambda>s. ([], close_limiter s))"
| "exec_op (Set_On_Release a cb) w = on_limiter a w (\<lambda>s. ([], set_on_release cb s))"
| "exec_op (Release i) w = (if length (permits w) \<le> i then None
     else case release_permit (permits w ! i) (limiters w) of
       (p, h, cb) \<Rightarrow> Some (w\<lparr>limiters := h, permits := (permits w)[i := p]\<rparr>, cb))"
| "exec_op (Move i) w = (if length (permits w) \<le> i then None
     else case move_permit (permits w ! i) of
       (p, other) \<Rightarrow> Some (w\<lparr>permits := (permits w)[i := other] @ [p]\<rparr>, None))"
| "exec_op (Assign i j) w = (if length (permits w) \<le> i \<or> length (permits w) \<le> j then None
     else if i = j then Some (w, None)
     else case assign_permit (permits w ! i) (permits w ! j) (limiters w) of
       (p, other, h, cb) \<Rightarrow> Some (w\<lparr>limiters := h, permits := (permits w)[i := p, j := other]\<rparr>, cb))"
| "exec_op (Destroy i) w = (if length (permits w) \<le> i then None
     else case release_permit (permits w ! i) (limiters w) of
       (_, h, cb) \<Rightarrow> Some (w\<lparr>limiters := h, permits := (permits w)[i := no_permit]\<rparr>, cb))"

fun exec_ops :: "'c limiter_op list \<Rightarrow> 'c world \<Rightarrow> 'c world option" where
  "exec_ops [] w = Some w"
| "exec_ops (x # xs) w = (case exec_op x w of None \<Rightarrow> None | Some (w', _) \<Rightarrow> exec_ops xs w')"

definition empty_world :: "'c world" where
  "empty_world = \<lparr>limiters = Map.empty, next_addr = 0, permits = []\<rparr>"

subsection \<open>The invariant\<close>

definition limiter_ok :: "'c limiter \<Rightarrow> bool" where
  "limiter_ok s \<longleftrightarrow> max_inflight s \<noteq> 0 \<and> current_inflight s \<le> max_inflight s \<and>
     queued_requests s \<le> max_queue_size s \<and> (closed s \<longrightarrow> queued_requests s = 0)"

definition holds :: "addr \<Rightarrow> permit \<Rightarrow> bool" where
  "holds a p \<longleftrightarrow> owns_slot p \<and> pm_state p = Some a"

definition held :: "addr \<Rightarrow> permit list \<Rightarrow> nat" where
  "held a ps = length (filter (holds a) ps)"

definition world_ok :: "'c world \<Rightarrow> bool" where
  "world_ok w \<longleftrightarrow>
     (\<forall>a s. limiters w a = Some s \<longrightarrow>
        limiter_ok s \<and> unat (current_inflight s) = held a (permits w) \<and> a < next_addr w) \<and>
     (\<forall>p \<in> set (permits w). \<forall>a. pm_state p = Some a \<longrightarrow> a < next_addr w)"

lemma holds_simps [simp]:
  "\<not> holds a no_permit" "holds a (new_permit b) \<longleftrightarrow> a = b"
  "\<not> holds a (p\<lparr>owns_slot := False\<rparr>)" "\<not> holds a (p\<lparr>pm_state := None, owns_slot := False\<rparr>)"
  "holds a \<lparr>pm_state = pm_state p, owns_slot = owns_slot p\<rparr> \<longleftrightarrow> holds a p"
  by (auto simp: holds_def no_permit_def new_permit_def)

lemma held_simps [simp]:
  "held a [] = 0" "held a (p # ps) = (if holds a p then Suc (held a ps) else held a ps)"
  "held a (ps @ qs) = held a ps + held a qs"
  by (simp_all add: held_def)

lemma held_update: "i < length ps \<Longrightarrow>
    held a (ps[i := p]) + (if holds a (ps ! i) then 1 else 0) = held a ps + (if holds a p then 1 else 0)"
proof (induction ps arbitrary: i)
  case (Cons q qs)
  then show ?case by (cases i) (auto split: if_splits)
qed simp

lemma held_pos: "i < length ps \<Longrightarrow> holds a (ps ! i) \<Longrightarrow> 0 < held a ps"
  using held_update [of i ps a no_permit] by simp

lemma limiter_ok_step:
  assumes "limiter_ok s"
  shows "try_acquire_or_queue a s = ((d, p, n), s') \<Longrightarrow> limiter_ok s' \<and>
      unat (current_inflight s') = unat (current_inflight s) + (if owns_slot p then 1 else 0) \<and>
      (p = no_permit \<or> p = new_permit a)"
    and "try_promote_queued a s = (p, s') \<Longrightarrow> limiter_ok s' \<and>
      unat (current_inflight s') = unat (current_inflight s) + (if owns_slot p then 1 else 0) \<and>
      (p = no_permit \<or> p = new_permit a)"
    and "cancel_queued s = (c, s') \<Longrightarrow> limiter_ok s' \<and> current_inflight s' = current_inflight s"
    and "limiter_ok (close_limiter s)" "current_inflight (close_limiter s) = current_inflight s"
    and "limiter_ok (set_on_release cb s)" "current_inflight (set_on_release cb s) = current_inflight s"
proof -
  have le: "unat (current_inflight s) \<le> unat (max_inflight s)"
    "unat (queued_requests s) \<le> unat (max_queue_size s)"
    using assms by (simp_all add: limiter_ok_def word_le_nat_alt)
  have inc: "unat (n + 1) = Suc (unat n)" if "n < m" for n m :: size_t using that by (rule unat_inc_less)
  show "try_acquire_or_queue a s = ((d, p, n), s') \<Longrightarrow> limiter_ok s' \<and>
      unat (current_inflight s') = unat (current_inflight s) + (if owns_slot p then 1 else 0) \<and>
      (p = no_permit \<or> p = new_permit a)"
    using assms inc [of "current_inflight s"] inc [of "queued_requests s"]
    by (auto simp: try_acquire_or_queue_def limiter_ok_def no_permit_def new_permit_def Let_def
        word_le_nat_alt word_less_nat_alt split: if_splits)
  show "try_promote_queued a s = (p, s') \<Longrightarrow> limiter_ok s' \<and>
      unat (current_inflight s') = unat (current_inflight s) + (if owns_slot p then 1 else 0) \<and>
      (p = no_permit \<or> p = new_permit a)"
    using assms inc [of "current_inflight s" "max_inflight s"] unat_dec_pos [of "queued_requests s"]
    by (auto simp: try_promote_queued_def limiter_ok_def no_permit_def new_permit_def
        word_le_nat_alt word_less_nat_alt not_le split: if_splits)
  show "cancel_queued s = (c, s') \<Longrightarrow> limiter_ok s' \<and> current_inflight s' = current_inflight s"
    using assms unat_dec_pos [of "queued_requests s"]
    by (auto simp: cancel_queued_def limiter_ok_def word_le_nat_alt split: if_splits)
  show "limiter_ok (close_limiter s)" "current_inflight (close_limiter s) = current_inflight s"
    "limiter_ok (set_on_release cb s)" "current_inflight (set_on_release cb s) = current_inflight s"
    using assms by (simp_all add: close_limiter_def set_on_release_def limiter_ok_def)
qed

text \<open>A permit that owns a slot of a live limiter frees exactly that slot.\<close>

lemma release_permit_cases:
  assumes "release_permit p h = (p', h', cb)"
  shows "\<not> owns_slot p' \<and> pm_state p' = pm_state p \<and>
    (if \<exists>a s. holds a p \<and> h a = Some s
     then \<exists>a s. holds a p \<and> h a = Some s \<and> h' = h(a \<mapsto> snd (release_slot s)) \<and> cb = fst (release_slot s)
     else h' = h \<and> cb = None)"
proof (cases "owns_slot p")
  case True
  then show ?thesis using assms
    by (cases "pm_state p") (auto simp: release_permit_def holds_def Let_def split: option.splits prod.splits)
qed (use assms in \<open>auto simp: release_permit_def holds_def\<close>)

lemma release_slot_ok:
  assumes "limiter_ok s" "0 < unat (current_inflight s)"
  shows "limiter_ok (snd (release_slot s)) \<and>
    unat (current_inflight (snd (release_slot s))) = unat (current_inflight s) - 1 \<and>
    fst (release_slot s) = on_release s"
proof -
  have "current_inflight s \<noteq> 0" using assms(2) by auto
  then show ?thesis using assms(1) unat_dec_pos [of "current_inflight s"]
    by (auto simp: release_slot_def limiter_ok_def word_le_nat_alt)
qed

lemma world_ok_release:
  assumes "world_ok w" "i < length (permits w)" "release_permit (permits w ! i) (limiters w) = (p, h, cb)"
    and "q = p \<or> q = no_permit"
  shows "world_ok (w\<lparr>limiters := h, permits := (permits w)[i := q]\<rparr>)"
proof -
  let ?p = "permits w ! i"
  note rel = release_permit_cases [OF assms(3)]
  have q: "\<not> holds a q" for a using rel assms(4) by (auto simp: holds_def no_permit_def)
  have refs: "b < next_addr w" if "r \<in> set ((permits w)[i := q])" "pm_state r = Some b" for r b
    using that set_update_subset_insert [of "permits w" i q] assms rel nth_mem [OF assms(2)]
    by (fastforce simp: world_ok_def no_permit_def)
  have upd: "held b ((permits w)[i := q]) + (if holds b ?p then 1 else 0) = held b (permits w)" for b
    using held_update [OF assms(2), of b q] q by simp
  have lim: "limiter_ok t \<and> unat (current_inflight t) = held b ((permits w)[i := q]) \<and> b < next_addr w"
    if t: "h b = Some t" for b t
  proof (cases "holds b ?p")
    case True
    show ?thesis
    proof (cases "limiters w b")
      case None
      have "holds c ?p \<Longrightarrow> c = b" for c using True by (simp add: holds_def)
      then have "h = limiters w" using rel None by (auto split: if_splits)
      then show ?thesis using t None by simp
    next
      case (Some s)
      then have ok: "limiter_ok s" "unat (current_inflight s) = held b (permits w)" "b < next_addr w"
        using assms(1) by (auto simp: world_ok_def)
      have "\<exists>a s. holds a ?p \<and> limiters w a = Some s" using True Some by blast
      then obtain a s' where "holds a ?p" "limiters w a = Some s'" "h = (limiters w)(a \<mapsto> snd (release_slot s'))"
        using rel by auto
      moreover from this have "a = b" using True by (simp add: holds_def)
      ultimately have "t = snd (release_slot s)" using t Some by simp
      then show ?thesis using release_slot_ok [OF ok(1)] upd [of b] True ok held_pos [OF assms(2) True]
        by simp
    qed
  next
    case False
    then have "limiters w b = Some t" using rel t by (auto split: if_splits)
    then show ?thesis using assms(1) upd [of b] False by (auto simp: world_ok_def)
  qed
  show ?thesis using lim refs by (simp add: world_ok_def)
qed

lemma world_ok_on_limiter:
  assumes "world_ok w" "on_limiter a w f = Some (w', cb)"
    and "\<And>s. limiters w a = Some s \<Longrightarrow> limiter_ok s \<Longrightarrow> limiter_ok (snd (f s)) \<and>
      unat (current_inflight (snd (f s))) = unat (current_inflight s) + held a (fst (f s)) \<and>
      set (fst (f s)) \<subseteq> {no_permit, new_permit a}"
  shows "world_ok w'"
proof -
  obtain s where s: "limiters w a = Some s"
    and w': "w' = w\<lparr>limiters := (limiters w)(a \<mapsto> snd (f s)), permits := permits w @ fst (f s)\<rparr>"
    using assms(2) by (auto simp: on_limiter_def split: option.splits prod.splits)
  have ok: "limiter_ok s" "unat (current_inflight s) = held a (permits w)" "a < next_addr w"
    using assms(1) s by (auto simp: world_ok_def)
  note f = assms(3) [OF s ok(1)]
  have "held b (fst (f s)) = 0" if "b \<noteq> a" for b
    using f that by (auto simp: held_def filter_empty_conv)
  then show ?thesis using assms(1) f ok
    by (auto simp: world_ok_def w' no_permit_def new_permit_def)
qed

lemma world_ok_move:
  assumes "world_ok w" "i < length (permits w)"
  shows "world_ok (w\<lparr>permits := (permits w)[i := (permits w ! i)\<lparr>pm_state := None, owns_slot := False\<rparr>] @
    [\<lparr>pm_state = pm_state (permits w ! i), owns_slot = owns_slot (permits w ! i)\<rparr>]\<rparr>)"
proof -
  let ?p = "permits w ! i" and ?q = "(permits w ! i)\<lparr>pm_state := None, owns_slot := False\<rparr>"
  have "held a ((permits w)[i := ?q]) + (if holds a ?p then 1 else 0) = held a (permits w)" for a
    using held_update [OF assms(2), of a ?q] by simp
  moreover have "a < next_addr w" if "r \<in> set ((permits w)[i := ?q])" "pm_state r = Some a" for r a
    using that set_update_subset_insert [of "permits w" i ?q] assms(1) by (fastforce simp: world_ok_def)
  ultimately show ?thesis using assms nth_mem [OF assms(2)]
    by (fastforce simp: world_ok_def split: if_splits)
qed

lemma world_ok_assign:
  assumes "world_ok w" "i < length (permits w)" "j < length (permits w)" "i \<noteq> j" "\<not> owns_slot (permits w ! i)"
  shows "world_ok (w\<lparr>permits := (permits w)[
    i := \<lparr>pm_state = pm_state (permits w ! j), owns_slot = owns_slot (permits w ! j)\<rparr>,
    j := (permits w ! j)\<lparr>pm_state := None, owns_slot := False\<rparr>]\<rparr>)"
proof -
  let ?c = "\<lparr>pm_state = pm_state (permits w ! j), owns_slot = owns_slot (permits w ! j)\<rparr>"
  let ?e = "(permits w ! j)\<lparr>pm_state := None, owns_slot := False\<rparr>"
  let ?ps = "(permits w)[i := ?c]"
  have "held a (?ps[j := ?e]) = held a (permits w)" for a
    using held_update [OF assms(2), of a ?c] held_update [of j ?ps a ?e] assms(3-5)
    by (simp add: holds_def split: if_splits)
  moreover have "a < next_addr w" if r: "r \<in> set (?ps[j := ?e])" "pm_state r = Some a" for r a
  proof -
    have "r \<in> insert ?e (set ?ps)" using r(1) set_update_subset_insert by (rule rev_subsetD)
    moreover have "set ?ps \<subseteq> insert ?c (set (permits w))" by (rule set_update_subset_insert)
    ultimately have "r = ?e \<or> r = ?c \<or> r \<in> set (permits w)" by blast
    moreover have "pm_state q = Some a \<Longrightarrow> a < next_addr w" if "q \<in> set (permits w)" for q
      using that assms(1) by (simp add: world_ok_def)
    ultimately show ?thesis using r(2) nth_mem [OF assms(3)] by auto
  qed
  ultimately show ?thesis using assms(1) by (simp add: world_ok_def)
qed

lemma held_fresh: "world_ok w \<Longrightarrow> held (next_addr w) (permits w) = 0"
  by (auto simp: held_def filter_empty_conv world_ok_def holds_def)

text \<open>The methods of the limiter.\<close>

lemma world_ok_acquire:
  assumes "world_ok w" "exec_op (Acquire a) w = Some (w', cb)"
  shows "world_ok w'"
proof (rule world_ok_on_limiter [OF assms(1)])
  let ?f = "\<lambda>s. case try_acquire_or_queue a s of ((_, p, _), s') \<Rightarrow> ([p], s')"
  show "on_limiter a w ?f = Some (w', cb)" using assms(2) by simp
  show "limiter_ok (snd (?f s)) \<and> unat (current_inflight (snd (?f s))) = unat (current_inflight s) + held a (fst (?f s)) \<and>
      set (fst (?f s)) \<subseteq> {no_permit, new_permit a}" if "limiter_ok s" for s
    using limiter_ok_step(1) [OF that, of a]
    by (cases "try_acquire_or_queue a s") (force simp: no_permit_def new_permit_def holds_def)
qed

lemma world_ok_promote:
  assumes "world_ok w" "exec_op (Promote a) w = Some (w', cb)"
  shows "world_ok w'"
proof (rule world_ok_on_limiter [OF assms(1)])
  let ?f = "\<lambda>s. case try_promote_queued a s of (p, s') \<Rightarrow> ([p], s')"
  show "on_limiter a w ?f = Some (w', cb)" using assms(2) by simp
  show "limiter_ok (snd (?f s)) \<and> unat (current_inflight (snd (?f s))) = unat (current_inflight s) + held a (fst (?f s)) \<and>
      set (fst (?f s)) \<subseteq> {no_permit, new_permit a}" if "limiter_ok s" for s
    using limiter_ok_step(2) [OF that, of a]
    by (cases "try_promote_queued a s") (force simp: no_permit_def new_permit_def holds_def)
qed

lemma world_ok_update:
  assumes "world_ok w" "on_limiter a w (\<lambda>s. ([], f s)) = Some (w', cb)"
    and "\<And>s. limiter_ok s \<Longrightarrow> limiter_ok (f s) \<and> current_inflight (f s) = current_inflight s"
  shows "world_ok w'"
  by (rule world_ok_on_limiter [OF assms(1,2)]) (simp add: assms(3))

lemma world_ok_exec_op:
  assumes "world_ok w" "exec_op x w = Some (w', cb)"
  shows "world_ok w'"
proof (cases x)
  case (New_Limiter m q)
  then show ?thesis using assms held_fresh [OF assms(1)]
    by (fastforce simp: new_limiter_def world_ok_def limiter_ok_def split: if_splits)
next
  case (Drop_Limiter a)
  then show ?thesis using assms by (auto simp: world_ok_def split: if_splits)
next
  case (Acquire a)
  then show ?thesis using assms world_ok_acquire by blast
next
  case (Promote a)
  then show ?thesis using assms world_ok_promote by blast
next
  case (Cancel a)
  then show ?thesis using assms(2) limiter_ok_step(3) [OF _ prod.collapse [symmetric]]
    by (intro world_ok_update [OF assms(1), of a "\<lambda>s. snd (cancel_queued s)"]) auto
next
  case (Close a)
  then show ?thesis using assms(2) limiter_ok_step(4,5)
    by (intro world_ok_update [OF assms(1), of a close_limiter]) auto
next
  case (Set_On_Release a c)
  then show ?thesis using assms(2) limiter_ok_step(6,7)
    by (intro world_ok_update [OF assms(1), of a "set_on_release c"]) auto
next
  case (Release i)
  then show ?thesis using assms
    by (auto split: if_splits prod.splits intro: world_ok_release)
next
  case (Move i)
  then show ?thesis using assms world_ok_move [OF assms(1), of i]
    by (auto simp: move_permit_def split: if_splits)
next
  case (Destroy i)
  then show ?thesis using assms
    by (auto split: if_splits prod.splits intro: world_ok_release)
next
  case (Assign i j)
  show ?thesis
  proof (cases "i = j")
    case False
    then have ij: "i < length (permits w)" "j < length (permits w)"
      using assms(2) Assign by (auto split: if_splits)
    obtain p h c where r: "release_permit (permits w ! i) (limiters w) = (p, h, c)" by (metis prod_cases3)
    define w1 where "w1 = w\<lparr>limiters := h, permits := (permits w)[i := p]\<rparr>"
    have "world_ok w1" unfolding w1_def using world_ok_release [OF assms(1) ij(1) r] by simp
    moreover have "\<not> owns_slot (permits w1 ! i)"
      using release_permit_cases [OF r] ij by (simp add: w1_def)
    ultimately have "world_ok (w1\<lparr>permits := (permits w1)[
      i := \<lparr>pm_state = pm_state (permits w1 ! j), owns_slot = owns_slot (permits w1 ! j)\<rparr>,
      j := (permits w1 ! j)\<lparr>pm_state := None, owns_slot := False\<rparr>]\<rparr>)"
      using ij False by (intro world_ok_assign) (simp_all add: w1_def)
    then show ?thesis using assms(2) Assign False ij r
      by (simp add: assign_permit_def w1_def)
  qed (use assms Assign in \<open>auto split: if_splits\<close>)
qed

lemma world_ok_exec_ops: "world_ok w \<Longrightarrow> exec_ops xs w = Some w' \<Longrightarrow> world_ok w'"
  by (induction xs arbitrary: w) (auto split: option.splits dest: world_ok_exec_op)

lemma world_ok_empty: "world_ok empty_world"
  by (simp add: world_ok_def empty_world_def)

subsection \<open>The contract of a pool of slots\<close>

text \<open>
  What the server relies on: decisions as functions of the counts, and the effect of each operation
  on them. \<open>ledger\<close> counts what a client was told.
\<close>

record ledger =
  admitted :: nat
  queued :: nat
  promoted :: nat
  cancelled :: nat
  released :: nat

datatype pool_op = Pool_Acquire | Pool_Promote | Pool_Cancel | Pool_Release | Pool_Shutdown

definition empty_ledger :: ledger where
  "empty_ledger = \<lparr>admitted = 0, queued = 0, promoted = 0, cancelled = 0, released = 0\<rparr>"

locale slot_pool =
  fixes ok :: "'s \<Rightarrow> bool" and used waiting cap room :: "'s \<Rightarrow> nat" and shut :: "'s \<Rightarrow> bool"
    and acquire :: "'s \<Rightarrow> inflight_decision \<times> 's" and promote cancel :: "'s \<Rightarrow> bool \<times> 's"
    and release shutdown :: "'s \<Rightarrow> 's"
  assumes bounds: "ok s \<Longrightarrow> used s \<le> cap s \<and> waiting s \<le> room s"
    and acquire: "ok s \<Longrightarrow> acquire s = (d, s') \<Longrightarrow> ok s' \<and> cap s' = cap s \<and> room s' = room s \<and>
      shut s' = shut s \<and>
      d = (if shut s then Closed else if used s < cap s then Admit
           else if waiting s < room s then Queue else Reject) \<and>
      used s' = used s + (if d = Admit then 1 else 0) \<and>
      waiting s' = waiting s + (if d = Queue then 1 else 0)"
    and promote: "ok s \<Longrightarrow> promote s = (b, s') \<Longrightarrow> ok s' \<and> cap s' = cap s \<and> room s' = room s \<and>
      shut s' = shut s \<and> b = (\<not> shut s \<and> 0 < waiting s \<and> used s < cap s) \<and>
      used s' = used s + (if b then 1 else 0) \<and> waiting s' = waiting s - (if b then 1 else 0)"
    and cancel: "ok s \<Longrightarrow> cancel s = (b, s') \<Longrightarrow> ok s' \<and> cap s' = cap s \<and> room s' = room s \<and>
      shut s' = shut s \<and> b = (0 < waiting s) \<and> used s' = used s \<and> waiting s' = waiting s - 1"
    and release: "ok s \<Longrightarrow> 0 < used s \<Longrightarrow> ok (release s) \<and> cap (release s) = cap s \<and>
      room (release s) = room s \<and> shut (release s) = shut s \<and> used (release s) = used s - 1 \<and>
      waiting (release s) = waiting s"
    and shutdown: "ok s \<Longrightarrow> ok (shutdown s) \<and> cap (shutdown s) = cap s \<and> room (shutdown s) = room s \<and>
      shut (shutdown s) \<and> used (shutdown s) = used s \<and> waiting (shutdown s) = 0"
begin

text \<open>A client releases only slots it holds.\<close>

fun pool_step :: "pool_op \<Rightarrow> 's \<times> ledger \<Rightarrow> 's \<times> ledger" where
  "pool_step Pool_Acquire (s, l) = (case acquire s of (d, s') \<Rightarrow>
     (s', if d = Admit then l\<lparr>admitted := admitted l + 1\<rparr>
          else if d = Queue then l\<lparr>queued := queued l + 1\<rparr> else l))"
| "pool_step Pool_Promote (s, l) = (case promote s of (b, s') \<Rightarrow>
     (s', if b then l\<lparr>promoted := promoted l + 1\<rparr> else l))"
| "pool_step Pool_Cancel (s, l) = (case cancel s of (b, s') \<Rightarrow>
     (s', if b then l\<lparr>cancelled := cancelled l + 1\<rparr> else l))"
| "pool_step Pool_Release (s, l) = (if 0 < used s then (release s, l\<lparr>released := released l + 1\<rparr>) else (s, l))"
| "pool_step Pool_Shutdown (s, l) = (shutdown s, l\<lparr>cancelled := cancelled l + waiting s\<rparr>)"

definition balanced :: "'s \<times> ledger \<Rightarrow> bool" where
  "balanced sl \<longleftrightarrow> (case sl of (s, l) \<Rightarrow> ok s \<and>
     used s + released l = admitted l + promoted l \<and>
     waiting s + promoted l + cancelled l = queued l)"

lemma balanced_step: "balanced (s, l) \<Longrightarrow> balanced (pool_step x (s, l)) \<and>
    cap (fst (pool_step x (s, l))) = cap s \<and> room (fst (pool_step x (s, l))) = room s \<and>
    (shut s \<longrightarrow> shut (fst (pool_step x (s, l))) \<and> admitted (snd (pool_step x (s, l))) = admitted l \<and>
      promoted (snd (pool_step x (s, l))) = promoted l)"
proof -
  assume "balanced (s, l)"
  then have ok: "ok s" and bal: "used s + released l = admitted l + promoted l"
    "waiting s + promoted l + cancelled l = queued l" by (simp_all add: balanced_def)
  show ?thesis
  proof (cases x)
    case Pool_Acquire
    obtain d s' where "acquire s = (d, s')" by fastforce
    with acquire [OF ok this] bal Pool_Acquire show ?thesis by (cases d) (auto simp: balanced_def)
  next
    case Pool_Promote
    obtain b s' where "promote s = (b, s')" by fastforce
    with promote [OF ok this] bal Pool_Promote show ?thesis by (cases b) (auto simp: balanced_def)
  next
    case Pool_Cancel
    obtain b s' where "cancel s = (b, s')" by fastforce
    with cancel [OF ok this] bal Pool_Cancel show ?thesis by (cases b) (auto simp: balanced_def)
  next
    case Pool_Release
    with release [OF ok] bal ok show ?thesis by (auto simp: balanced_def)
  next
    case Pool_Shutdown
    with shutdown [OF ok] bal show ?thesis by (auto simp: balanced_def)
  qed
qed

lemma balanced_run: "balanced (s, l) \<Longrightarrow> balanced (fold pool_step xs (s, l)) \<and>
    cap (fst (fold pool_step xs (s, l))) = cap s \<and> room (fst (fold pool_step xs (s, l))) = room s \<and>
    (shut s \<longrightarrow> shut (fst (fold pool_step xs (s, l))) \<and> admitted (snd (fold pool_step xs (s, l))) = admitted l \<and>
      promoted (snd (fold pool_step xs (s, l))) = promoted l)"
proof (induction xs arbitrary: s l)
  case (Cons x xs)
  obtain s1 l1 where s1: "pool_step x (s, l) = (s1, l1)" by fastforce
  show ?case using balanced_step [OF Cons.prems, of x] Cons.IH [of s1 l1] s1 by auto
qed simp

end

definition acquire_slot :: "addr \<Rightarrow> 'c limiter \<Rightarrow> inflight_decision \<times> 'c limiter" where
  "acquire_slot a s = (case try_acquire_or_queue a s of ((d, _, _), s') \<Rightarrow> (d, s'))"

definition promote_slot :: "addr \<Rightarrow> 'c limiter \<Rightarrow> bool \<times> 'c limiter" where
  "promote_slot a s = (case try_promote_queued a s of (p, s') \<Rightarrow> (valid p, s'))"

definition free_slot :: "'c limiter \<Rightarrow> 'c limiter" where
  "free_slot s = snd (release_slot s)"

abbreviation inflight_of :: "'c limiter \<Rightarrow> nat" where
  "inflight_of s \<equiv> unat (current_inflight s)"

abbreviation queued_of :: "'c limiter \<Rightarrow> nat" where
  "queued_of s \<equiv> unat (queued_requests s)"

lemma promote_slot_law:
  assumes "limiter_ok s" "promote_slot a s = (b, s')"
  shows "limiter_ok s' \<and> unat (max_inflight s') = unat (max_inflight s) \<and>
    unat (max_queue_size s') = unat (max_queue_size s) \<and> closed s' = closed s \<and>
    b = (\<not> closed s \<and> 0 < queued_of s \<and> inflight_of s < unat (max_inflight s)) \<and>
    inflight_of s' = inflight_of s + (if b then 1 else 0) \<and>
    queued_of s' = queued_of s - (if b then 1 else 0)"
proof -
  obtain p where p: "try_promote_queued a s = (p, s')" "b = owns_slot p"
    using assms(2) by (auto simp: promote_slot_def valid_def split: prod.splits)
  note ok = limiter_ok_step(2) [OF assms(1) p(1)]
  show ?thesis
  proof (cases "closed s \<or> queued_requests s = 0 \<or> max_inflight s \<le> current_inflight s")
    case True
    then have "s' = s" "\<not> b" using p by (auto simp: try_promote_queued_def no_permit_def)
    then show ?thesis using True assms(1) by (auto simp: word_le_nat_alt)
  next
    case False
    then have "s' = s\<lparr>queued_requests := queued_requests s - 1, current_inflight := current_inflight s + 1\<rparr>" "b"
      using p by (auto simp: try_promote_queued_def new_permit_def)
    then show ?thesis using False ok p(2) unat_dec_pos [of "queued_requests s"]
      by (simp add: word_le_nat_alt unat_gt_0)
  qed
qed

lemma acquire_slot_law:
  assumes "limiter_ok s" "acquire_slot a s = (d, s')"
  shows "limiter_ok s' \<and> unat (max_inflight s') = unat (max_inflight s) \<and>
    unat (max_queue_size s') = unat (max_queue_size s) \<and> closed s' = closed s \<and>
    d = (if closed s then Closed else if inflight_of s < unat (max_inflight s) then Admit
         else if queued_of s < unat (max_queue_size s) then Queue else Reject) \<and>
    inflight_of s' = inflight_of s + (if d = Admit then 1 else 0) \<and>
    queued_of s' = queued_of s + (if d = Queue then 1 else 0)"
proof -
  obtain p n where p: "try_acquire_or_queue a s = ((d, p, n), s')"
    using assms(2) by (auto simp: acquire_slot_def split: prod.splits)
  note ok = limiter_ok_step(1) [OF assms(1) p]
  show ?thesis
  proof (cases "closed s")
    case True
    then show ?thesis using p assms(1) by (auto simp: try_acquire_or_queue_def)
  next
    case op: False
    show ?thesis
    proof (cases "current_inflight s < max_inflight s")
      case True
      then have "d = Admit" "s' = s\<lparr>current_inflight := current_inflight s + 1\<rparr>"
        using p op by (simp_all add: try_acquire_or_queue_def)
      then show ?thesis using True op ok unat_inc_less [OF True] by (simp add: word_less_nat_alt)
    next
      case full: False
      show ?thesis
      proof (cases "queued_requests s < max_queue_size s")
        case True
        then have "d = Queue" "s' = s\<lparr>queued_requests := queued_requests s + 1\<rparr>"
          using p op full by (auto simp: try_acquire_or_queue_def Let_def)
        then show ?thesis using True full op ok unat_inc_less [OF True] by (simp add: word_less_nat_alt)
      next
        case False
        then have "d = Reject" "s' = s" using p op full by (simp_all add: try_acquire_or_queue_def)
        then show ?thesis using False full op assms(1) by (simp add: word_less_nat_alt)
      qed
    qed
  qed
qed

interpretation lim: slot_pool limiter_ok inflight_of queued_of "\<lambda>s. unat (max_inflight s)"
  "\<lambda>s. unat (max_queue_size s)" closed "acquire_slot a" "promote_slot a" cancel_queued free_slot
  close_limiter for a
proof (rule slot_pool.intro)
  fix s s' :: "'c limiter" and b d
  assume ok: "limiter_ok s"
  show "inflight_of s \<le> unat (max_inflight s) \<and> queued_of s \<le> unat (max_queue_size s)"
    using ok by (simp add: limiter_ok_def word_le_nat_alt)
  show "limiter_ok (close_limiter s) \<and> unat (max_inflight (close_limiter s)) = unat (max_inflight s) \<and>
      unat (max_queue_size (close_limiter s)) = unat (max_queue_size s) \<and> closed (close_limiter s) \<and>
      inflight_of (close_limiter s) = inflight_of s \<and> queued_of (close_limiter s) = 0"
    using ok by (simp add: close_limiter_def limiter_ok_def)
  show "limiter_ok (free_slot s) \<and> unat (max_inflight (free_slot s)) = unat (max_inflight s) \<and>
      unat (max_queue_size (free_slot s)) = unat (max_queue_size s) \<and> closed (free_slot s) = closed s \<and>
      inflight_of (free_slot s) = inflight_of s - 1 \<and> queued_of (free_slot s) = queued_of s"
    if "0 < inflight_of s"
    using release_slot_ok [OF ok that] by (auto simp: free_slot_def release_slot_def)
  show "limiter_ok s' \<and> unat (max_inflight s') = unat (max_inflight s) \<and>
      unat (max_queue_size s') = unat (max_queue_size s) \<and> closed s' = closed s \<and>
      b = (0 < queued_of s) \<and> inflight_of s' = inflight_of s \<and> queued_of s' = queued_of s - 1"
    if "cancel_queued s = (b, s')"
    using that limiter_ok_step(3) [OF ok that] unat_dec_pos [of "queued_requests s"]
    by (auto simp: cancel_queued_def unat_gt_0 split: if_splits)
qed (fact promote_slot_law acquire_slot_law)+

lemma new_limiter_fields: "new_limiter m q = Inr s \<Longrightarrow> limiter_ok s \<and> inflight_of s = 0 \<and>
    queued_of s = 0 \<and> max_inflight s = m \<and> max_queue_size s = q \<and> \<not> closed s"
  by (auto simp: new_limiter_def limiter_ok_def split: if_splits)

text \<open>A closed limiter stays closed and admits nobody; its address is not used again.\<close>

definition shut_down :: "addr \<Rightarrow> nat \<Rightarrow> 'c world \<Rightarrow> bool" where
  "shut_down a n w \<longleftrightarrow> a < next_addr w \<and> (\<forall>s. limiters w a = Some s \<longrightarrow>
     closed s \<and> queued_requests s = 0 \<and> inflight_of s \<le> n)"

lemma shut_down_release:
  assumes "world_ok w" "shut_down a n w" "i < length (permits w)"
    and "release_permit (permits w ! i) (limiters w) = (p, h, cb)"
  shows "shut_down a n (w\<lparr>limiters := h, permits := ps\<rparr>)"
proof -
  have "closed t \<and> queued_requests t = 0 \<and> inflight_of t \<le> n" if t: "h a = Some t" for t
  proof (cases "h = limiters w")
    case True
    then show ?thesis using t assms(2) by (simp add: shut_down_def)
  next
    case False
    then obtain b s where b: "holds b (permits w ! i)" "limiters w b = Some s"
      "h = (limiters w)(b \<mapsto> snd (release_slot s))"
      using release_permit_cases [OF assms(4)] by (auto split: if_splits)
    show ?thesis
    proof (cases "b = a")
      case True
      have "0 < inflight_of s" "limiter_ok s"
        using assms(1) b(2) held_pos [OF assms(3) b(1)] by (simp_all add: world_ok_def)
      from release_slot_ok [OF this(2,1)] have "inflight_of t \<le> inflight_of s"
        using t b(3) True by simp
      then show ?thesis using t b assms(2) True by (auto simp: shut_down_def release_slot_def split: if_splits)
    qed (use t b assms(2) in \<open>simp add: shut_down_def\<close>)
  qed
  then show ?thesis using assms(2) by (simp add: shut_down_def)
qed

lemma shut_down_on_limiter:
  assumes "shut_down a n w" "on_limiter b w f = Some (w', cb)"
    and "\<And>s. closed s \<Longrightarrow> queued_requests s = 0 \<Longrightarrow> closed (snd (f s)) \<and>
      queued_requests (snd (f s)) = 0 \<and> current_inflight (snd (f s)) = current_inflight s"
  shows "shut_down a n w'"
proof -
  obtain s where s: "limiters w b = Some s"
    "w' = w\<lparr>limiters := (limiters w)(b \<mapsto> snd (f s)), permits := permits w @ fst (f s)\<rparr>"
    using assms(2) by (auto simp: on_limiter_def split: option.splits prod.splits)
  show ?thesis using assms(1,3) s by (cases "b = a") (auto simp: shut_down_def)
qed

lemma shut_down_exec_op:
  assumes "world_ok w" "shut_down a n w" "exec_op x w = Some (w', cb)"
  shows "shut_down a n w'"
proof (cases x)
  case (Acquire b)
  show ?thesis
    by (rule shut_down_on_limiter [OF assms(2)])
      (use assms(3) Acquire in \<open>auto simp: try_acquire_or_queue_def\<close>)
next
  case (Promote b)
  show ?thesis
    by (rule shut_down_on_limiter [OF assms(2)])
      (use assms(3) Promote in \<open>auto simp: try_promote_queued_def\<close>)
next
  case (Cancel b)
  show ?thesis
    by (rule shut_down_on_limiter [OF assms(2)])
      (use assms(3) Cancel in \<open>auto simp: cancel_queued_def\<close>)
next
  case (Close b)
  show ?thesis
    by (rule shut_down_on_limiter [OF assms(2)])
      (use assms(3) Close in \<open>auto simp: close_limiter_def\<close>)
next
  case (Set_On_Release b c)
  show ?thesis
    by (rule shut_down_on_limiter [OF assms(2)])
      (use assms(3) Set_On_Release in \<open>auto simp: set_on_release_def\<close>)
next
  case (New_Limiter m q)
  then show ?thesis using assms(2,3) by (auto simp: shut_down_def new_limiter_def split: if_splits)
next
  case (Drop_Limiter b)
  then show ?thesis using assms(2,3) by (auto simp: shut_down_def split: if_splits)
next
  case (Move i)
  then show ?thesis using assms(2,3) by (auto simp: shut_down_def move_permit_def split: if_splits)
next
  case (Release i)
  then show ?thesis using assms shut_down_release [OF assms(1,2), of i]
    by (auto split: if_splits prod.splits)
next
  case (Destroy i)
  then show ?thesis using assms shut_down_release [OF assms(1,2), of i]
    by (auto split: if_splits prod.splits)
next
  case (Assign i j)
  obtain p h c where r: "release_permit (permits w ! i) (limiters w) = (p, h, c)" by (metis prod_cases3)
  show ?thesis using assms shut_down_release [OF assms(1,2) _ r] Assign r
    by (auto simp: assign_permit_def split: if_splits)
qed

lemma shut_down_exec_ops:
  "world_ok w \<Longrightarrow> shut_down a n w \<Longrightarrow> exec_ops xs w = Some w' \<Longrightarrow> shut_down a n w'"
  by (induction xs arbitrary: w)
    (auto split: option.splits dest: world_ok_exec_op shut_down_exec_op)

subsection \<open>Properties\<close>

text \<open>
  C13: the counter is the permits. After any sequence of operations on any number of limiters and
  permits (acquiring, promoting, moving, assigning, releasing twice, destroying in any order),
  \<open>current_inflight\<close> of a limiter is exactly the number of permits that own one of its slots, and
  both counters are within their limits.
\<close>

theorem inflight_counts_permits:
  assumes "exec_ops xs empty_world = Some w" "limiters w a = Some s"
  shows "unat (current_inflight s) = held a (permits w) \<and> held a (permits w) \<le> unat (max_inflight s) \<and>
    unat (queued_requests s) \<le> unat (max_queue_size s)"
proof -
  have "world_ok w" using world_ok_exec_ops [OF world_ok_empty assms(1)] .
  then have "limiter_ok s" "unat (current_inflight s) = held a (permits w)"
    using assms(2) by (simp_all add: world_ok_def)
  then show ?thesis by (simp add: limiter_ok_def word_le_nat_alt)
qed

definition demo_ops :: "nat limiter_op list" where
  "demo_ops = [New_Limiter 2 1, Acquire 0, Acquire 0, Acquire 0, Move 0, Assign 1 3, Release 1, Promote 0]"

theorem inflight_counts_permits_witness:
  "\<exists>w s. exec_ops demo_ops empty_world = Some w \<and> limiters w 0 = Some s \<and>
    unat (current_inflight s) = held 0 (permits w) \<and> held 0 (permits w) = 1"
proof -
  define w where "w = the (exec_ops demo_ops empty_world)"
  have w: "exec_ops demo_ops empty_world = Some w"
  proof -
    have "exec_ops demo_ops empty_world \<noteq> None" by code_simp
    then show ?thesis by (simp add: w_def)
  qed
  have "map_option (\<lambda>w. (limiters w 0 \<noteq> None, held 0 (permits w))) (exec_ops demo_ops empty_world)
      = Some (True, 1)" by code_simp
  then obtain s where s: "limiters w 0 = Some s" "held 0 (permits w) = 1" by (auto simp: w)
  show ?thesis using inflight_counts_permits [OF w s(1)] w s by blast
qed

text \<open>
  C14: the ledger of a limiter. Over any sequence of the operations on one limiter, with only held
  slots released, the slots in use and the slots returned are the admissions and promotions, and
  the queue and what left it (promoted or cancelled) are the requests that were queued; the limits
  hold throughout.
\<close>

theorem slot_ledger:
  assumes "new_limiter m q = Inr s0" "fold (lim.pool_step a) ops (s0, empty_ledger) = (s, l)"
  shows "inflight_of s + released l = admitted l + promoted l \<and>
    queued_of s + promoted l + cancelled l = queued l \<and>
    inflight_of s \<le> unat m \<and> queued_of s \<le> unat q"
proof -
  note s0 = new_limiter_fields [OF assms(1)]
  then have "lim.balanced (s0, empty_ledger)" by (simp add: lim.balanced_def empty_ledger_def)
  from lim.balanced_run [OF this, of a ops] assms(2) s0
  have "lim.balanced (s, l)" "unat (max_inflight s) = unat m" "unat (max_queue_size s) = unat q"
    by simp_all
  moreover from this have "limiter_ok s" by (simp add: lim.balanced_def)
  ultimately show ?thesis using lim.bounds [of s] by (simp add: lim.balanced_def)
qed

theorem slot_ledger_witness:
  "\<exists>(s0 :: nat limiter) s l. new_limiter 1 1 = Inr s0 \<and>
    fold (lim.pool_step 0) [Pool_Acquire, Pool_Acquire, Pool_Acquire, Pool_Release, Pool_Promote]
      (s0, empty_ledger) = (s, l) \<and> inflight_of s + released l = admitted l + promoted l"
proof -
  obtain s0 :: "nat limiter" where s0: "new_limiter 1 1 = Inr s0" by (simp add: new_limiter_def)
  obtain s l where f: "fold (lim.pool_step 0)
      [Pool_Acquire, Pool_Acquire, Pool_Acquire, Pool_Release, Pool_Promote] (s0, empty_ledger) = (s, l)"
    by fastforce
  show ?thesis using slot_ledger [OF s0 f] s0 f by blast
qed

text \<open>
  Shutdown is final. Once a limiter is closed, no sequence of operations opens it again, queues
  a request at it or brings its requests in flight above what they were.
\<close>

lemma closed_is_final:
  assumes "exec_ops xs empty_world = Some w" "limiters w a = Some s" "closed s"
    and "exec_ops ys w = Some w'" "limiters w' a = Some s'"
  shows "closed s' \<and> queued_requests s' = 0 \<and> unat (current_inflight s') \<le> unat (current_inflight s) \<and>
    fst (try_acquire_or_queue a s') = (Closed, no_permit, 0) \<and> fst (try_promote_queued a s') = no_permit"
proof -
  have w: "world_ok w" using world_ok_exec_ops [OF world_ok_empty assms(1)] .
  then have "shut_down a (inflight_of s) w" using assms(2,3) by (auto simp: world_ok_def shut_down_def limiter_ok_def)
  from shut_down_exec_ops [OF w this assms(4)] assms(5)
  have "closed s'" "queued_requests s' = 0" "inflight_of s' \<le> inflight_of s"
    by (simp_all add: shut_down_def)
  then show ?thesis by (simp add: try_acquire_or_queue_def try_promote_queued_def)
qed

lemma closed_is_final_witness:
  "\<exists>w s w' s'. exec_ops (demo_ops @ [Close 0]) empty_world = Some w \<and> limiters w 0 = Some s \<and>
    exec_ops [Acquire 0, Promote 0, Destroy 3] w = Some w' \<and> limiters w' 0 = Some s' \<and> closed s' \<and>
    unat (current_inflight s') \<le> unat (current_inflight s)"
proof -
  define w where "w = the (exec_ops (demo_ops @ [Close 0]) empty_world)"
  define w' where "w' = the (exec_ops [Acquire 0, Promote 0, Destroy 3] w)"
  have "map_option (\<lambda>w. (map_option closed (limiters w 0),
      map_option (\<lambda>w'. limiters w' 0 \<noteq> None) (exec_ops [Acquire 0, Promote 0, Destroy 3] w)))
    (exec_ops (demo_ops @ [Close 0]) empty_world) = Some (Some True, Some True)" by code_simp
  then obtain s s' where w: "exec_ops (demo_ops @ [Close 0]) empty_world = Some w"
    and s: "limiters w 0 = Some s" "closed s"
    and w': "exec_ops [Acquire 0, Promote 0, Destroy 3] w = Some w'" "limiters w' 0 = Some s'"
    by (auto simp: w_def w'_def)
  show ?thesis using closed_is_final [OF w s w'] w s w' by blast
qed

text \<open>
  C31: a slot is returned once. Releasing a permit of a reachable world that owns a slot of a live
  limiter lowers its counter by one and calls its callback; the permit is then empty, so that a
  second release (or the destructor) changes nothing and calls nothing.
\<close>

theorem released_once:
  assumes "exec_ops xs empty_world = Some w" "i < length (permits w)"
    and "holds a (permits w ! i)" "limiters w a = Some s"
  shows "\<exists>w' s'. exec_op (Release i) w = Some (w', on_release s) \<and> limiters w' a = Some s' \<and>
    unat (current_inflight s') = unat (current_inflight s) - 1 \<and> current_inflight s \<noteq> 0 \<and>
    \<not> valid (permits w' ! i) \<and> exec_op (Release i) w' = Some (w', None)"
proof -
  have w: "world_ok w" using world_ok_exec_ops [OF world_ok_empty assms(1)] .
  obtain p h cb where r: "release_permit (permits w ! i) (limiters w) = (p, h, cb)" by (metis prod_cases3)
  obtain b t where b: "holds b (permits w ! i)" "limiters w b = Some t"
    "h = (limiters w)(b \<mapsto> snd (release_slot t))" "cb = fst (release_slot t)" "\<not> owns_slot p"
    using release_permit_cases [OF r] assms(3,4) by (auto split: if_splits)
  have "b = a" "t = s" using b(1,2) assms(3,4) by (auto simp: holds_def)
  have "0 < inflight_of s" "limiter_ok s"
    using w assms(4) held_pos [OF assms(2,3)] by (simp_all add: world_ok_def)
  with release_slot_ok [of s] b \<open>b = a\<close> \<open>t = s\<close> r assms(2) show ?thesis
    by (auto simp: valid_def release_permit_def)
qed

definition callback_ops :: "nat limiter_op list" where
  "callback_ops = [New_Limiter 1 0, Set_On_Release 0 (Some 7), Acquire 0]"

theorem released_once_witness:
  "\<exists>w w' s. exec_ops callback_ops empty_world = Some w \<and>
    limiters w 0 = Some s \<and> exec_op (Release 0) w = Some (w', Some 7) \<and>
    exec_op (Release 0) w' = Some (w', None)"
proof -
  define w where "w = the (exec_ops callback_ops empty_world)"
  have "map_option (\<lambda>w. (map_option on_release (limiters w 0), 0 < length (permits w),
      holds 0 (permits w ! 0)))
    (exec_ops callback_ops empty_world) = Some (Some (Some 7), True, True)" by code_simp
  then obtain s where w: "exec_ops callback_ops empty_world = Some w"
    and s: "limiters w 0 = Some s" "on_release s = Some 7" "0 < length (permits w)" "holds 0 (permits w ! 0)"
    by (auto simp: w_def)
  show ?thesis using released_once [OF w s(3,4,1)] w s by metis
qed

end
