(* ===== verification/ProxyMetrics.thy ===== *)
theory ProxyMetrics
  imports SlidingWindow
begin

text \<open>
  \<^verbatim>\<open>controller/src/proxy_metrics.cpp\<close>: the counters of the proxy and the window of times to the first
  token. The counters are 64-bit and wrap around. \<open>record_ttft\<close> takes two locks one after the other
  (its own mutex for the counter, then the window's), so it is two steps, between which the methods
  of other threads may run; every other method is one step.

  The lemmas give the counters and the window after any sequence of calls, through the contract
  \<open>sample_window\<close>, the accuracy of the milliseconds, and what the other threads may observe.
\<close>

subsection \<open>The class\<close>

record proxy_metrics =
  pm_total :: uint64
  pm_completed :: uint64
  pm_failed :: uint64
  pm_first_token_events :: uint64
  pm_last_ttft_ms :: "f64 option"
  pm_ttft_window :: sliding_window

record proxy_metrics_snapshot =
  ps_total_requests :: uint64
  ps_completed_requests :: uint64
  ps_failed_requests :: uint64
  ps_first_token_events :: uint64
  ps_last_ttft_ms :: "f64 option"
  ps_p95_ttft_ms :: "f64 option"

definition new_metrics :: "size_t \<Rightarrow> proxy_metrics result" where
  "new_metrics cap = (case new_window cap of
     Inl e \<Rightarrow> Inl e
   | Inr w \<Rightarrow> Inr \<lparr>pm_total = 0, pm_completed = 0, pm_failed = 0, pm_first_token_events = 0,
       pm_last_ttft_ms = None, pm_ttft_window = w\<rparr>)"

definition record_request_started :: "proxy_metrics \<Rightarrow> proxy_metrics" where
  "record_request_started m = m\<lparr>pm_total := pm_total m + 1\<rparr>"

definition record_request_completed :: "proxy_metrics \<Rightarrow> proxy_metrics" where
  "record_request_completed m = m\<lparr>pm_completed := pm_completed m + 1\<rparr>"

definition record_request_failed :: "proxy_metrics \<Rightarrow> proxy_metrics" where
  "record_request_failed m = m\<lparr>pm_failed := pm_failed m + 1\<rparr>"

text \<open>A difference of two clock readings (nanoseconds) as a \<open>duration<double, milli>\<close>.\<close>

definition milliseconds :: "int \<Rightarrow> f64" where
  "milliseconds d = f_div (f_of_int d) (Fin 1000000)"

definition count_ttft :: "f64 \<Rightarrow> proxy_metrics \<Rightarrow> proxy_metrics" where
  "count_ttft v m = m\<lparr>pm_first_token_events := pm_first_token_events m + 1, pm_last_ttft_ms := Some v\<rparr>"

definition sample_ttft :: "f64 \<Rightarrow> proxy_metrics \<Rightarrow> proxy_metrics result" where
  "sample_ttft v m = (case add_sample v (pm_ttft_window m) of
     Inl e \<Rightarrow> Inl e | Inr w \<Rightarrow> Inr (m\<lparr>pm_ttft_window := w\<rparr>))"

text \<open>The whole method, when no other thread comes between its two steps.\<close>

definition record_ttft :: "int \<Rightarrow> int \<Rightarrow> proxy_metrics \<Rightarrow> proxy_metrics \<times> unit result" where
  "record_ttft request_start first_data_event m =
     (if first_data_event < request_start
      then (m, Inl (Invalid_Argument ''first_data_event must be >= request_start''))
      else let ttft_ms = milliseconds (first_data_event - request_start);
               m1 = count_ttft ttft_ms m
        in case sample_ttft ttft_ms m1 of Inl e \<Rightarrow> (m1, Inl e) | Inr m2 \<Rightarrow> (m2, Inr ()))"

definition metrics_snapshot_of :: "proxy_metrics \<Rightarrow> proxy_metrics_snapshot result" where
  "metrics_snapshot_of m = (case p95 (pm_ttft_window m) of
     Inl e \<Rightarrow> Inl e
   | Inr p \<Rightarrow> Inr \<lparr>ps_total_requests = pm_total m, ps_completed_requests = pm_completed m,
       ps_failed_requests = pm_failed m, ps_first_token_events = pm_first_token_events m,
       ps_last_ttft_ms = pm_last_ttft_ms m, ps_p95_ttft_ms = p\<rparr>)"

definition metrics_ok :: "proxy_metrics \<Rightarrow> bool" where
  "metrics_ok m \<longleftrightarrow> window_ok (pm_ttft_window m)"

subsection \<open>Milliseconds\<close>

lemma milliseconds_bounds:
  assumes "0 < d" "d < 2 ^ 63"
  shows "\<exists>q. milliseconds d = Fin q \<and>
    of_int d / 1000000 * (1 - 1 / 2 ^ 53)\<^sup>2 \<le> q \<and> q \<le> of_int d / 1000000 * (1 + 1 / 2 ^ 53)\<^sup>2"
proof -
  define x :: rat where "x = of_int d"
  have x: "1 \<le> x" "x \<le> 2 ^ 63" using assms by (simp_all add: x_def)
  have tiny: "(2::rat) powi (- 1022) \<le> 2 powi (- 30)" by (rule pow2_le) simp
  have r1: "1 \<le> rnd x" "rnd x \<le> 2 ^ 63"
    using rnd_ge [OF x(1) rnd_1] rnd_le [OF x(2)] rnd_exact [of 1 63] by simp_all
  have b1: "x * (1 - 1 / 2 ^ 53) \<le> rnd x" "rnd x \<le> x * (1 + 1 / 2 ^ 53)"
    using rnd_between [of x] x(1) tiny by simp_all
  define y where "y = rnd x / 1000000"
  have "2 powi (- 1022) \<le> y" using r1 tiny by (simp add: y_def)
  then have b2: "y * (1 - 1 / 2 ^ 53) \<le> rnd y" "rnd y \<le> y * (1 + 1 / 2 ^ 53)"
    using rnd_between [of y] by simp_all
  have "x * (1 - 1 / 2 ^ 53) / 1000000 * (1 - 1 / 2 ^ 53) \<le> y * (1 - 1 / 2 ^ 53)"
    "y * (1 + 1 / 2 ^ 53) \<le> x * (1 + 1 / 2 ^ 53) / 1000000 * (1 + 1 / 2 ^ 53)"
    using b1 unfolding y_def by (intro mult_right_mono divide_right_mono; simp)+
  then have "x / 1000000 * (1 - 1 / 2 ^ 53)\<^sup>2 \<le> rnd y" "rnd y \<le> x / 1000000 * (1 + 1 / 2 ^ 53)\<^sup>2"
    using b2 unfolding power2_eq_square times_divide_eq_left mult.assoc by linarith+
  moreover have "milliseconds d = Fin (rnd y)"
  proof -
    have big: "(2::rat) ^ 63 \<le> 2 ^ 1000" by (rule power_increasing) auto
    have "to_f64 x = Fin (rnd x)" using x big by (intro to_f64_small) linarith
    moreover have "\<bar>y\<bar> \<le> 2 ^ 63" using r1 by (simp add: y_def)
    then have "to_f64 y = Fin (rnd y)" using big by (intro to_f64_small) linarith
    ultimately show ?thesis by (simp add: milliseconds_def f_of_int_def x_def y_def)
  qed
  ultimately show ?thesis by (auto simp: x_def)
qed

lemma milliseconds_finite:
  assumes "0 \<le> d" "d < 2 ^ 63"
  shows "isfinite (milliseconds d)"
proof (cases "d = 0")
  case True
  then show ?thesis by (simp add: milliseconds_def f_of_int_def f64_simps to_f64_le53)
qed (use milliseconds_bounds [of d] assms in auto)

lemma milliseconds_exact:
  assumes "0 \<le> k" "k * 1000000 \<le> 2 ^ 53"
  shows "milliseconds (k * 1000000) = Fin (of_int k)"
proof -
  have k: "\<bar>k\<bar> \<le> 2 ^ 53" "\<bar>k * 1000000\<bar> \<le> 2 ^ 53" using assms by auto
  have "f_of_int (k * 1000000) = Fin (of_int (k * 1000000))"
    using to_f64_of_int [OF k(2)] by (simp add: f_of_int_def)
  then show ?thesis using to_f64_of_int [OF k(1)] by (simp add: milliseconds_def)
qed

subsection \<open>Runs\<close>

text \<open>
  The steps of any number of threads, in the order in which they take the locks. A call of
  \<open>record_ttft\<close> is a \<open>Count\<close> and, later, a \<open>Sample\<close> of the same value; \<open>observed_order\<close> says that no
  sample comes before its count.
\<close>

datatype metrics_step = Started | Completed | Failed | Count f64 | Sample f64

fun apply_step :: "metrics_step \<Rightarrow> proxy_metrics \<Rightarrow> proxy_metrics" where
  "apply_step Started m = record_request_started m"
| "apply_step Completed m = record_request_completed m"
| "apply_step Failed m = record_request_failed m"
| "apply_step (Count v) m = count_ttft v m"
| "apply_step (Sample v) m = (case sample_ttft v m of Inl _ \<Rightarrow> m | Inr m' \<Rightarrow> m')"

definition counts :: "metrics_step list \<Rightarrow> f64 list" where
  "counts xs = List.map_filter (\<lambda>x. case x of Count v \<Rightarrow> Some v | _ \<Rightarrow> None) xs"

definition samples :: "metrics_step list \<Rightarrow> f64 list" where
  "samples xs = List.map_filter (\<lambda>x. case x of Sample v \<Rightarrow> Some v | _ \<Rightarrow> None) xs"

definition observed_order :: "metrics_step list \<Rightarrow> bool" where
  "observed_order xs \<longleftrightarrow> (\<forall>n. mset (samples (take n xs)) \<subseteq># mset (counts (take n xs)))"

definition occurrences :: "metrics_step \<Rightarrow> metrics_step list \<Rightarrow> nat" where
  "occurrences x xs = length (filter (\<lambda>y. y = x) xs)"

lemma step_lists_simps [simp]:
  "counts [] = []" "samples [] = []" "occurrences x [] = 0"
  "counts (xs @ [y]) = counts xs @ (case y of Count v \<Rightarrow> [v] | _ \<Rightarrow> [])"
  "samples (xs @ [y]) = samples xs @ (case y of Sample v \<Rightarrow> [v] | _ \<Rightarrow> [])"
  "occurrences x (xs @ [y]) = occurrences x xs + (if y = x then 1 else 0)"
  by (simp_all add: counts_def samples_def occurrences_def map_filter_def split: metrics_step.splits)

lemma length_counts: "length (counts xs) \<le> length xs"
  by (induction xs rule: rev_induct) (auto split: metrics_step.splits)

lemma run_metrics:
  assumes "new_metrics cap = Inr m0" "m = fold apply_step xs m0"
  shows "metrics_ok m \<and> sw_capacity (pm_ttft_window m) = cap \<and>
    pm_total m = of_nat (occurrences Started xs) \<and> pm_completed m = of_nat (occurrences Completed xs) \<and>
    pm_failed m = of_nat (occurrences Failed xs) \<and>
    pm_first_token_events m = of_nat (length (counts xs)) \<and>
    pm_last_ttft_ms m = (if counts xs = [] then None else Some (last (counts xs))) \<and>
    sw_samples (pm_ttft_window m) = last_n (unat cap) (filter isfinite (samples xs))"
  using assms(2)
proof (induction xs arbitrary: m rule: rev_induct)
  case Nil
  then show ?case using assms(1) new_window_ok [of cap]
    by (auto simp: new_metrics_def new_window_def metrics_ok_def last_n_def split: sum.splits if_splits)
next
  case (snoc x xs)
  define m1 where "m1 = fold apply_step xs m0"
  note IH = snoc.IH [OF m1_def]
  have m: "m = apply_step x m1" using snoc.prems by (simp add: m1_def)
  show ?case
  proof (cases x)
    case (Sample v)
    have ok: "window_ok (pm_ttft_window m1)" using IH by (simp add: metrics_ok_def)
    then have pos: "0 < unat cap" using IH window.bounded [OF ok] by simp
    show ?thesis
    proof (cases "isfinite v")
      case True
      obtain w where w: "add_sample v (pm_ttft_window m1) = Inr w" "window_ok w"
        "sw_samples w = last_n (unat cap) (sw_samples (pm_ttft_window m1) @ [v])" "sw_capacity w = cap"
        using window.add_finite [OF ok True] IH add_sample_capacity by auto
      then have "m = m1\<lparr>pm_ttft_window := w\<rparr>" by (simp add: m Sample sample_ttft_def)
      then show ?thesis using IH w True pos by (simp add: Sample metrics_ok_def last_n_last_n_append)
    next
      case False
      then obtain e where "add_sample v (pm_ttft_window m1) = Inl e" using window.add_refused by blast
      then have "m = m1" by (simp add: m Sample sample_ttft_def)
      then show ?thesis using IH False by (simp add: Sample)
    qed
  qed (use IH in \<open>auto simp: m metrics_ok_def record_request_started_def record_request_completed_def
      record_request_failed_def count_ttft_def\<close>)
qed

lemma p95_defined:
  assumes "window_ok w" "length (sw_samples w) \<le> 2 ^ 40"
  shows "\<exists>x. p95 w = Inr x \<and> (x = None \<longleftrightarrow> sw_samples w = [])"
proof (cases "sw_samples w = []")
  case True
  then show ?thesis by (simp add: p95_def percentile_empty)
next
  case False
  then obtain v where "percentile (Fin (of_int 95)) w = Inr (Some v)"
    using percentile_nearest_rank [OF assms(1) False assms(2), of 95] rnd_95 by auto
  then show ?thesis using False by (simp add: p95_def)
qed

subsection \<open>Properties\<close>

text \<open>
  C34: the account of a run. Whatever the threads do and in whatever order their steps come, each
  counter is the number of its events (modulo \<open>2 ^ 64\<close>), the last time to first token is the last one
  counted, the window holds the newest \<open>cap\<close> samples, and a snapshot never throws and shows a 95th
  percentile exactly when there is a sample.
\<close>

theorem metrics_account:
  assumes "new_metrics cap = Inr m0" "unat cap \<le> 2 ^ 40" "list_all isfinite (samples xs)"
  shows "\<exists>s. metrics_snapshot_of (fold apply_step xs m0) = Inr s \<and>
    ps_total_requests s = of_nat (occurrences Started xs) \<and>
    ps_completed_requests s = of_nat (occurrences Completed xs) \<and>
    ps_failed_requests s = of_nat (occurrences Failed xs) \<and>
    ps_first_token_events s = of_nat (length (counts xs)) \<and>
    ps_last_ttft_ms s = (if counts xs = [] then None else Some (last (counts xs))) \<and>
    (ps_p95_ttft_ms s = None \<longleftrightarrow> samples xs = []) \<and>
    sw_samples (pm_ttft_window (fold apply_step xs m0)) = last_n (unat cap) (samples xs)"
proof -
  define m where "m = fold apply_step xs m0"
  note run = run_metrics [OF assms(1) m_def]
  have fin: "filter isfinite (samples xs) = samples xs"
    using assms(3) by (simp add: list_all_iff filter_id_conv)
  have "0 < unat cap" using window.bounded [of "pm_ttft_window m"] run by (simp add: metrics_ok_def)
  then have empty: "sw_samples (pm_ttft_window m) = [] \<longleftrightarrow> samples xs = []"
    using run fin by simp
  have "length (sw_samples (pm_ttft_window m)) \<le> 2 ^ 40" using run assms(2) by simp
  then obtain x where "p95 (pm_ttft_window m) = Inr x" "x = None \<longleftrightarrow> sw_samples (pm_ttft_window m) = []"
    using p95_defined [of "pm_ttft_window m"] run unfolding metrics_ok_def by blast
  then show ?thesis using run fin empty unfolding m_def [symmetric] by (simp add: metrics_snapshot_of_def)
qed

theorem metrics_account_witness:
  "\<exists>m0 s. new_metrics 256 = Inr m0 \<and> metrics_snapshot_of (fold apply_step
      [Started, Count (Fin 120), Sample (Fin 120), Completed, Started, Failed] m0) = Inr s \<and>
    ps_total_requests s = 2 \<and> ps_completed_requests s = 1 \<and> ps_failed_requests s = 1 \<and>
    ps_last_ttft_ms s = Some (Fin 120)"
proof -
  obtain m0 where m0: "new_metrics 256 = Inr m0" by (simp add: new_metrics_def new_window_def)
  let ?xs = "[Started, Count (Fin 120), Sample (Fin 120), Completed, Started, Failed]"
  have "list_all isfinite (samples ?xs)" by (simp add: samples_def map_filter_def)
  with metrics_account [OF m0, of ?xs] m0 show ?thesis
    by (auto simp: occurrences_def counts_def map_filter_def)
qed

text \<open>
  C35: the time to first token. For clock readings in order, \<open>record_ttft\<close> never throws, adds exactly
  one event and one sample, and the milliseconds are those of the nanosecond difference up to the
  two roundings of the conversion; whole milliseconds (up to \<open>2 ^ 53\<close> ns) are exact. For readings out
  of order it throws and changes nothing.
\<close>

theorem ttft_recorded:
  assumes "metrics_ok m" "clock_ok t0" "clock_ok t1"
  shows "(t1 < t0 \<longrightarrow> record_ttft t0 t1 m =
      (m, Inl (Invalid_Argument ''first_data_event must be >= request_start''))) \<and>
    (t0 \<le> t1 \<longrightarrow> (\<exists>q m'. record_ttft t0 t1 m = (m', Inr ()) \<and> metrics_ok m' \<and>
      pm_last_ttft_ms m' = Some (Fin q) \<and> pm_first_token_events m' = pm_first_token_events m + 1 \<and>
      sw_samples (pm_ttft_window m') =
        last_n (unat (sw_capacity (pm_ttft_window m))) (sw_samples (pm_ttft_window m) @ [Fin q]) \<and>
      (t0 < t1 \<longrightarrow> of_int (t1 - t0) / 1000000 * (1 - 1 / 2 ^ 53)\<^sup>2 \<le> q \<and>
        q \<le> of_int (t1 - t0) / 1000000 * (1 + 1 / 2 ^ 53)\<^sup>2) \<and>
      (\<forall>k. t1 - t0 = k * 1000000 \<and> t1 - t0 \<le> 2 ^ 53 \<longrightarrow> q = of_int k)))"
proof -
  have "\<exists>q m'. record_ttft t0 t1 m = (m', Inr ()) \<and> metrics_ok m' \<and>
      pm_last_ttft_ms m' = Some (Fin q) \<and> pm_first_token_events m' = pm_first_token_events m + 1 \<and>
      sw_samples (pm_ttft_window m') =
        last_n (unat (sw_capacity (pm_ttft_window m))) (sw_samples (pm_ttft_window m) @ [Fin q]) \<and>
      milliseconds (t1 - t0) = Fin q" if "t0 \<le> t1"
  proof -
    have d: "0 \<le> t1 - t0" "t1 - t0 < 2 ^ 63" using assms(2,3) that by (auto simp: clock_ok_def)
    have fin: "isfinite (milliseconds (t1 - t0))" using d by (rule milliseconds_finite)
    then obtain q where q: "milliseconds (t1 - t0) = Fin q" by (auto simp: isfinite_iff)
    have w: "window_ok (pm_ttft_window m)" using assms(1) by (simp add: metrics_ok_def)
    obtain w' where "add_sample (Fin q) (pm_ttft_window m) = Inr w'" "window_ok w'"
      "sw_samples w' = last_n (unat (sw_capacity (pm_ttft_window m))) (sw_samples (pm_ttft_window m) @ [Fin q])"
      using window.add_finite [OF w, of "Fin q"] by auto
    then show ?thesis using q that
      by (simp add: record_ttft_def Let_def sample_ttft_def count_ttft_def metrics_ok_def)
  qed
  moreover have "record_ttft t0 t1 m =
      (m, Inl (Invalid_Argument ''first_data_event must be >= request_start''))" if "t1 < t0"
    using that by (simp add: record_ttft_def)
  moreover have "of_int (t1 - t0) / 1000000 * (1 - 1 / 2 ^ 53)\<^sup>2 \<le> q \<and>
      q \<le> of_int (t1 - t0) / 1000000 * (1 + 1 / 2 ^ 53)\<^sup>2"
    if "milliseconds (t1 - t0) = Fin q" "t0 < t1" for q
    using milliseconds_bounds [of "t1 - t0"] that assms(2,3) by (auto simp: clock_ok_def)
  moreover have "q = of_int k"
    if "milliseconds (t1 - t0) = Fin q" "t0 \<le> t1" "t1 - t0 = k * 1000000" "t1 - t0 \<le> 2 ^ 53" for q k
    using milliseconds_exact [of k] that by auto
  ultimately show ?thesis by (meson linorder_not_le)
qed

theorem ttft_recorded_witness:
  "\<exists>m m'. new_metrics 4 = Inr m \<and> record_ttft 1000000000 1120000000 m = (m', Inr ()) \<and>
    pm_last_ttft_ms m' = Some (Fin 120)"
proof -
  obtain m where m: "new_metrics 4 = Inr m" by (simp add: new_metrics_def new_window_def)
  then have "metrics_ok m" using run_metrics [OF m refl, of "[]"] by simp
  from ttft_recorded [OF this, of 1000000000 1120000000] m show ?thesis
    by (fastforce simp: clock_ok_def)
qed

text \<open>
  What other threads see. In every order of the steps the window never has more samples than
  first-token events counted (as long as the counter has not wrapped around), but it may have fewer:
  between the two locks of \<open>record_ttft\<close> a snapshot reports a first token and its time, and no
  percentile.
\<close>

lemma window_lags_counter:
  assumes "new_metrics cap = Inr m0" "observed_order xs" "length xs < 2 ^ 64"
  shows "length (sw_samples (pm_ttft_window (fold apply_step xs m0)))
      \<le> unat (pm_first_token_events (fold apply_step xs m0)) \<and>
    (\<exists>s. metrics_snapshot_of (fold apply_step [Count (Fin 120)] m0) = Inr s \<and>
      ps_first_token_events s = 1 \<and> ps_last_ttft_ms s = Some (Fin 120) \<and> ps_p95_ttft_ms s = None)"
proof -
  define m where "m = fold apply_step xs m0"
  note run = run_metrics [OF assms(1) m_def]
  have "mset (samples (take (length xs) xs)) \<subseteq># mset (counts (take (length xs) xs))"
    using assms(2) unfolding observed_order_def by blast
  then have "length (samples xs) \<le> length (counts xs)" using size_mset_mono by fastforce
  moreover have "length (counts xs) < 2 ^ 64" using assms(3) length_counts [of xs] by simp
  ultimately have "length (samples xs) \<le> unat (pm_first_token_events m)" using run by (simp add: unat_of_nat)
  moreover have "length (sw_samples (pm_ttft_window m)) \<le> length (samples xs)"
    using run length_filter_le [of isfinite "samples xs"] by (simp add: min_le_iff_disj)
  ultimately have "length (sw_samples (pm_ttft_window m)) \<le> unat (pm_first_token_events m)" by simp
  moreover have "pm_ttft_window (count_ttft v m0) = pm_ttft_window m0" "sw_samples (pm_ttft_window m0) = []"
    "pm_first_token_events m0 = 0" for v
    using run_metrics [OF assms(1), of m0 "[]"] by (simp_all add: count_ttft_def)
  ultimately show ?thesis unfolding m_def
    by (simp add: metrics_snapshot_of_def p95_def percentile_empty) (simp add: count_ttft_def)
qed

lemma window_lags_counter_witness:
  "\<exists>m0. new_metrics 256 = Inr m0 \<and>
    length (sw_samples (pm_ttft_window (fold apply_step [Count (Fin 1), Count (Fin 2), Sample (Fin 2)] m0)))
      \<le> unat (pm_first_token_events (fold apply_step [Count (Fin 1), Count (Fin 2), Sample (Fin 2)] m0))"
proof -
  obtain m0 where m0: "new_metrics 256 = Inr m0" by (simp add: new_metrics_def new_window_def)
  let ?xs = "[Count (Fin 1), Count (Fin 2), Sample (Fin 2)]"
  have "mset (samples (take n ?xs)) \<subseteq># mset (counts (take n ?xs))" for n
    by (cases "n \<in> {0, 1, 2}") (auto simp: counts_def samples_def map_filter_def numeral_2_eq_2)
  then have "observed_order ?xs" by (simp add: observed_order_def)
  then show ?thesis using window_lags_counter [OF m0, of ?xs] m0 by simp
qed

end
