(* ===== verification/ProxyConfig.thy ===== *)
theory ProxyConfig
  imports Prelude "HOL-Library.Char_ord"
begin

text \<open>
  \<^verbatim>\<open>controller/include/vllm_slo/proxy_config.hpp\<close> and the environment of
  \<^verbatim>\<open>controller/src/proxy_main.cpp\<close>: the configuration of the proxy and how the variables of the
  environment (a map from names to strings) change it. \<open>std::stoull\<close> and \<open>std::stoul\<close> are modelled
  as the C library specifies \<open>strtoull\<close>: white space, an optional sign, the longest run of decimal
  digits, a negative number modulo the width, an exception without digits or out of range. The
  width of \<open>unsigned long\<close> (64 bits on Linux, 32 on Windows) is an argument.

  The lemmas show that a decimal number in range is read back exactly and everything else gives the
  fallback or wraps around.
\<close>

subsection \<open>The configuration\<close>

type_synonym port = "16 word"

record proxy_config =
  pc_listen_host :: string
  pc_listen_port :: port
  pc_upstream_host :: string
  pc_upstream_port :: port
  pc_connect_timeout :: int
  pc_read_timeout :: int
  pc_request_timeout :: int
  pc_queue_timeout :: int
  pc_max_inflight :: size_t
  pc_max_queue_size :: size_t
  pc_worker_threads :: size_t
  pc_max_sse_buffer_bytes :: size_t

definition default_proxy_config :: proxy_config where
  "default_proxy_config = \<lparr>pc_listen_host = ''127.0.0.1'', pc_listen_port = 8080,
     pc_upstream_host = ''127.0.0.1'', pc_upstream_port = 8000, pc_connect_timeout = 2000,
     pc_read_timeout = 10000, pc_request_timeout = 30000, pc_queue_timeout = 1000,
     pc_max_inflight = 2, pc_max_queue_size = 8, pc_worker_threads = 1,
     pc_max_sse_buffer_bytes = 1024 * 1024\<rparr>"

subsection \<open>Decimal numbers\<close>

definition is_digit :: "char \<Rightarrow> bool" where
  "is_digit c \<longleftrightarrow> 48 \<le> (of_char c :: nat) \<and> of_char c \<le> (57 :: nat)"

definition digit_value :: "char \<Rightarrow> nat" where
  "digit_value c = of_char c - 48"

fun decimal :: "nat \<Rightarrow> string" where
  "decimal n = (if n < 10 then [char_of (48 + n)] else decimal (n div 10) @ [char_of (48 + n mod 10)])"

declare decimal.simps [simp del]

definition digits_value :: "string \<Rightarrow> nat" where
  "digits_value ds = foldl (\<lambda>n c. 10 * n + digit_value c) 0 ds"

lemma digit_char:
  assumes "n < 10"
  shows "is_digit (char_of (48 + n)) \<and> digit_value (char_of (48 + n)) = n"
proof -
  have "(of_char (char_of (48 + n) :: char) :: nat) = 48 + n" using assms by simp
  then show ?thesis using assms by (simp add: is_digit_def digit_value_def)
qed

lemma decimal_digits: "list_all is_digit (decimal n) \<and> decimal n \<noteq> [] \<and> digits_value (decimal n) = n"
proof (induction n rule: decimal.induct)
  case (1 n)
  show ?case
  proof (cases "n < 10")
    case True
    then show ?thesis using digit_char [OF True] by (simp add: decimal.simps [of n] digits_value_def)
  next
    case False
    have "n mod 10 < 10" by simp
    note d = digit_char [OF this]
    have "digits_value (decimal n) = 10 * digits_value (decimal (n div 10)) + n mod 10"
      using False d by (simp add: decimal.simps [of n] digits_value_def)
    then show ?thesis using 1 False d by (simp add: decimal.simps [of n])
  qed
qed

subsection \<open>The environment\<close>

definition is_space :: "char \<Rightarrow> bool" where
  "is_space c \<longleftrightarrow> c \<in> {CHR '' '', CHR 0x09, CHR 0x0A, CHR 0x0B, CHR 0x0C, CHR 0x0D}"

text \<open>\<open>std::stoull\<close>, \<open>std::stoul\<close> for an unsigned type of \<open>w\<close> bits; \<open>None\<close> is an exception.\<close>

definition sto_unsigned :: "nat \<Rightarrow> string \<Rightarrow> nat option" where
  "sto_unsigned w s =
     (let t = dropWhile is_space s;
          neg = (t \<noteq> [] \<and> hd t = CHR ''-'');
          u = (if t \<noteq> [] \<and> (hd t = CHR ''-'' \<or> hd t = CHR ''+'') then tl t else t);
          ds = takeWhile is_digit u
      in if ds = [] then None
         else let n = digits_value ds in
           if 2 ^ w \<le> n then None
           else Some (if neg then (2 ^ w - n) mod 2 ^ w else n))"

definition parse_size_env :: "(string \<rightharpoonup> string) \<Rightarrow> string \<Rightarrow> size_t \<Rightarrow> size_t" where
  "parse_size_env env name fallback = (case env name of
     None \<Rightarrow> fallback
   | Some value \<Rightarrow> (case sto_unsigned 64 value of None \<Rightarrow> fallback | Some n \<Rightarrow> word_of_nat n))"

definition parse_port_env :: "nat \<Rightarrow> (string \<rightharpoonup> string) \<Rightarrow> string \<Rightarrow> port \<Rightarrow> port" where
  "parse_port_env long_bits env name fallback = (case env name of
     None \<Rightarrow> fallback
   | Some value \<Rightarrow> (case sto_unsigned long_bits value of None \<Rightarrow> fallback | Some n \<Rightarrow> word_of_nat n))"

definition parse_string_env :: "(string \<rightharpoonup> string) \<Rightarrow> string \<Rightarrow> string \<Rightarrow> string" where
  "parse_string_env env name fallback = (case env name of None \<Rightarrow> fallback | Some value \<Rightarrow> value)"

definition load_config :: "nat \<Rightarrow> (string \<rightharpoonup> string) \<Rightarrow> proxy_config" where
  "load_config long_bits env = (let c = default_proxy_config in
     c\<lparr>pc_listen_host := parse_string_env env ''VLLM_SLO_LISTEN_HOST'' (pc_listen_host c),
       pc_listen_port := parse_port_env long_bits env ''VLLM_SLO_LISTEN_PORT'' (pc_listen_port c),
       pc_upstream_host := parse_string_env env ''VLLM_SLO_UPSTREAM_HOST'' (pc_upstream_host c),
       pc_upstream_port := parse_port_env long_bits env ''VLLM_SLO_UPSTREAM_PORT'' (pc_upstream_port c),
       pc_max_inflight := parse_size_env env ''VLLM_SLO_MAX_INFLIGHT'' (pc_max_inflight c),
       pc_max_queue_size := parse_size_env env ''VLLM_SLO_MAX_QUEUE_SIZE'' (pc_max_queue_size c),
       pc_worker_threads := parse_size_env env ''VLLM_SLO_WORKER_THREADS'' (pc_worker_threads c)\<rparr>)"

definition worker_count :: "proxy_config \<Rightarrow> size_t" where
  "worker_count c = max 1 (pc_worker_threads c)"

lemma takeWhile_digits: "list_all is_digit ds \<Longrightarrow> (t = [] \<or> \<not> is_digit (hd t)) \<Longrightarrow>
    takeWhile is_digit (ds @ t) = ds"
  by (induction ds) (cases t; auto)+

lemma digit_not_special: "is_digit c \<Longrightarrow> \<not> is_space c \<and> c \<noteq> CHR ''-'' \<and> c \<noteq> CHR ''+''"
  by (auto simp: is_digit_def is_space_def)

lemma sto_unsigned_decimal:
  assumes "list_all is_space sp" "t = [] \<or> \<not> is_digit (hd t)"
  shows "sto_unsigned w (sp @ decimal n @ t) = (if n < 2 ^ w then Some n else None)"
    and "sto_unsigned w (sp @ CHR ''-'' # decimal n @ t) =
      (if n < 2 ^ w then Some ((2 ^ w - n) mod 2 ^ w) else None)"
proof -
  note d = decimal_digits [of n]
  obtain c cs where c: "decimal n = c # cs" using d by (cases "decimal n") auto
  then have special: "\<not> is_space c" "c \<noteq> CHR ''-''" "c \<noteq> CHR ''+''"
    using d digit_not_special [of c] by simp_all
  have drop: "dropWhile is_space (sp @ u) = u" if "u \<noteq> [] \<and> \<not> is_space (hd u)" for u
    using assms(1) that by (induction sp) (auto simp: neq_Nil_conv)
  have "takeWhile is_digit (decimal n @ t) = decimal n" using d assms(2) by (simp add: takeWhile_digits)
  then show "sto_unsigned w (sp @ decimal n @ t) = (if n < 2 ^ w then Some n else None)"
    "sto_unsigned w (sp @ CHR ''-'' # decimal n @ t) =
      (if n < 2 ^ w then Some ((2 ^ w - n) mod 2 ^ w) else None)"
    using d c special drop [of "decimal n @ t"] drop [of "CHR ''-'' # decimal n @ t"]
    by (auto simp: sto_unsigned_def Let_def is_space_def)
qed

subsection \<open>Properties\<close>

text \<open>
  C37: numbers of the environment. A decimal number, after white space and before anything that is
  not a digit, is read exactly when it fits the type and ignored (the fallback is kept) when it
  does not; a minus sign is accepted and negates the number modulo \<open>2 ^ 64\<close>; a port is cut to its
  16 low bits.
\<close>

theorem environment_numbers:
  assumes "list_all is_space sp" "t = [] \<or> \<not> is_digit (hd t)"
  shows "parse_size_env [name \<mapsto> sp @ decimal n @ t] name fb = (if n < 2 ^ 64 then of_nat n else fb) \<and>
    parse_size_env [name \<mapsto> sp @ CHR ''-'' # decimal n @ t] name fb
      = (if n < 2 ^ 64 then - of_nat n else fb) \<and>
    unat (parse_port_env w [name \<mapsto> sp @ decimal n @ t] name pfb)
      = (if n < 2 ^ w then n mod 2 ^ 16 else unat pfb) \<and>
    parse_size_env Map.empty name fb = fb"
proof -
  have "(of_nat ((2 ^ 64 - n) mod 2 ^ 64) :: size_t) = - of_nat n" if "n < 2 ^ 64"
  proof (cases "n = 0")
    case False
    then have "(of_nat ((2 ^ 64 - n) mod 2 ^ 64) :: size_t) = of_nat (2 ^ 64 - n)" by simp
    also have "\<dots> = of_nat (2 ^ 64) - of_nat n" using that by (intro of_nat_diff) simp
    finally show ?thesis by simp
  qed simp
  then show ?thesis using sto_unsigned_decimal [OF assms]
    by (simp add: parse_size_env_def parse_port_env_def unat_of_nat)
qed

theorem environment_numbers_witness:
  "unat (parse_port_env 64 [''VLLM_SLO_LISTEN_PORT'' \<mapsto> decimal 70000] ''VLLM_SLO_LISTEN_PORT'' 8080) = 4464 \<and>
    parse_size_env [''VLLM_SLO_MAX_INFLIGHT'' \<mapsto> CHR ''-'' # decimal 1] ''VLLM_SLO_MAX_INFLIGHT'' 2 = - 1"
  using environment_numbers [of "[]" "[]" "''VLLM_SLO_LISTEN_PORT''" 70000 _ 64 8080]
    environment_numbers [of "[]" "[]" "''VLLM_SLO_MAX_INFLIGHT''" 1 2]
  by simp

end
