(* ===== verification/ProxyJson.thy ===== *)
theory ProxyJson
  imports ProxyConfig InflightLimiter ProxyMetrics
begin

text \<open>
  The JSON that \<^verbatim>\<open>controller/src/proxy_session.cpp\<close> writes by hand: \<open>json_escape\<close>, the body of an
  error response and the body of \<^verbatim>\<open>/health\<close>. Numbers are printed in decimal as \<open>operator<<\<close> does.

  A scanner of JSON strings, written from the grammar of RFC 8259, reads every escaped text back;
  the strict grammar refuses control characters other than the three that are escaped.
\<close>

subsection \<open>Escaping\<close>

abbreviation quote :: char where "quote \<equiv> CHR 0x22"
abbreviation backslash :: char where "backslash \<equiv> CHR 0x5C"

definition escape_char :: "char \<Rightarrow> string" where
  "escape_char ch =
     (if ch = quote then [backslash, quote]
      else if ch = backslash then [backslash, backslash]
      else if ch = CHR 0x0A then [backslash, CHR ''n'']
      else if ch = CHR 0x0D then [backslash, CHR ''r'']
      else if ch = CHR 0x09 then [backslash, CHR ''t'']
      else [ch])"

definition json_escape :: "string \<Rightarrow> string" where
  "json_escape value = concat (map escape_char value)"

definition error_body :: "string \<Rightarrow> string" where
  "error_body error = [CHR ''{'', quote] @ ''error'' @ [quote, CHR '':'', quote] @ json_escape error
     @ [quote, CHR ''}'']"

text \<open>\<open>field name value\<close> is \<open>"name":value,\<close>.\<close>

definition field :: "string \<Rightarrow> string \<Rightarrow> string" where
  "field name value = [quote] @ name @ [quote, CHR '':''] @ value @ '',''"

definition health_body :: "inflight_snapshot \<Rightarrow> proxy_metrics_snapshot \<Rightarrow> proxy_config \<Rightarrow> string" where
  "health_body limit metrics config = ''{''
     @ field ''status'' ([quote] @ ''ok'' @ [quote])
     @ field ''proxy_healthy'' ''true''
     @ field ''upstream_healthy'' ''null''
     @ field ''current_inflight'' (decimal (unat (is_current_inflight limit)))
     @ field ''queued_requests'' (decimal (unat (is_queued_requests limit)))
     @ field ''max_inflight'' (decimal (unat (is_max_inflight limit)))
     @ field ''max_queue_size'' (decimal (unat (is_max_queue_size limit)))
     @ field ''total_requests'' (decimal (unat (ps_total_requests metrics)))
     @ field ''completed_requests'' (decimal (unat (ps_completed_requests metrics)))
     @ field ''failed_requests'' (decimal (unat (ps_failed_requests metrics)))
     @ [quote] @ ''upstream'' @ [quote, CHR '':'', quote] @ json_escape (pc_upstream_host config) @ '':''
     @ decimal (unat (pc_upstream_port config)) @ [quote] @ ''}''"

subsection \<open>A scanner of JSON strings\<close>

text \<open>
  The characters after the opening quote, up to the closing one: the value and the rest. \<open>strict\<close>
  is the grammar, which allows no control character; without it they stand for themselves.
\<close>

definition control :: "char \<Rightarrow> bool" where
  "control c \<longleftrightarrow> (of_char c :: nat) < 32"

definition unescape :: "char \<Rightarrow> char option" where
  "unescape c = (if c = quote \<or> c = backslash \<or> c = CHR ''/'' then Some c
     else if c = CHR ''n'' then Some (CHR 0x0A) else if c = CHR ''r'' then Some (CHR 0x0D)
     else if c = CHR ''t'' then Some (CHR 0x09) else if c = CHR ''b'' then Some (CHR 0x08)
     else if c = CHR ''f'' then Some (CHR 0x0C) else None)"

fun scan_string :: "bool \<Rightarrow> string \<Rightarrow> (string \<times> string) option" where
  "scan_string strict [] = None"
| "scan_string strict (c # cs) =
     (if c = quote then Some ([], cs)
      else if c = backslash then (case cs of [] \<Rightarrow> None
        | d # ds \<Rightarrow> (case unescape d of None \<Rightarrow> None
          | Some e \<Rightarrow> map_option (\<lambda>(v, r). (e # v, r)) (scan_string strict ds)))
      else if strict \<and> control c then None
      else map_option (\<lambda>(v, r). (c # v, r)) (scan_string strict cs))"

definition escaped_control :: "char \<Rightarrow> bool" where
  "escaped_control c \<longleftrightarrow> c \<in> {CHR 0x09, CHR 0x0A, CHR 0x0D}"

lemma scan_escape_char:
  "scan_string strict (escape_char c @ t) = (if strict \<and> control c \<and> \<not> escaped_control c then None
    else map_option (\<lambda>(v, r). (c # v, r)) (scan_string strict t))"
proof -
  have "\<not> control quote" "\<not> control backslash" by (simp_all add: control_def)
  then show ?thesis by (auto simp: escape_char_def unescape_def escaped_control_def)
qed

lemma scan_json_escape:
  "scan_string strict (json_escape v @ quote # t) =
    (if strict \<and> list_ex (\<lambda>c. control c \<and> \<not> escaped_control c) v then None else Some (v, t))"
  by (induction v) (auto simp: json_escape_def scan_escape_char)

text \<open>
  Objects whose values are strings or bare tokens: \<open>n\<close> bounds the number of members, of which a text
  has fewer than characters.
\<close>

datatype json_value = JString string | JToken string

definition bare_char :: "char \<Rightarrow> bool" where
  "bare_char c \<longleftrightarrow> c \<notin> {CHR '','', CHR ''}'', CHR ''{'', CHR '':'', quote, backslash} \<and> \<not> control c"

definition scan_value :: "bool \<Rightarrow> string \<Rightarrow> (json_value \<times> string) option" where
  "scan_value strict t = (if t \<noteq> [] \<and> hd t = quote
     then map_option (\<lambda>(v, r). (JString v, r)) (scan_string strict (tl t))
     else if takeWhile bare_char t = [] then None
     else Some (JToken (takeWhile bare_char t), dropWhile bare_char t))"

fun scan_members :: "bool \<Rightarrow> nat \<Rightarrow> string \<Rightarrow> (string \<times> json_value) list option" where
  "scan_members strict 0 t = None"
| "scan_members strict (Suc n) t =
     (if t = [] \<or> hd t \<noteq> quote then None
      else case scan_string strict (tl t) of
        None \<Rightarrow> None
      | Some (name, u) \<Rightarrow>
        (if u = [] \<or> hd u \<noteq> CHR '':'' then None
         else case scan_value strict (tl u) of
           None \<Rightarrow> None
         | Some (v, r) \<Rightarrow>
           (if r = ''}'' then Some [(name, v)]
            else if r \<noteq> [] \<and> hd r = CHR '','' then
              map_option (\<lambda>ms. (name, v) # ms) (scan_members strict n (tl r))
            else None)))"

definition scan_object :: "bool \<Rightarrow> string \<Rightarrow> (string \<times> json_value) list option" where
  "scan_object strict t = (if t \<noteq> [] \<and> hd t = CHR ''{'' then scan_members strict (length t) (tl t) else None)"

definition plain :: "string \<Rightarrow> bool" where
  "plain v \<longleftrightarrow> list_all (\<lambda>c. c \<noteq> quote \<and> c \<noteq> backslash \<and> \<not> control c) v"

definition bare :: "string \<Rightarrow> bool" where
  "bare v \<longleftrightarrow> v \<noteq> [] \<and> list_all bare_char v"

lemma scan_plain: "plain v \<Longrightarrow> scan_string strict (v @ quote # t) = Some (v, t)"
  by (induction v) (auto simp: plain_def)

lemma scan_bare:
  assumes "bare v" "t = [] \<or> \<not> bare_char (hd t)"
  shows "scan_value strict (v @ t) = Some (JToken v, t)"
proof -
  have "takeWhile bare_char (v @ t) = v" "dropWhile bare_char (v @ t) = t"
    using assms by (auto simp: bare_def list_all_iff takeWhile_append2 dropWhile_append2 takeWhile_eq_Nil_iff
        dropWhile_eq_self_iff)
  moreover obtain c cs where "v = c # cs" "c \<noteq> quote"
    using assms(1) by (cases v) (auto simp: bare_def bare_char_def)
  ultimately show ?thesis by (simp add: scan_value_def)
qed

lemma comma_not_bare: "\<not> bare_char (CHR '','')" "\<not> bare_char (CHR ''}'')"
  by (simp_all add: bare_char_def)

lemma bare_decimal: "bare (decimal n)"
proof -
  have "bare_char c" if "is_digit c" for c
    using that by (auto simp: bare_char_def is_digit_def control_def)
  then show ?thesis using decimal_digits [of n] by (auto simp: bare_def list_all_iff)
qed

text \<open>A written value: its characters before a comma scan as the value.\<close>

definition writes :: "string \<Rightarrow> json_value \<Rightarrow> bool" where
  "writes raw v \<longleftrightarrow> (\<forall>t. scan_value True (raw @ CHR '','' # t) = Some (v, CHR '','' # t))"

lemma writes_bare: "bare v \<Longrightarrow> writes v (JToken v)"
  by (simp add: writes_def scan_bare comma_not_bare)

lemma writes_plain: "plain v \<Longrightarrow> writes ([quote] @ v @ [quote]) (JString v)"
  by (simp add: writes_def scan_value_def scan_plain)

lemma scan_field: "plain name \<Longrightarrow> writes raw v \<Longrightarrow> scan_members True (Suc n) (field name raw @ t) =
    map_option (\<lambda>ms. (name, v) # ms) (scan_members True n t)"
  by (simp add: field_def scan_plain writes_def)

lemma scan_fields:
  "list_all (\<lambda>(name, raw, v). plain name \<and> writes raw v) fs \<Longrightarrow> scan_members True n t = Some ms \<Longrightarrow>
    scan_members True (length fs + n) (concat (map (\<lambda>(name, raw, v). field name raw) fs) @ t) =
    Some (map (\<lambda>(name, raw, v). (name, v)) fs @ ms)"
  by (induction fs) (auto simp: scan_field simp del: scan_members.simps)

lemma scan_last: "plain name \<Longrightarrow> scan_value True raw = Some (v, ''}'') \<Longrightarrow>
    scan_members True (Suc n) ([quote] @ name @ [quote, CHR '':''] @ raw) = Some [(name, v)]"
  by (simp add: scan_plain)

lemma scan_upstream:
  assumes "\<not> list_ex (\<lambda>c. control c \<and> \<not> escaped_control c) v"
  shows "scan_value True (quote # json_escape v @ '':'' @ decimal n @ quote # t)
    = Some (JString (v @ '':'' @ decimal n), t)"
proof -
  have c: "escape_char c = [c]" "\<not> control c" if "is_digit c \<or> c = CHR '':''" for c
    using that by (auto simp: escape_char_def is_digit_def control_def)
  have "json_escape u = u \<and> \<not> list_ex (\<lambda>c. control c \<and> \<not> escaped_control c) u"
    if "list_all is_digit u" for u
    using that by (induction u) (simp_all add: json_escape_def c)
  then have d: "json_escape ('':'' @ decimal n) = '':'' @ decimal n"
    "\<not> list_ex (\<lambda>c. control c \<and> \<not> escaped_control c) ('':'' @ decimal n)"
    using decimal_digits [of n] c [of "CHR '':''"] by (simp_all add: json_escape_def)
  from d(1) have "json_escape (v @ '':'' @ decimal n) = json_escape v @ '':'' @ decimal n"
    by (simp add: json_escape_def)
  then have "scan_string True (json_escape v @ '':'' @ decimal n @ quote # t) = Some (v @ '':'' @ decimal n, t)"
    using scan_json_escape [of True "v @ '':'' @ decimal n" t] assms
      d(2) by simp
  then show ?thesis by (simp add: scan_value_def)
qed

subsection \<open>Properties\<close>

text \<open>
  C36: escaping is reversible. Scanning an escaped text up to its closing quote gives the text and
  leaves exactly what follows, so no text can end the string early or add a field; by the strict
  grammar this holds exactly for the texts without control characters other than tab, newline and
  carriage return, which the code escapes.
\<close>

theorem escape_roundtrip:
  "scan_string False (json_escape v @ quote # t) = Some (v, t) \<and>
    (scan_string True (json_escape v @ quote # t) = Some (v, t) \<longleftrightarrow>
      \<not> list_ex (\<lambda>c. control c \<and> \<not> escaped_control c) v)"
  by (simp add: scan_json_escape)

text \<open>
  C38: the health report. The body of \<^verbatim>\<open>/health\<close> scans, by the strict grammar, as one object with
  exactly the eleven members of the code: the counters of the limiter and of the metrics in decimal,
  and host and port of the upstream, for every host without unescaped control characters.
\<close>

theorem health_report:
  assumes "\<not> list_ex (\<lambda>c. control c \<and> \<not> escaped_control c) (pc_upstream_host config)"
  shows "scan_object True (health_body limit metrics config) = Some [
    (''status'', JString ''ok''), (''proxy_healthy'', JToken ''true''), (''upstream_healthy'', JToken ''null''),
    (''current_inflight'', JToken (decimal (unat (is_current_inflight limit)))),
    (''queued_requests'', JToken (decimal (unat (is_queued_requests limit)))),
    (''max_inflight'', JToken (decimal (unat (is_max_inflight limit)))),
    (''max_queue_size'', JToken (decimal (unat (is_max_queue_size limit)))),
    (''total_requests'', JToken (decimal (unat (ps_total_requests metrics)))),
    (''completed_requests'', JToken (decimal (unat (ps_completed_requests metrics)))),
    (''failed_requests'', JToken (decimal (unat (ps_failed_requests metrics)))),
    (''upstream'', JString (pc_upstream_host config @ '':'' @ decimal (unat (pc_upstream_port config))))]"
proof -
  have plain: "plain ''status''" "plain ''proxy_healthy''" "plain ''upstream_healthy''"
    "plain ''current_inflight''" "plain ''queued_requests''" "plain ''max_inflight''"
    "plain ''max_queue_size''" "plain ''total_requests''" "plain ''completed_requests''"
    "plain ''failed_requests''" "plain ''upstream''" "plain ''ok''" "bare ''true''" "bare ''null''"
    by code_simp+
  define tail where "tail = [quote] @ ''upstream'' @ [quote, CHR '':''] @ (quote #
    json_escape (pc_upstream_host config) @ '':'' @ decimal (unat (pc_upstream_port config)) @ quote # ''}'')"
  define fs where "fs = [(''status'', [quote] @ ''ok'' @ [quote], JString ''ok''),
    (''proxy_healthy'', ''true'', JToken ''true''), (''upstream_healthy'', ''null'', JToken ''null''),
    (''current_inflight'', decimal (unat (is_current_inflight limit)), JToken (decimal (unat (is_current_inflight limit)))),
    (''queued_requests'', decimal (unat (is_queued_requests limit)), JToken (decimal (unat (is_queued_requests limit)))),
    (''max_inflight'', decimal (unat (is_max_inflight limit)), JToken (decimal (unat (is_max_inflight limit)))),
    (''max_queue_size'', decimal (unat (is_max_queue_size limit)), JToken (decimal (unat (is_max_queue_size limit)))),
    (''total_requests'', decimal (unat (ps_total_requests metrics)), JToken (decimal (unat (ps_total_requests metrics)))),
    (''completed_requests'', decimal (unat (ps_completed_requests metrics)), JToken (decimal (unat (ps_completed_requests metrics)))),
    (''failed_requests'', decimal (unat (ps_failed_requests metrics)), JToken (decimal (unat (ps_failed_requests metrics))))]"
  have ok: "list_all (\<lambda>(name, raw, v). plain name \<and> writes raw v) fs"
    using writes_plain [OF plain(12)] writes_bare [OF plain(13)] writes_bare [OF plain(14)]
    by (simp only: fs_def list.pred_inject prod.case plain writes_bare [OF bare_decimal] simp_thms)
  have body: "health_body limit metrics config = ''{'' @ concat (map (\<lambda>(name, raw, v). field name raw) fs) @ tail"
    by (simp add: health_body_def fs_def tail_def)
  have "10 < length (health_body limit metrics config)"
    by (simp add: health_body_def field_def)
  then obtain n where n: "length (health_body limit metrics config) = length fs + Suc n"
    by (auto simp: fs_def dest!: less_imp_Suc_add)
  have "scan_members True (Suc n) tail = Some [(''upstream'',
      JString (pc_upstream_host config @ '':'' @ decimal (unat (pc_upstream_port config))))]"
    unfolding tail_def by (rule scan_last [OF plain(11) scan_upstream [OF assms]])
  note fields = scan_fields [OF ok this]
  have "scan_object True (health_body limit metrics config)
      = scan_members True (length fs + Suc n) (concat (map (\<lambda>(name, raw, v). field name raw) fs) @ tail)"
    unfolding scan_object_def n by (simp add: body)
  then show ?thesis by (simp only: fields) (simp add: fs_def)
qed

theorem health_report_witness:
  "\<exists>limit metrics. scan_object True (health_body limit metrics default_proxy_config) \<noteq> None"
  using health_report [of default_proxy_config] by (simp add: default_proxy_config_def control_def)

end
