(* ===== verification/ProxySession.thy ===== *)
theory ProxySession
  imports ProxyJson SseParser
begin

text \<open>
  \<^verbatim>\<open>controller/src/proxy_session.cpp\<close>: the handlers of one client connection, over the state of the
  server they share (\<^verbatim>\<open>proxy_server.hpp\<close>).

  Boost's sockets, resolver, timers and HTTP parser are the environment. Starting an asynchronous
  operation adds it to the \<open>s_pending\<close> operations of the session, which keep the session alive as the
  \<open>shared_ptr\<close> in the handler does; its completion is an event that the environment chooses, with
  the outcome the handler reads. Cancelling a timer only marks it: a timer that had expired may
  still complete without an error. What is written to the client while the socket is open is
  logged in \<open>s_out\<close>, what is written to the upstream in \<open>s_upstream\<close>.

  A handler runs to its end before the next one, as with one worker thread (the default). An
  exception that leaves a handler ends the program: \<open>sv_crash\<close>. \<open>sv_alive\<close> says whether the weak
  pointer to the server can be locked, \<open>sv_running\<close> whether the event loop still runs.
\<close>

subsection \<open>Data\<close>

datatype verb = Get | Post | Other_Verb

record http_request =
  rq_method :: verb
  rq_target :: string
  rq_body :: string

text \<open>What the client receives: a whole response, the header of a stream, a part of the stream.\<close>

datatype client_message = Response nat string | Sse_Header | Sse_Chunk string

text \<open>The operations a session may be waiting for; the flag of a timer: it was cancelled.\<close>

datatype async =
    Read_Request
  | Write_Response
  | Write_Error
  | Queue_Timer bool
  | Request_Timer bool
  | Resolve
  | Connect
  | Write_Upstream
  | Read_Header
  | Write_Sse_Header
  | Read_Body
  | Write_Body bool

record session =
  s_client_open :: bool
  s_upstream_open :: bool
  s_request :: http_request
  s_permit :: "permit option"
  s_request_start :: "int option"
  s_sse_parser :: sse_parser
  s_first_data_seen :: bool
  s_queued :: bool
  s_finished :: bool
  s_response_started :: bool
  s_request_counted :: bool
  s_pending :: "async list"
  s_out :: "client_message list"
  s_upstream :: "string list"

text \<open>The closures posted on the server's strand, in order.\<close>

datatype task = Do_Accept | Enqueue nat | Promote_Queued | Stop_Server

record server =
  sv_config :: proxy_config
  sv_limiter :: "unit limiter"
  sv_metrics :: proxy_metrics
  sv_queued_sessions :: "nat list"
  sv_stopping :: bool
  sv_tasks :: "task list"
  sv_accepting :: bool
  sv_sessions :: "nat \<rightharpoonup> session"
  sv_next :: nat
  sv_clock :: int
  sv_crash :: "exn option"
  sv_alive :: bool
  sv_running :: bool

definition ses :: "server \<Rightarrow> nat \<Rightarrow> session" where
  "ses w i = the (sv_sessions w i)"

definition upd :: "nat \<Rightarrow> (session \<Rightarrow> session) \<Rightarrow> server \<Rightarrow> server" where
  "upd i f w = w\<lparr>sv_sessions := (sv_sessions w)(i \<mapsto> f (ses w i))\<rparr>"

definition await :: "async \<Rightarrow> session \<Rightarrow> session" where
  "await a s = s\<lparr>s_pending := a # s_pending s\<rparr>"

definition send_client :: "client_message \<Rightarrow> session \<Rightarrow> session" where
  "send_client m s = (if s_client_open s then s\<lparr>s_out := s_out s @ [m]\<rparr> else s)"

definition post :: "task \<Rightarrow> server \<Rightarrow> server" where
  "post t w = w\<lparr>sv_tasks := sv_tasks w @ [t]\<rparr>"

subsection \<open>Permits and metrics of the server\<close>

text \<open>
  The limiter is the object at address 0, and dies with the server. The callback of
  \<open>set_on_release\<close> posts a promotion.
\<close>

definition limiter_heap :: "server \<Rightarrow> (addr \<rightharpoonup> unit limiter)" where
  "limiter_heap w = (if sv_alive w then [0 \<mapsto> sv_limiter w] else Map.empty)"

definition put_limiter :: "(addr \<rightharpoonup> unit limiter) \<Rightarrow> server \<Rightarrow> server" where
  "put_limiter h w = (case h 0 of None \<Rightarrow> w | Some l \<Rightarrow> w\<lparr>sv_limiter := l\<rparr>)"

definition run_callback :: "unit option \<Rightarrow> server \<Rightarrow> server" where
  "run_callback cb w = (case cb of None \<Rightarrow> w
     | Some _ \<Rightarrow> if sv_alive w then post Promote_Queued w else w)"

definition drop_permit :: "permit \<Rightarrow> server \<Rightarrow> server" where
  "drop_permit p w = (case release_permit p (limiter_heap w) of
     (_, h, cb) \<Rightarrow> run_callback cb (put_limiter h w))"

definition reset_permit :: "nat \<Rightarrow> server \<Rightarrow> server" where
  "reset_permit i w = (case s_permit (ses w i) of
     None \<Rightarrow> w
   | Some p \<Rightarrow> drop_permit p (upd i (\<lambda>s. s\<lparr>s_permit := None\<rparr>) w))"

definition set_permit :: "nat \<Rightarrow> permit \<Rightarrow> server \<Rightarrow> server" where
  "set_permit i p w = (case s_permit (ses w i) of
     None \<Rightarrow> upd i (\<lambda>s. s\<lparr>s_permit := Some (fst (move_permit p))\<rparr>) w
   | Some old \<Rightarrow> (case assign_permit old p (limiter_heap w) of
       (q, _, h, cb) \<Rightarrow> run_callback cb (upd i (\<lambda>s. s\<lparr>s_permit := Some q\<rparr>) (put_limiter h w))))"

definition with_metrics :: "(proxy_metrics \<Rightarrow> proxy_metrics) \<Rightarrow> server \<Rightarrow> server" where
  "with_metrics f w = w\<lparr>sv_metrics := f (sv_metrics w)\<rparr>"

subsection \<open>Closing\<close>

definition close_client :: "nat \<Rightarrow> server \<Rightarrow> server" where
  "close_client i w = upd i (\<lambda>s. s\<lparr>s_client_open := False\<rparr>) w"

definition close_upstream :: "nat \<Rightarrow> server \<Rightarrow> server" where
  "close_upstream i w = upd i (\<lambda>s. s\<lparr>s_upstream_open := False\<rparr>) w"

definition cancel_queue_timer :: "session \<Rightarrow> session" where
  "cancel_queue_timer s = s\<lparr>s_pending :=
     map (\<lambda>a. case a of Queue_Timer _ \<Rightarrow> Queue_Timer True | _ \<Rightarrow> a) (s_pending s)\<rparr>"

definition cancel_request_timer :: "session \<Rightarrow> session" where
  "cancel_request_timer s = s\<lparr>s_pending :=
     map (\<lambda>a. case a of Request_Timer _ \<Rightarrow> Request_Timer True | _ \<Rightarrow> a) (s_pending s)\<rparr>"

definition cancel_timers :: "nat \<Rightarrow> server \<Rightarrow> server" where
  "cancel_timers i w = upd i (\<lambda>s. cancel_queue_timer (cancel_request_timer s)) w"

definition finish_request :: "nat \<Rightarrow> server \<Rightarrow> server" where
  "finish_request i w =
     (if s_finished (ses w i) then w
      else let w1 = upd i (\<lambda>s. s\<lparr>s_finished := True\<rparr>) w;
               w2 = close_upstream i (cancel_timers i w1);
               w3 = (if sv_alive w2 \<and> s_request_counted (ses w2 i)
                     then with_metrics record_request_completed w2 else w2)
        in close_client i (reset_permit i w3))"

definition fail_with_status :: "nat \<Rightarrow> nat \<Rightarrow> string \<Rightarrow> server \<Rightarrow> server" where
  "fail_with_status i status error w =
     (if s_finished (ses w i) then w
      else let w1 = upd i (\<lambda>s. s\<lparr>s_finished := True\<rparr>) w;
               w2 = close_upstream i (cancel_timers i w1);
               w3 = (if sv_alive w2 \<and> s_request_counted (ses w2 i)
                     then with_metrics record_request_failed w2 else w2);
               w4 = reset_permit i w3
        in if s_response_started (ses w4 i) then close_client i w4
           else upd i (\<lambda>s. await Write_Error (send_client (Response status (error_body error)) s)) w4)"

definition send_json_error :: "nat \<Rightarrow> nat \<Rightarrow> string \<Rightarrow> server \<Rightarrow> server" where
  "send_json_error i status error w = fail_with_status i status error w"

definition send_text_response :: "nat \<Rightarrow> nat \<Rightarrow> string \<Rightarrow> server \<Rightarrow> server" where
  "send_text_response i status body w =
     upd i (\<lambda>s. await Write_Response (send_client (Response status body) s)) w"

definition send_health :: "nat \<Rightarrow> server \<Rightarrow> server" where
  "send_health i w = (if \<not> sv_alive w then send_json_error i 503 ''proxy server is stopping'' w
   else case metrics_snapshot_of (sv_metrics w) of
     Inl e \<Rightarrow> w\<lparr>sv_crash := Some e\<rparr>
   | Inr m \<Rightarrow> send_text_response i 200 (health_body (snapshot (sv_limiter w)) m (sv_config w)) w)"

subsection \<open>The proxied request\<close>

definition start_request_timer :: "nat \<Rightarrow> server \<Rightarrow> server" where
  "start_request_timer i w = (if \<not> sv_alive w then w else upd i (await (Request_Timer False)) w)"

definition resolve_upstream :: "nat \<Rightarrow> server \<Rightarrow> server" where
  "resolve_upstream i w = (if \<not> sv_alive w then fail_with_status i 503 ''proxy server is stopping'' w
     else upd i (await Resolve) w)"

definition start_proxy_request :: "nat \<Rightarrow> permit \<Rightarrow> server \<Rightarrow> server" where
  "start_proxy_request i p w =
     (let w1 = set_permit i p w;
          w2 = upd i (\<lambda>s. s\<lparr>s_request_start := Some (sv_clock w1)\<rparr>) w1
      in resolve_upstream i (start_request_timer i w2))"

definition connect_upstream :: "nat \<Rightarrow> server \<Rightarrow> server" where
  "connect_upstream i w = (if \<not> sv_alive w then fail_with_status i 503 ''proxy server is stopping'' w
     else upd i (\<lambda>s. await Connect (s\<lparr>s_upstream_open := True\<rparr>)) w)"

definition write_upstream_request :: "nat \<Rightarrow> server \<Rightarrow> server" where
  "write_upstream_request i w = (if \<not> sv_alive w then fail_with_status i 503 ''proxy server is stopping'' w
     else upd i (\<lambda>s. await Write_Upstream
       (if s_upstream_open s then s\<lparr>s_upstream := s_upstream s @ [rq_body (s_request s)]\<rparr> else s)) w)"

definition read_upstream_header :: "nat \<Rightarrow> server \<Rightarrow> server" where
  "read_upstream_header i w = upd i (await Read_Header) w"

definition write_downstream_sse_header :: "nat \<Rightarrow> server \<Rightarrow> server" where
  "write_downstream_sse_header i w =
     upd i (\<lambda>s. await Write_Sse_Header (send_client Sse_Header (s\<lparr>s_response_started := True\<rparr>))) w"

definition read_upstream_body :: "nat \<Rightarrow> server \<Rightarrow> server" where
  "read_upstream_body i w = (if \<not> sv_alive w then fail_with_status i 503 ''proxy server is stopping'' w
     else upd i (await Read_Body) w)"

definition write_downstream_body :: "nat \<Rightarrow> string \<Rightarrow> bool \<Rightarrow> server \<Rightarrow> server" where
  "write_downstream_body i data upstream_done w =
     (if data = [] \<and> upstream_done then finish_request i w
      else upd i (\<lambda>s. await (Write_Body upstream_done) (send_client (Sse_Chunk data) s)) w)"

text \<open>
  The loop over the events of a chunk: the first with data records the time to first token. An
  exception (of the parser or the metrics) ends the loop and counts as the end of the stream.
\<close>

fun observe_events :: "nat \<Rightarrow> sse_event list \<Rightarrow> bool \<Rightarrow> server \<Rightarrow> server \<times> bool" where
  "observe_events i [] finished w = (w, finished)"
| "observe_events i (e # es) finished w =
     (if \<not> s_first_data_seen (ses w i) \<and> ev_data e \<noteq> [] then
        let w1 = upd i (\<lambda>s. s\<lparr>s_first_data_seen := True\<rparr>) w in
        if \<not> sv_alive w1 then observe_events i es (finished \<or> ev_is_done e) w1
        else case record_ttft (the (s_request_start (ses w1 i))) (sv_clock w1) (sv_metrics w1) of
          (m, Inl _) \<Rightarrow> (w1\<lparr>sv_metrics := m\<rparr>, True)
        | (m, Inr _) \<Rightarrow> observe_events i es (finished \<or> ev_is_done e) (w1\<lparr>sv_metrics := m\<rparr>)
      else observe_events i es (finished \<or> ev_is_done e) w)"

definition observe_sse_chunk :: "nat \<Rightarrow> string \<Rightarrow> server \<Rightarrow> server \<times> bool" where
  "observe_sse_chunk i data w = (case feed data (s_sse_parser (ses w i)) of
     (p, r) \<Rightarrow> let w1 = upd i (\<lambda>s. s\<lparr>s_sse_parser := p\<rparr>) w in
       (case r of Inl _ \<Rightarrow> (w1, True) | Inr events \<Rightarrow> observe_events i events False w1))"

subsection \<open>Handling a request\<close>

definition handle_request :: "nat \<Rightarrow> server \<Rightarrow> server" where
  "handle_request i w =
     (let rq = s_request (ses w i) in
      if rq_target rq = ''/health'' then
        (if rq_method rq \<noteq> Get then send_json_error i 405 ''GET required for /health'' w
         else send_health i w)
      else if rq_target rq \<noteq> ''/v1/chat/completions'' then send_json_error i 404 ''unsupported path'' w
      else if rq_method rq \<noteq> Post
      then send_json_error i 405 ''POST required for /v1/chat/completions'' w
      else if \<not> sv_alive w then send_json_error i 503 ''proxy server is stopping'' w
      else let w1 = upd i (\<lambda>s. s\<lparr>s_request_counted := True\<rparr>) (with_metrics record_request_started w)
        in case try_acquire_or_queue 0 (sv_limiter w1) of ((decision, p, _), l) \<Rightarrow>
          let w2 = w1\<lparr>sv_limiter := l\<rparr> in
          (case decision of
             Admit \<Rightarrow> start_proxy_request i p w2
           | Queue \<Rightarrow> post (Enqueue i) w2
           | Closed \<Rightarrow> send_json_error i 503 ''proxy is shutting down'' w2
           | Reject \<Rightarrow> send_json_error i 429 ''admission queue is full'' w2))"

definition start_queue_timer :: "nat \<Rightarrow> server \<Rightarrow> server" where
  "start_queue_timer i w = (let w1 = upd i (\<lambda>s. s\<lparr>s_queued := True\<rparr>) w in
     if \<not> sv_alive w1 then close_client i w1 else upd i (await (Queue_Timer False)) w1)"

definition is_queued :: "nat \<Rightarrow> server \<Rightarrow> bool" where
  "is_queued i w = s_queued (ses w i)"

definition try_start_from_queue :: "nat \<Rightarrow> permit \<Rightarrow> server \<Rightarrow> server \<times> bool" where
  "try_start_from_queue i p w =
     (if \<not> s_queued (ses w i) \<or> s_finished (ses w i) then (w, False)
      else (start_proxy_request i p (upd i (\<lambda>s. cancel_queue_timer (s\<lparr>s_queued := False\<rparr>)) w), True))"

subsection \<open>Completions\<close>

text \<open>
  The outcome of an asynchronous operation, as the lambda of the code sees it (one definition for
  each lambda): a request or an error,
  \<open>True\<close> for success, for a timer \<open>True\<close> when it expired and \<open>False\<close> when it was cancelled, for the
  body the error code, whether the HTTP parser is done, and the bytes it put into the buffer.
\<close>

datatype body_error = No_Error | Need_Buffer | End_Of_Stream | Other_Error

datatype completion =
    Request_Read "http_request option"
  | Response_Written bool
  | Error_Written bool
  | Queue_Timer_Done bool
  | Request_Timer_Done bool
  | Resolved bool
  | Connected bool
  | Upstream_Written bool
  | Header_Read "nat option"
  | Sse_Header_Written bool
  | Body_Read body_error bool string
  | Body_Written bool bool

definition on_read_request :: "nat \<Rightarrow> http_request option \<Rightarrow> server \<Rightarrow> server" where [simp]:
  "on_read_request i request w =
     (case request of
        None \<Rightarrow> upd i (\<lambda>s. s\<lparr>s_finished := True\<rparr>) w
      | Some rq \<Rightarrow> handle_request i (upd i (\<lambda>s. s\<lparr>s_request := rq\<rparr>) w))"

definition on_response_written :: "nat \<Rightarrow> server \<Rightarrow> server" where [simp]:
  "on_response_written i w = close_client i (upd i (\<lambda>s. s\<lparr>s_finished := True\<rparr>) w)"

definition on_error_written :: "nat \<Rightarrow> server \<Rightarrow> server" where [simp]:
  "on_error_written i w = close_client i w"

definition on_queue_timer :: "nat \<Rightarrow> bool \<Rightarrow> server \<Rightarrow> server" where [simp]:
  "on_queue_timer i expired w =
     (if \<not> expired \<or> \<not> s_queued (ses w i) then w
      else let w1 = (if sv_alive w then w\<lparr>sv_limiter := snd (cancel_queued (sv_limiter w))\<rparr> else w);
               w2 = upd i (\<lambda>s. s\<lparr>s_queued := False\<rparr>) w1
        in send_json_error i 429 ''queue timeout'' w2)"

definition on_request_timer :: "nat \<Rightarrow> bool \<Rightarrow> server \<Rightarrow> server" where [simp]:
  "on_request_timer i expired w =
     (if \<not> expired \<or> s_finished (ses w i) then w else fail_with_status i 504 ''request timeout'' w)"

definition on_resolved :: "nat \<Rightarrow> bool \<Rightarrow> server \<Rightarrow> server" where [simp]:
  "on_resolved i ok w =
     (if \<not> ok then fail_with_status i 503 ''upstream resolve failed'' w else connect_upstream i w)"

definition on_connected :: "nat \<Rightarrow> bool \<Rightarrow> server \<Rightarrow> server" where [simp]:
  "on_connected i ok w =
     (if \<not> ok then fail_with_status i 503 ''upstream connect failed'' w else write_upstream_request i w)"

definition on_upstream_written :: "nat \<Rightarrow> bool \<Rightarrow> server \<Rightarrow> server" where [simp]:
  "on_upstream_written i ok w =
     (if \<not> ok then fail_with_status i 503 ''upstream write failed'' w else read_upstream_header i w)"

definition on_header_read :: "nat \<Rightarrow> nat option \<Rightarrow> server \<Rightarrow> server" where [simp]:
  "on_header_read i status w =
     (case status of
        None \<Rightarrow> fail_with_status i 503 ''upstream header read failed'' w
      | Some c \<Rightarrow> if c \<noteq> 200 then fail_with_status i 503 ''upstream returned non-200'' w
          else write_downstream_sse_header i w)"

definition on_sse_header_written :: "nat \<Rightarrow> bool \<Rightarrow> server \<Rightarrow> server" where [simp]:
  "on_sse_header_written i ok w = (if \<not> ok then finish_request i w else read_upstream_body i w)"

definition on_body_read :: "nat \<Rightarrow> body_error \<Rightarrow> bool \<Rightarrow> string \<Rightarrow> server \<Rightarrow> server" where [simp]:
  "on_body_read i ec is_done bytes w =
     (if ec = Need_Buffer then read_upstream_body i w
      else if ec = End_Of_Stream \<or> is_done then write_downstream_body i [] True w
      else if ec = Other_Error then fail_with_status i 503 ''upstream body read failed'' w
      else case observe_sse_chunk i bytes w of (w1, stop) \<Rightarrow> write_downstream_body i bytes stop w1)"

definition on_body_written :: "nat \<Rightarrow> bool \<Rightarrow> bool \<Rightarrow> server \<Rightarrow> server" where [simp]:
  "on_body_written i ok upstream_done w =
     (if \<not> ok then fail_with_status i 503 ''downstream write failed'' w
      else if upstream_done then finish_request i w else read_upstream_body i w)"

fun on_completion :: "nat \<Rightarrow> completion \<Rightarrow> server \<Rightarrow> server" where
  "on_completion i (Request_Read rq) w = on_read_request i rq w"
| "on_completion i (Response_Written _) w = on_response_written i w"
| "on_completion i (Error_Written _) w = on_error_written i w"
| "on_completion i (Queue_Timer_Done expired) w = on_queue_timer i expired w"
| "on_completion i (Request_Timer_Done expired) w = on_request_timer i expired w"
| "on_completion i (Resolved ok) w = on_resolved i ok w"
| "on_completion i (Connected ok) w = on_connected i ok w"
| "on_completion i (Upstream_Written ok) w = on_upstream_written i ok w"
| "on_completion i (Header_Read status) w = on_header_read i status w"
| "on_completion i (Sse_Header_Written ok) w = on_sse_header_written i ok w"
| "on_completion i (Body_Read ec is_done bytes) w = on_body_read i ec is_done bytes w"
| "on_completion i (Body_Written ok upstream_done) w = on_body_written i ok upstream_done w"

text \<open>The pending operations that a completion can belong to.\<close>

fun completes :: "completion \<Rightarrow> async \<Rightarrow> bool" where
  "completes (Request_Read _) a = (a = Read_Request)"
| "completes (Response_Written _) a = (a = Write_Response)"
| "completes (Error_Written _) a = (a = Write_Error)"
| "completes (Queue_Timer_Done expired) a = (a = Queue_Timer True \<or> expired \<and> a = Queue_Timer False)"
| "completes (Request_Timer_Done expired) a = (a = Request_Timer True \<or> expired \<and> a = Request_Timer False)"
| "completes (Resolved _) a = (a = Resolve)"
| "completes (Connected _) a = (a = Connect)"
| "completes (Upstream_Written _) a = (a = Write_Upstream)"
| "completes (Header_Read _) a = (a = Read_Header)"
| "completes (Sse_Header_Written _) a = (a = Write_Sse_Header)"
| "completes (Body_Read _ _ _) a = (a = Read_Body)"
| "completes (Body_Written _ d) a = (a = Write_Body d)"

definition new_session :: "sse_parser \<Rightarrow> session" where
  "new_session p = \<lparr>s_client_open = True, s_upstream_open = False,
     s_request = \<lparr>rq_method = Other_Verb, rq_target = [], rq_body = []\<rparr>, s_permit = None,
     s_request_start = None, s_sse_parser = p, s_first_data_seen = False, s_queued = False,
     s_finished = False, s_response_started = False, s_request_counted = False, s_pending = [],
     s_out = [], s_upstream = []\<rparr>"

text \<open>A new session reads its request.\<close>

definition do_read_request :: "session \<Rightarrow> session" where [simp]:
  "do_read_request s = await Read_Request s"

definition session_start :: "session \<Rightarrow> session" where [simp]:
  "session_start s = do_read_request s"

text \<open>The destructor of a session, and of its permit.\<close>

definition destroy_session :: "nat \<Rightarrow> server \<Rightarrow> server" where
  "destroy_session i w =
     (let w1 = (if s_queued (ses w i) \<and> sv_alive w
                then w\<lparr>sv_limiter := snd (cancel_queued (sv_limiter w))\<rparr> else w);
          w2 = reset_permit i w1
      in w2\<lparr>sv_sessions := (sv_sessions w2)(i := None)\<rparr>)"

end
