(* ===== verification/ProxyServer.thy ===== *)
theory ProxyServer
  imports ProxySession
begin

text \<open>
  \<^verbatim>\<open>controller/src/proxy_server.cpp\<close> and the main function of \<^verbatim>\<open>controller/src/proxy_main.cpp\<close>: the
  server's construction, its accept loop, the queue of waiting sessions and its promotion, and the
  event loop. The closures posted on the strand run in the order of posting. A queued session is
  known to the server by a weak pointer, here its number.
\<close>

subsection \<open>Construction\<close>

definition make_server :: "proxy_config \<Rightarrow> server result" where
  "make_server config = (case new_limiter (pc_max_inflight config) (pc_max_queue_size config) of
     Inl e \<Rightarrow> Inl e
   | Inr l \<Rightarrow> (case new_metrics 256 of
       Inl e \<Rightarrow> Inl e
     | Inr m \<Rightarrow> Inr \<lparr>sv_config = config, sv_limiter = l, sv_metrics = m, sv_queued_sessions = [],
         sv_stopping = False, sv_tasks = [], sv_accepting = False, sv_sessions = Map.empty, sv_next = 0,
         sv_clock = 0, sv_crash = None, sv_alive = True, sv_running = True\<rparr>))"

text \<open>\<open>listening\<close>: whether opening, binding and listening on the endpoint succeeds.\<close>

definition start_server :: "bool \<Rightarrow> server \<Rightarrow> server option" where
  "start_server listening w = (if \<not> listening then None
     else Some (post Do_Accept (w\<lparr>sv_limiter := set_on_release (Some ()) (sv_limiter w)\<rparr>)))"

subsection \<open>The queue\<close>

definition enqueue_session :: "nat \<Rightarrow> server \<Rightarrow> server" where
  "enqueue_session i w = (if sv_stopping w then close_client i w
     else start_queue_timer i (w\<lparr>sv_queued_sessions := sv_queued_sessions w @ [i]\<rparr>))"

fun promote_loop :: "nat list \<Rightarrow> server \<Rightarrow> server" where
  "promote_loop [] w = w\<lparr>sv_queued_sessions := []\<rparr>"
| "promote_loop (i # q) w =
     (if sv_sessions w i = None then promote_loop q w
      else if \<not> is_queued i w then promote_loop q w
      else case try_promote_queued 0 (sv_limiter w) of (p, l) \<Rightarrow>
        let w1 = w\<lparr>sv_limiter := l\<rparr> in
        if \<not> valid p then
          (if is_queued_requests (snapshot (sv_limiter w1)) = 0 then promote_loop q w1
           else w1\<lparr>sv_queued_sessions := i # q\<rparr>)
        else case try_start_from_queue i p w1 of
          (w2, True) \<Rightarrow> promote_loop q w2
        | (w2, False) \<Rightarrow> promote_loop q (drop_permit p w2))"

definition promote_queued_sessions :: "server \<Rightarrow> server" where
  "promote_queued_sessions w = promote_loop (sv_queued_sessions w) w"

fun close_clients :: "nat list \<Rightarrow> server \<Rightarrow> server" where
  "close_clients [] w = w"
| "close_clients (i # q) w = close_clients q (if sv_sessions w i = None then w else close_client i w)"

definition stop_server :: "server \<Rightarrow> server" where
  "stop_server w =
     (let w1 = w\<lparr>sv_stopping := True, sv_limiter := close_limiter (sv_limiter w)\<rparr>
      in (close_clients (sv_queued_sessions w1) w1)\<lparr>sv_queued_sessions := []\<rparr>)"

subsection \<open>Accepting\<close>

definition do_accept :: "server \<Rightarrow> server" where
  "do_accept w = w\<lparr>sv_accepting := True\<rparr>"

definition start_session :: "server \<Rightarrow> server" where
  "start_session w = (case new_parser (if sv_alive w then pc_max_sse_buffer_bytes (sv_config w) else 1024 * 1024) of
     Inl e \<Rightarrow> w\<lparr>sv_crash := Some e\<rparr>
   | Inr p \<Rightarrow> w\<lparr>sv_sessions := (sv_sessions w)(sv_next w \<mapsto> session_start (new_session p)),
       sv_next := sv_next w + 1\<rparr>)"

definition on_accept :: "bool \<Rightarrow> server \<Rightarrow> server" where
  "on_accept ok w =
     (let w1 = (if ok then start_session w else w)
      in if sv_crash w1 = None \<and> \<not> sv_stopping w1 then do_accept w1 else w1)"

subsection \<open>The event loop\<close>

text \<open>
  What can happen next: the time passes, a connection arrives, a pending operation completes, the
  strand runs its next closure, \<open>stop\<close> is called, or a signal arrives (whose handler calls \<open>stop\<close>
  and then ends the loop). \<open>None\<close>: the event is not possible in this state.
\<close>

datatype event =
    Tick nat
  | Accepted bool
  | Complete nat async completion
  | Run_Task
  | Stop_Call
  | Signal

text \<open>A session dies when no handler and no posted closure holds it.\<close>

definition reap :: "nat \<Rightarrow> server \<Rightarrow> server" where
  "reap i w = (case sv_sessions w i of
     None \<Rightarrow> w
   | Some s \<Rightarrow> if s_pending s = [] \<and> Enqueue i \<notin> set (sv_tasks w) then destroy_session i w else w)"

fun run_task :: "task \<Rightarrow> server \<Rightarrow> server" where
  "run_task Do_Accept w = do_accept w"
| "run_task (Enqueue i) w = reap i (enqueue_session i w)"
| "run_task Promote_Queued w = promote_queued_sessions w"
| "run_task Stop_Server w = stop_server w"

fun exec_event :: "event \<Rightarrow> server \<Rightarrow> server option" where
  "exec_event (Tick d) w = Some (w\<lparr>sv_clock := sv_clock w + int d\<rparr>)"
| "exec_event (Accepted ok) w =
     (if sv_accepting w then Some (on_accept ok (w\<lparr>sv_accepting := False\<rparr>)) else None)"
| "exec_event (Complete i a c) w = (case sv_sessions w i of
     None \<Rightarrow> None
   | Some s \<Rightarrow> if a \<in> set (s_pending s) \<and> completes c a
       then Some (reap i (on_completion i c (upd i (\<lambda>s. s\<lparr>s_pending := remove1 a (s_pending s)\<rparr>) w)))
       else None)"
| "exec_event Run_Task w = (case sv_tasks w of
     [] \<Rightarrow> None
   | t # ts \<Rightarrow> Some (run_task t (w\<lparr>sv_tasks := ts\<rparr>)))"
| "exec_event Stop_Call w = Some (post Stop_Server w)"
| "exec_event Signal w = Some ((post Stop_Server w)\<lparr>sv_running := False\<rparr>)"

fun run_events :: "event list \<Rightarrow> server \<Rightarrow> server option" where
  "run_events [] w = Some w"
| "run_events (e # es) w = (if \<not> sv_running w \<or> sv_crash w \<noteq> None then None
     else case exec_event e w of None \<Rightarrow> None | Some w' \<Rightarrow> run_events es w')"

text \<open>The steps of the loop as a relation, and the states it reaches from a started server.\<close>

inductive server_step :: "server \<Rightarrow> event \<Rightarrow> server \<Rightarrow> bool" where
  step: "sv_running w \<Longrightarrow> sv_crash w = None \<Longrightarrow> exec_event e w = Some w' \<Longrightarrow> server_step w e w'"

inductive reachable :: "proxy_config \<Rightarrow> server \<Rightarrow> bool" for config where
  start: "make_server config = Inr w \<Longrightarrow> start_server True w = Some w' \<Longrightarrow> reachable config w'"
| step: "reachable config w \<Longrightarrow> server_step w e w' \<Longrightarrow> reachable config w'"

inductive_cases server_stepE: "server_step w e w'"

text \<open>A run from the start, as a function.\<close>

definition proxy_run :: "proxy_config \<Rightarrow> event list \<Rightarrow> server option" where
  "proxy_run config es = (case make_server config of
     Inl _ \<Rightarrow> None
   | Inr w \<Rightarrow> Option.bind (start_server True w) (run_events es))"

lemma run_events_reachable: "reachable config w \<Longrightarrow> run_events es w = Some w' \<Longrightarrow> reachable config w'"
  by (induction es arbitrary: w)
    (auto split: if_splits option.splits intro: reachable.step server_step.step)

lemma proxy_run_reachable: "proxy_run config es = Some w \<Longrightarrow> reachable config w"
  by (auto simp: proxy_run_def bind_eq_Some_conv split: sum.splits
      intro: run_events_reachable reachable.start)

subsection \<open>The main function\<close>

text \<open>
  What \<open>main\<close> does before the loop: it reads the environment, constructs the server outside its
  \<open>try\<close> block and starts it inside. \<open>Loops n w\<close>: the event loop runs on \<open>n\<close> threads.
\<close>

datatype main_outcome = Terminates exn | Exits nat | Loops size_t server

definition proxy_main :: "nat \<Rightarrow> (string \<rightharpoonup> string) \<Rightarrow> bool \<Rightarrow> main_outcome" where
  "proxy_main long_bits env listening =
     (let config = load_config long_bits env in
      case make_server config of
        Inl e \<Rightarrow> Terminates e
      | Inr w \<Rightarrow> (case start_server listening w of
          None \<Rightarrow> Exits 1
        | Some w' \<Rightarrow> Loops (worker_count config) w'))"

end
