(* ===== verification/ProxyPermits.thy ===== *)
theory ProxyPermits
  imports ProxyServer
begin

text \<open>
  Invariants of the proxy: what holds in every state that the event loop reaches, for every choice of
  the environment. Each invariant has a rule for every primitive of the session handlers, and the
  handlers follow by composition.
\<close>

subsection \<open>Sessions\<close>

definition live :: "nat \<Rightarrow> server \<Rightarrow> bool" where
  "live i w \<longleftrightarrow> sv_sessions w i \<noteq> None"

definition sat :: "(session \<Rightarrow> bool) \<Rightarrow> (nat \<rightharpoonup> session) \<Rightarrow> nat \<Rightarrow> bool" where
  "sat P h i = (case h i of None \<Rightarrow> False | Some s \<Rightarrow> P s)"

lemma sat_update [simp]:
  "sat P (h(i \<mapsto> t)) j = (if j = i then P t else sat P h j)"
  "sat P (h(i := None)) j = (if j = i then False else sat P h j)"
  by (simp_all add: sat_def)

definition tally :: "(session \<Rightarrow> bool) \<Rightarrow> server \<Rightarrow> nat" where
  "tally P w = length (filter (sat P (sv_sessions w)) [0..<sv_next w])"

definition numbered :: "server \<Rightarrow> bool" where
  "numbered w \<longleftrightarrow> (\<forall>i. live i w \<longrightarrow> i < sv_next w)"

lemma sv_sessions_upd [simp]: "sv_sessions (upd i f w) = (sv_sessions w)(i \<mapsto> f (ses w i))"
  by (simp add: upd_def)

lemma ses_upd [simp]: "ses (upd i f w) j = (if j = i then f (ses w i) else ses w j)"
  by (simp add: ses_def)

lemma live_upd [simp]: "live j (upd i f w) \<longleftrightarrow> j = i \<or> live j w"
  by (simp add: live_def)

lemma upd_fields [simp]:
  "sv_limiter (upd i f w) = sv_limiter w" "sv_metrics (upd i f w) = sv_metrics w"
  "sv_queued_sessions (upd i f w) = sv_queued_sessions w" "sv_stopping (upd i f w) = sv_stopping w"
  "sv_tasks (upd i f w) = sv_tasks w" "sv_accepting (upd i f w) = sv_accepting w"
  "sv_next (upd i f w) = sv_next w" "sv_clock (upd i f w) = sv_clock w"
  "sv_crash (upd i f w) = sv_crash w" "sv_alive (upd i f w) = sv_alive w"
  "sv_running (upd i f w) = sv_running w" "sv_config (upd i f w) = sv_config w"
  by (simp_all add: upd_def)

lemma live_ses: "live i w \<longleftrightarrow> sv_sessions w i = Some (ses w i)"
  by (auto simp: live_def ses_def)

lemma tally_upto_update:
  assumes "i < n"
  shows "length (filter (sat P (h(i \<mapsto> t))) [0..<n]) + (if sat P h i then 1 else 0)
    = length (filter (sat P h) [0..<n]) + (if P t then 1 else 0)"
  using assms
proof (induction n)
  case (Suc n)
  show ?case
  proof (cases "i = n")
    case True
    have eq: "filter (sat P (h(i \<mapsto> t))) [0..<n] = filter (sat P h) [0..<n]"
      using True by (intro filter_cong) auto
    have "sat P (h(i \<mapsto> t)) i = P t" by simp
    then show ?thesis using True eq by (simp del: fun_upd_apply sat_update)
  next
    case False
    then have "sat P (h(i \<mapsto> t)) n = sat P h n" by simp
    then show ?thesis using Suc False by (auto simp del: fun_upd_apply sat_update split: if_splits)
  qed
qed simp

lemma tally_upd:
  assumes "numbered w" "live i w"
  shows "tally P (upd i f w) + (if P (ses w i) then 1 else 0) = tally P w + (if P (f (ses w i)) then 1 else 0)"
proof -
  have "i < sv_next w" using assms by (simp add: numbered_def)
  moreover have "sat P (sv_sessions w) i = P (ses w i)" using assms(2) by (simp add: sat_def live_ses)
  ultimately show ?thesis
    using tally_upto_update [of i "sv_next w" P "sv_sessions w" "f (ses w i)"] by (simp add: tally_def)
qed

lemma tally_upd_same [simp]:
  "numbered w \<Longrightarrow> live i w \<Longrightarrow> P (f (ses w i)) = P (ses w i) \<Longrightarrow> tally P (upd i f w) = tally P w"
  using tally_upd [of w i P f] by (simp split: if_splits)

lemma numbered_upd [simp]: "live i w \<Longrightarrow> numbered (upd i f w) \<longleftrightarrow> numbered w"
  by (auto simp: numbered_def)

lemma tally_pos: "numbered w \<Longrightarrow> live i w \<Longrightarrow> P (ses w i) \<Longrightarrow> 0 < tally P w"
  by (auto simp: tally_def numbered_def live_ses filter_empty_conv sat_def intro!: bexI [of _ i])

text \<open>Only the sessions matter.\<close>

lemma sessions_cong:
  assumes "sv_sessions w' = sv_sessions w"
  shows "live i w' = live i w" "ses w' i = ses w i"
    "sv_next w' = sv_next w \<Longrightarrow> numbered w' = numbered w" "sv_next w' = sv_next w \<Longrightarrow> tally P w' = tally P w"
  using assms by (simp_all add: live_def ses_def numbered_def tally_def)

lemma post_simps [simp]:
  "sv_sessions (post t w) = sv_sessions w" "sv_limiter (post t w) = sv_limiter w"
  "sv_next (post t w) = sv_next w" "sv_alive (post t w) = sv_alive w" "sv_metrics (post t w) = sv_metrics w"
  "sv_stopping (post t w) = sv_stopping w" "sv_tasks (post t w) = sv_tasks w @ [t]"
  "sv_queued_sessions (post t w) = sv_queued_sessions w" "sv_config (post t w) = sv_config w"
  by (simp_all add: post_def)

subsection \<open>Permits\<close>

text \<open>
  \<open>permits_ok k w\<close>: the permits of the sessions own slots of the limiter, whose counter is their
  number and \<open>k\<close> more, which are on their way to a session. A session whose \<open>Enqueue\<close> is posted exists.
\<close>

abbreviation has_permit :: "session \<Rightarrow> bool" where
  "has_permit s \<equiv> s_permit s \<noteq> None"

definition permits_ok :: "nat \<Rightarrow> server \<Rightarrow> bool" where
  "permits_ok k w \<longleftrightarrow> sv_alive w \<and> limiter_ok (sv_limiter w) \<and> on_release (sv_limiter w) = Some () \<and>
     numbered w \<and> (\<forall>i s p. sv_sessions w i = Some s \<and> s_permit s = Some p \<longrightarrow> p = new_permit 0) \<and>
     (\<forall>i. Enqueue i \<in> set (sv_tasks w) \<longrightarrow> live i w) \<and>
     unat (current_inflight (sv_limiter w)) = tally has_permit w + k"

named_theorems permit_rules

lemma permits_ok_cong:
  "sv_sessions w' = sv_sessions w \<Longrightarrow> sv_limiter w' = sv_limiter w \<Longrightarrow> sv_next w' = sv_next w \<Longrightarrow>
    sv_alive w' = sv_alive w \<Longrightarrow> set (sv_tasks w') \<subseteq> set (sv_tasks w) \<Longrightarrow> permits_ok k w \<Longrightarrow> permits_ok k w'"
  using sessions_cong [of w' w] by (auto simp: permits_ok_def)

lemma permits_ok_upd:
  assumes "permits_ok k w" "live i w" "s_permit (f (ses w i)) = s_permit (ses w i)"
  shows "permits_ok k (upd i f w)"
  using assms by (auto simp: permits_ok_def live_ses)

lemma release_new_permit:
  assumes "limiter_ok l" "current_inflight l \<noteq> 0"
  shows "release_permit (new_permit 0) [0 \<mapsto> l] =
    (\<lparr>pm_state = Some 0, owns_slot = False\<rparr>, [0 \<mapsto> l\<lparr>current_inflight := current_inflight l - 1\<rparr>], on_release l)"
  using assms by (simp add: release_permit_def new_permit_def release_slot_def)

lemma drop_new_permit:
  assumes "permits_ok (Suc k) w"
  shows "drop_permit (new_permit 0) w = post Promote_Queued
      (w\<lparr>sv_limiter := (sv_limiter w)\<lparr>current_inflight := current_inflight (sv_limiter w) - 1\<rparr>\<rparr>)"
    and "permits_ok k (drop_permit (new_permit 0) w)"
proof -
  let ?l = "sv_limiter w"
  have l: "sv_alive w" "limiter_ok ?l" "on_release ?l = Some ()"
    "unat (current_inflight ?l) = Suc (tally has_permit w + k)"
    using assms by (simp_all add: permits_ok_def)
  then have nz: "current_inflight ?l \<noteq> 0" by auto
  show eq: "drop_permit (new_permit 0) w = post Promote_Queued
      (w\<lparr>sv_limiter := ?l\<lparr>current_inflight := current_inflight ?l - 1\<rparr>\<rparr>)"
    using l release_new_permit [OF l(2) nz]
    by (simp add: drop_permit_def limiter_heap_def put_limiter_def run_callback_def)
  have "limiter_ok (?l\<lparr>current_inflight := current_inflight ?l - 1\<rparr>)"
    "unat (current_inflight ?l - 1) = tally has_permit w + k"
    using l unat_dec_pos [OF nz] by (auto simp: limiter_ok_def word_le_nat_alt)
  then show "permits_ok k (drop_permit (new_permit 0) w)"
    using assms sessions_cong [of "post Promote_Queued
      (w\<lparr>sv_limiter := ?l\<lparr>current_inflight := current_inflight ?l - 1\<rparr>\<rparr>)" w]
    by (simp add: eq permits_ok_def)
qed

lemma permits_taken:
  assumes "permits_ok k w" "live i w" "s_permit (ses w i) = Some p"
  shows "p = new_permit 0" "permits_ok (Suc k) (upd i (\<lambda>s. s\<lparr>s_permit := None\<rparr>) w)"
proof -
  let ?w = "upd i (\<lambda>s. s\<lparr>s_permit := None\<rparr>) w"
  show "p = new_permit 0" using assms by (auto simp: permits_ok_def live_ses)
  have "tally has_permit ?w + 1 = tally has_permit w"
    using tally_upd [of w i has_permit "\<lambda>s. s\<lparr>s_permit := None\<rparr>"] assms by (simp add: permits_ok_def)
  then show "permits_ok (Suc k) ?w" using assms(1,2) by (auto simp: permits_ok_def)
qed

lemma permits_ok_reset [permit_rules]:
  assumes "permits_ok k w" "live i w"
  shows "permits_ok k (reset_permit i w)"
proof (cases "s_permit (ses w i)")
  case None
  then show ?thesis using assms by (simp add: reset_permit_def)
next
  case (Some p)
  then show ?thesis using drop_new_permit(2) permits_taken [OF assms Some] by (simp add: reset_permit_def)
qed

lemma move_new_permit: "fst (move_permit (new_permit a)) = new_permit a"
  by (simp add: move_permit_def new_permit_def)

lemma permits_ok_set [permit_rules]:
  assumes "permits_ok (Suc k) w" "live i w"
  shows "permits_ok k (set_permit i (new_permit 0) w)"
proof (cases "s_permit (ses w i)")
  case None
  let ?f = "\<lambda>s. s\<lparr>s_permit := Some (new_permit 0)\<rparr>"
  have "tally has_permit (upd i ?f w) = tally has_permit w + 1"
    using tally_upd [of w i has_permit ?f] assms None by (simp add: permits_ok_def)
  then have "permits_ok k (upd i ?f w)" using assms(1,2) by (auto simp: permits_ok_def)
  then show ?thesis using None by (simp add: set_permit_def move_new_permit)
next
  case (Some p)
  let ?l = "sv_limiter w"
  have p: "p = new_permit 0" using assms Some by (auto simp: permits_ok_def live_ses)
  have l: "sv_alive w" "limiter_ok ?l" "current_inflight ?l \<noteq> 0" using assms(1) by (auto simp: permits_ok_def)
  have eq: "set_permit i (new_permit 0) w = upd i (\<lambda>s. s\<lparr>s_permit := Some (new_permit 0)\<rparr>) (drop_permit (new_permit 0) w)"
    using Some p l release_new_permit [OF l(2,3)] assms(1)
    by (simp add: set_permit_def assign_permit_def limiter_heap_def put_limiter_def run_callback_def
        permits_ok_def drop_permit_def upd_def post_def ses_def) (simp add: new_permit_def)
  note ok = drop_new_permit [OF assms(1)]
  have "live i (drop_permit (new_permit 0) w)" "ses (drop_permit (new_permit 0) w) i = ses w i"
    using assms(2) ok(1) by (simp_all add: live_def ses_def)
  then show ?thesis unfolding eq using ok(2) Some p by (auto simp: permits_ok_def live_ses)
qed

text \<open>No handler makes a session disappear.\<close>

lemma drop_permit_sessions [simp]: "sv_sessions (drop_permit p w) = sv_sessions w"
  by (auto simp: drop_permit_def run_callback_def put_limiter_def split: prod.splits option.splits)

lemma live_drop [simp]: "live j (drop_permit p w) \<longleftrightarrow> live j w"
  by (simp add: live_def)

lemma live_with_metrics [simp]: "live j (with_metrics f w) \<longleftrightarrow> live j w"
  by (simp add: live_def with_metrics_def)

lemma live_limiter [simp]: "live j (w\<lparr>sv_limiter := l\<rparr>) \<longleftrightarrow> live j w"
  by (simp add: live_def)

lemma live_metrics [simp]: "live j (w\<lparr>sv_metrics := m\<rparr>) \<longleftrightarrow> live j w"
  by (simp add: live_def)

lemma live_queue [simp]: "live j (w\<lparr>sv_queued_sessions := q\<rparr>) \<longleftrightarrow> live j w"
  by (simp add: live_def)

lemma live_crash [simp]: "live j (w\<lparr>sv_crash := e\<rparr>) \<longleftrightarrow> live j w"
  by (simp add: live_def)

lemma live_post [simp]: "live j (post t w) \<longleftrightarrow> live j w"
  by (simp add: live_def)

lemma live_reset [simp]: "live j w \<Longrightarrow> live j (reset_permit i w)"
  by (simp add: reset_permit_def split: option.splits)

lemma live_set [simp]: "live j w \<Longrightarrow> live j (set_permit i p w)"
  by (simp add: set_permit_def run_callback_def put_limiter_def split: option.splits prod.splits)

lemmas handler_defs = close_client_def close_upstream_def cancel_timers_def send_json_error_def
  send_text_response_def send_health_def start_request_timer_def resolve_upstream_def
  connect_upstream_def write_upstream_request_def read_upstream_header_def
  write_downstream_sse_header_def read_upstream_body_def

lemma live_fail [simp]: "live j w \<Longrightarrow> live j (fail_with_status i c e w)"
  by (simp add: fail_with_status_def handler_defs Let_def)

lemma live_finish [simp]: "live j w \<Longrightarrow> live j (finish_request i w)"
  by (simp add: finish_request_def handler_defs Let_def)

lemma live_handlers [simp]:
  "live j w \<Longrightarrow> live j (close_client i w)" "live j w \<Longrightarrow> live j (send_json_error i c e w)"
  "live j w \<Longrightarrow> live j (send_health i w)" "live j w \<Longrightarrow> live j (start_request_timer i w)"
  "live j w \<Longrightarrow> live j (resolve_upstream i w)" "live j w \<Longrightarrow> live j (connect_upstream i w)"
  "live j w \<Longrightarrow> live j (write_upstream_request i w)" "live j w \<Longrightarrow> live j (read_upstream_header i w)"
  "live j w \<Longrightarrow> live j (write_downstream_sse_header i w)" "live j w \<Longrightarrow> live j (read_upstream_body i w)"
  "live j w \<Longrightarrow> live j (write_downstream_body i d b w)" "live j w \<Longrightarrow> live j (start_proxy_request i p w)"
  by (simp_all add: handler_defs write_downstream_body_def start_proxy_request_def Let_def split: sum.splits)

lemma live_observe [simp]: "live j w \<Longrightarrow> live j (fst (observe_sse_chunk i d w))"
proof -
  have "live j w \<Longrightarrow> live j (fst (observe_events i es b w))" for es b w
    by (induction es arbitrary: b w) (auto simp: Let_def split: prod.splits sum.splits)
  then show "live j w \<Longrightarrow> live j (fst (observe_sse_chunk i d w))"
    by (simp add: observe_sse_chunk_def Let_def split: prod.splits sum.splits)
qed

lemma live_handle_request [simp]: "live j w \<Longrightarrow> live j (handle_request i w)"
  by (simp add: handle_request_def Let_def split: prod.splits inflight_decision.splits)

lemma live_on_completion [simp]: "live j w \<Longrightarrow> live j (on_completion i c w)"
  by (cases "(i, c, w)" rule: on_completion.cases)
    (auto simp: Let_def case_prod_beta split: option.splits)

subsection \<open>Permits through the handlers\<close>

lemma permits_upd [permit_rules]:
  "permits_ok k w \<Longrightarrow> live i w \<Longrightarrow> (\<And>s. s_permit (f s) = s_permit s) \<Longrightarrow> permits_ok k (upd i f w)"
  by (rule permits_ok_upd)

lemma permits_fields [permit_rules]:
  "permits_ok k w \<Longrightarrow> permits_ok k (with_metrics f w)"
  "permits_ok k w \<Longrightarrow> permits_ok k (w\<lparr>sv_metrics := m\<rparr>)" "permits_ok k w \<Longrightarrow> permits_ok k (w\<lparr>sv_crash := e\<rparr>)"
  "permits_ok k w \<Longrightarrow> permits_ok k (w\<lparr>sv_queued_sessions := q\<rparr>)"
  "permits_ok k w \<Longrightarrow> permits_ok k (w\<lparr>sv_stopping := b\<rparr>)" "permits_ok k w \<Longrightarrow> permits_ok k (w\<lparr>sv_accepting := b\<rparr>)"
  "permits_ok k w \<Longrightarrow> permits_ok k (w\<lparr>sv_clock := t'\<rparr>)" "permits_ok k w \<Longrightarrow> permits_ok k (w\<lparr>sv_running := b\<rparr>)"
  unfolding permits_ok_def by (auto simp: with_metrics_def live_def numbered_def tally_def)

lemma permits_post [permit_rules]:
  "permits_ok k w \<Longrightarrow> (\<And>i. t = Enqueue i \<Longrightarrow> live i w) \<Longrightarrow> permits_ok k (post t w)"
  by (auto simp: permits_ok_def numbered_def tally_def)

lemma pending_permit [simp]:
  "s_permit (await a s) = s_permit s" "s_permit (send_client m s) = s_permit s"
  "s_permit (cancel_queue_timer s) = s_permit s" "s_permit (cancel_request_timer s) = s_permit s"
  by (simp_all add: await_def send_client_def cancel_queue_timer_def cancel_request_timer_def)

lemma permits_limiter:
  assumes "permits_ok k w" "limiter_ok l" "current_inflight l = current_inflight (sv_limiter w)"
    "on_release l = on_release (sv_limiter w)"
  shows "permits_ok k (w\<lparr>sv_limiter := l\<rparr>)"
  using assms sessions_cong [of "w\<lparr>sv_limiter := l\<rparr>" w] by (simp add: permits_ok_def)

lemma permits_limiter_inc:
  assumes "permits_ok k w" "limiter_ok l" "inflight_of l = Suc (inflight_of (sv_limiter w))"
    "on_release l = on_release (sv_limiter w)"
  shows "permits_ok (Suc k) (w\<lparr>sv_limiter := l\<rparr>)"
  using assms sessions_cong [of "w\<lparr>sv_limiter := l\<rparr>" w] by (simp add: permits_ok_def)

lemma limiter_callback:
  "try_acquire_or_queue a s = (x, s') \<Longrightarrow> on_release s' = on_release s"
  "try_promote_queued a s = (p, s') \<Longrightarrow> on_release s' = on_release s"
  "on_release (snd (cancel_queued s)) = on_release s" "on_release (close_limiter s) = on_release s"
  by (auto simp: try_acquire_or_queue_def try_promote_queued_def cancel_queued_def close_limiter_def Let_def
      split: if_splits)

lemma permits_cancel [permit_rules]:
  "permits_ok k w \<Longrightarrow> permits_ok k (w\<lparr>sv_limiter := snd (cancel_queued (sv_limiter w))\<rparr>)"
  using limiter_ok_step(3) [of "sv_limiter w", OF _ prod.collapse [symmetric]]
  by (intro permits_limiter) (auto simp: permits_ok_def limiter_callback)

lemma permits_finish [permit_rules]:
  "permits_ok k w \<Longrightarrow> live i w \<Longrightarrow> permits_ok k (finish_request i w)"
  by (auto simp: finish_request_def handler_defs Let_def intro!: permit_rules)

lemma permits_fail [permit_rules]:
  "permits_ok k w \<Longrightarrow> live i w \<Longrightarrow> permits_ok k (fail_with_status i c e w)"
  by (auto simp: fail_with_status_def handler_defs Let_def intro!: permit_rules)

lemma permits_handlers [permit_rules]:
  assumes "permits_ok k w" "live i w"
  shows "permits_ok k (close_client i w)" "permits_ok k (send_json_error i c e w)"
    "permits_ok k (send_health i w)" "permits_ok k (start_request_timer i w)"
    "permits_ok k (resolve_upstream i w)" "permits_ok k (connect_upstream i w)"
    "permits_ok k (write_upstream_request i w)" "permits_ok k (read_upstream_header i w)"
    "permits_ok k (write_downstream_sse_header i w)" "permits_ok k (read_upstream_body i w)"
    "permits_ok k (write_downstream_body i d b w)"
  using assms
  by (auto simp: handler_defs write_downstream_body_def Let_def intro!: permit_rules split: sum.splits)

lemma permits_start [permit_rules]:
  assumes "permits_ok (Suc k) w" "live i w"
  shows "permits_ok k (start_proxy_request i (new_permit 0) w)"
  using assms by (auto simp: start_proxy_request_def Let_def intro!: permit_rules)

text \<open>
  The observation of a chunk changes the parser, the flag of the first token and, in the metrics,
  what \<open>record_ttft\<close> changes: whatever these three steps keep, it keeps.
\<close>

lemma upd_upd [simp]: "upd i f (upd i g w) = upd i (\<lambda>s. f (g s)) w"
  by (simp add: upd_def ses_def)

definition same_counters :: "proxy_metrics \<Rightarrow> proxy_metrics \<Rightarrow> bool" where
  "same_counters m m' \<longleftrightarrow> pm_total m' = pm_total m \<and> pm_completed m' = pm_completed m \<and>
     pm_failed m' = pm_failed m \<and> (metrics_ok m \<longrightarrow> metrics_ok m') \<and>
     sw_capacity (pm_ttft_window m') = sw_capacity (pm_ttft_window m)"

lemma record_ttft_counters: "record_ttft t0 t1 m = (m', r) \<Longrightarrow> same_counters m m'"
proof -
  have "window_ok w' \<and> sw_capacity w' = sw_capacity w" if "add_sample v w = Inr w'" "window_ok w" for v w w'
  proof -
    have "isfinite v" using that(1) window.add_refused [of v w] by auto
    then show ?thesis using that window.add_finite [OF that(2), of v] add_sample_capacity by auto
  qed
  moreover have "sw_capacity w' = sw_capacity w" if "add_sample v w = Inr w'" for v w w'
    using that by (rule add_sample_capacity)
  ultimately show "record_ttft t0 t1 m = (m', r) \<Longrightarrow> same_counters m m'"
    by (auto simp: record_ttft_def Let_def count_ttft_def sample_ttft_def same_counters_def metrics_ok_def
      split: if_splits sum.splits)
qed

lemma observe_events_keeps:
  assumes "Q w" and first: "\<And>w. Q w \<Longrightarrow> Q (upd i (\<lambda>s. s\<lparr>s_first_data_seen := True\<rparr>) w)"
    and metrics: "\<And>w m. Q w \<Longrightarrow> same_counters (sv_metrics w) m \<Longrightarrow> Q (w\<lparr>sv_metrics := m\<rparr>)"
  shows "Q (fst (observe_events i es b w))"
  using assms(1)
proof (induction es arbitrary: b w)
  case (Cons e es)
  let ?w = "upd i (\<lambda>s. s\<lparr>s_first_data_seen := True\<rparr>) w"
  obtain m r where r: "record_ttft (the (s_request_start (ses w i))) (sv_clock w) (sv_metrics w) = (m, r)"
    by fastforce
  have Q: "Q ?w" using Cons.prems by (rule first)
  then have "Q (?w\<lparr>sv_metrics := m\<rparr>)" using record_ttft_counters [OF r] by (intro metrics) auto
  with Q r Cons show ?case by (auto simp: Let_def split: sum.splits)
qed simp

lemma observe_keeps:
  assumes "Q w" and "\<And>w p. Q w \<Longrightarrow> Q (upd i (\<lambda>s. s\<lparr>s_sse_parser := p\<rparr>) w)"
    and "\<And>w. Q w \<Longrightarrow> Q (upd i (\<lambda>s. s\<lparr>s_first_data_seen := True\<rparr>) w)"
    and "\<And>w m. Q w \<Longrightarrow> same_counters (sv_metrics w) m \<Longrightarrow> Q (w\<lparr>sv_metrics := m\<rparr>)"
  shows "Q (fst (observe_sse_chunk i d w))"
  using assms observe_events_keeps [of Q _ i]
  by (auto simp: observe_sse_chunk_def Let_def split: prod.splits sum.splits)

lemma permits_observe [permit_rules]:
  assumes "permits_ok k w" "live i w"
  shows "permits_ok k (fst (observe_sse_chunk i d w))"
proof -
  have "permits_ok k (fst (observe_sse_chunk i d w)) \<and> live i (fst (observe_sse_chunk i d w))"
    by (rule observe_keeps) (use assms in \<open>auto intro!: permit_rules\<close>)
  then show ?thesis ..
qed

lemma permits_handle_request [permit_rules]:
  assumes "permits_ok k w" "live i w"
  shows "permits_ok k (handle_request i w)"
proof -
  define w1 where "w1 = upd i (\<lambda>s. s\<lparr>s_request_counted := True\<rparr>) (with_metrics record_request_started w)"
  obtain d p n l where acq: "try_acquire_or_queue 0 (sv_limiter w1) = ((d, p, n), l)" by (metis prod_cases3 prod.collapse)
  have w1: "permits_ok k w1" "live i w1" using assms by (auto simp: w1_def intro!: permit_rules)
  then have lim: "limiter_ok (sv_limiter w1)" by (simp add: permits_ok_def)
  note step = limiter_ok_step(1) [OF lim acq]
  have "p = new_permit 0 \<longleftrightarrow> d = Admit" "p = no_permit \<or> p = new_permit 0"
    using acq step by (auto simp: try_acquire_or_queue_def no_permit_def new_permit_def Let_def split: if_splits)
  moreover have "permits_ok (Suc k) (w1\<lparr>sv_limiter := l\<rparr>)" if "p = new_permit 0"
    using w1 step that limiter_callback(1) [OF acq] by (intro permits_limiter_inc) (auto simp: new_permit_def)
  moreover have "permits_ok k (w1\<lparr>sv_limiter := l\<rparr>)" if "p = no_permit"
    using w1 step that limiter_callback(1) [OF acq] acq
    by (intro permits_limiter) (auto simp: no_permit_def new_permit_def try_acquire_or_queue_def Let_def split: if_splits)
  moreover have "no_permit \<noteq> new_permit 0" by (simp add: no_permit_def new_permit_def)
  ultimately have "permits_ok k (case d of Admit \<Rightarrow> start_proxy_request i p (w1\<lparr>sv_limiter := l\<rparr>)
             | Queue \<Rightarrow> post (Enqueue i) (w1\<lparr>sv_limiter := l\<rparr>)
             | Closed \<Rightarrow> send_json_error i 503 ''proxy is shutting down'' (w1\<lparr>sv_limiter := l\<rparr>)
             | Reject \<Rightarrow> send_json_error i 429 ''admission queue is full'' (w1\<lparr>sv_limiter := l\<rparr>))"
    using w1(2) by (cases d) (auto intro!: permit_rules)
  moreover have "permits_ok k (send_json_error i c e w)" "permits_ok k (send_health i w)" for c e
    using assms by (auto intro!: permit_rules)
  ultimately show ?thesis using acq unfolding handle_request_def w1_def Let_def by simp
qed

lemma permits_on_completion [permit_rules]:
  "permits_ok k w \<Longrightarrow> live i w \<Longrightarrow> permits_ok k (on_completion i c w)"
  by (cases "(i, c, w)" rule: on_completion.cases)
    (auto simp: Let_def case_prod_beta intro!: permit_rules split: option.splits)

subsection \<open>Permits through the event loop\<close>

lemma permits_promoted:
  assumes "permits_ok k w" "live i w" "try_promote_queued 0 (sv_limiter w) = (p, l)" "valid p"
  shows "p = new_permit 0" "permits_ok (Suc k) (w\<lparr>sv_limiter := l\<rparr>)"
    "permits_ok k (start_proxy_request i p
      (upd i (\<lambda>s. cancel_queue_timer (s\<lparr>s_queued := False\<rparr>)) (w\<lparr>sv_limiter := l\<rparr>)))"
proof -
  have lim: "limiter_ok (sv_limiter w)" using assms(1) by (simp add: permits_ok_def)
  note step = limiter_ok_step(2) [OF lim assms(3)] limiter_callback(2) [OF assms(3)]
  have p: "p = new_permit 0" "owns_slot p" using step assms(4) by (auto simp: valid_def no_permit_def)
  then have w: "permits_ok (Suc k) (w\<lparr>sv_limiter := l\<rparr>)" "live i (w\<lparr>sv_limiter := l\<rparr>)"
    using assms(1,2) step by (auto intro!: permits_limiter_inc)
  let ?v = "upd i (\<lambda>s. cancel_queue_timer (s\<lparr>s_queued := False\<rparr>)) (w\<lparr>sv_limiter := l\<rparr>)"
  have "permits_ok (Suc k) ?v" "live i ?v" using permits_upd [OF w] w(2) by simp_all
  then show "p = new_permit 0" "permits_ok (Suc k) (w\<lparr>sv_limiter := l\<rparr>)"
    "permits_ok k (start_proxy_request i p ?v)" using p w(1) permits_start by simp_all
qed

lemma permits_promote_loop:
  "permits_ok k w \<Longrightarrow> permits_ok k (promote_loop q w)"
proof (induction q arbitrary: w)
  case Nil
  then show ?case by (auto intro!: permit_rules)
next
  case (Cons i q)
  show ?case
  proof (cases "sv_sessions w i = None \<or> \<not> is_queued i w")
    case True
    then show ?thesis using Cons by auto
  next
    case False
    obtain p l where pl: "try_promote_queued 0 (sv_limiter w) = (p, l)" by fastforce
    let ?w = "w\<lparr>sv_limiter := l\<rparr>"
    have lim: "limiter_ok (sv_limiter w)" using Cons.prems by (simp add: permits_ok_def)
    note step = limiter_ok_step(2) [OF lim pl] limiter_callback(2) [OF pl]
    show ?thesis
    proof (cases "valid p")
      case True
      have live: "live i w" using False by (simp add: live_def)
      let ?v = "upd i (\<lambda>s. cancel_queue_timer (s\<lparr>s_queued := False\<rparr>)) ?w"
      note promoted = permits_promoted [OF Cons.prems live pl True]
      have "permits_ok k (start_proxy_request i p ?v)" using promoted(3) .
      moreover have "permits_ok k (drop_permit p ?w)" using drop_new_permit(2) [OF promoted(2)] promoted(1) by simp
      ultimately have next_ok: "permits_ok k (promote_loop q (start_proxy_request i p ?v))"
        "permits_ok k (promote_loop q (drop_permit p ?w))" by (blast intro: Cons.IH)+
      have "promote_loop (i # q) w = (case try_start_from_queue i p ?w of
          (w2, True) \<Rightarrow> promote_loop q w2 | (w2, False) \<Rightarrow> promote_loop q (drop_permit p w2))"
        using False pl True by (auto simp: Let_def simp del: promote_loop.simps(1))
      then show ?thesis using next_ok by (simp add: try_start_from_queue_def)
    next
      case invalid: False
      then have "p = no_permit" using step by (auto simp: valid_def new_permit_def)
      then have "permits_ok k ?w" using Cons.prems step pl
        by (intro permits_limiter) (auto simp: try_promote_queued_def no_permit_def new_permit_def split: if_splits)
      then have "permits_ok k (promote_loop q ?w)" "permits_ok k (?w\<lparr>sv_queued_sessions := i # q\<rparr>)"
        using Cons.IH permits_fields by blast+
      then show ?thesis using invalid False pl by (auto simp: Let_def)
    qed
  qed
qed

lemma permits_close_clients: "permits_ok k w \<Longrightarrow> permits_ok k (close_clients q w)"
  by (induction q arbitrary: w) (simp_all add: permits_handlers(1) live_def)

lemma permits_close_limiter [permit_rules]:
  "permits_ok k w \<Longrightarrow> permits_ok k (w\<lparr>sv_limiter := close_limiter (sv_limiter w)\<rparr>)"
  by (intro permits_limiter) (auto simp: permits_ok_def limiter_ok_step(4,5) limiter_callback(4))

lemma permits_stop [permit_rules]:
  assumes "permits_ok k w"
  shows "permits_ok k (stop_server w)"
proof -
  have "permits_ok k ((w\<lparr>sv_limiter := close_limiter (sv_limiter w)\<rparr>)\<lparr>sv_stopping := True\<rparr>)"
    using assms by (intro permit_rules)
  then have "permits_ok k (w\<lparr>sv_stopping := True, sv_limiter := close_limiter (sv_limiter w)\<rparr>)"
    by (rule permits_ok_cong [rotated -1]) simp_all
  then show ?thesis unfolding stop_server_def Let_def by (intro permit_rules permits_close_clients)
qed

lemma permits_enqueue [permit_rules]:
  assumes "permits_ok k w" "live i w"
  shows "permits_ok k (enqueue_session i w)"
  using assms by (auto simp: enqueue_session_def start_queue_timer_def Let_def intro!: permit_rules)

text \<open>A session without a permit can be added or removed.\<close>

lemma tally_new:
  assumes "numbered w"
  shows "tally P (w\<lparr>sv_sessions := (sv_sessions w)(sv_next w \<mapsto> s), sv_next := sv_next w + 1\<rparr>)
    = tally P w + (if P s then 1 else 0)"
proof -
  have "filter (sat P ((sv_sessions w)(sv_next w \<mapsto> s))) [0..<sv_next w]
      = filter (sat P (sv_sessions w)) [0..<sv_next w]"
    by (intro filter_cong) auto
  then show ?thesis by (simp add: tally_def del: fun_upd_apply)
qed

lemma tally_remove:
  assumes "numbered w" "live i w"
  shows "tally P (w\<lparr>sv_sessions := (sv_sessions w)(i := None)\<rparr>) + (if P (ses w i) then 1 else 0) = tally P w"
proof -
  let ?n = "sv_next w" and ?h = "sv_sessions w"
  have i: "i < ?n" "sat P ?h i = P (ses w i)" using assms by (auto simp: numbered_def sat_def live_ses)
  have "length (filter (sat P (?h(i := None))) [0..<n]) + (if i < n \<and> sat P ?h i then 1 else 0)
      = length (filter (sat P ?h) [0..<n])" for n
  proof (induction n)
    case (Suc n)
    have "filter (sat P (?h(i := None))) [0..<i] = filter (sat P ?h) [0..<i]"
      by (intro filter_cong) auto
    moreover have "sat P (?h(i := None)) n = (n \<noteq> i \<and> sat P ?h n)" by simp
    ultimately show ?case using Suc by (cases "n = i") (auto simp del: fun_upd_apply sat_update split: if_splits)
  qed simp
  from this [of ?n] show ?thesis using i by (simp add: tally_def)
qed

lemma permits_start_session [permit_rules]:
  assumes "permits_ok k w"
  shows "permits_ok k (start_session w)"
proof -
  have "s_permit (await Read_Request (new_session p)) = None" for p by (simp add: await_def new_session_def)
  then have "permits_ok k (w\<lparr>sv_sessions := (sv_sessions w)(sv_next w \<mapsto> await Read_Request (new_session p)),
       sv_next := sv_next w + 1\<rparr>)" for p
    using assms tally_new [of w has_permit "await Read_Request (new_session p)"]
    by (auto simp: permits_ok_def numbered_def live_def less_Suc_eq)
  then show ?thesis using assms by (auto simp: start_session_def intro!: permit_rules split: sum.splits)
qed

lemma permits_on_accept [permit_rules]: "permits_ok k w \<Longrightarrow> permits_ok k (on_accept ok w)"
  by (auto simp: on_accept_def do_accept_def Let_def intro!: permit_rules)

lemma reset_no_permit: "live i w \<Longrightarrow> s_permit (ses (reset_permit i w) i) = None"
  by (auto simp: reset_permit_def drop_permit_sessions ses_def split: option.splits)

lemma permits_destroy:
  assumes "permits_ok k w" "live i w" "Enqueue i \<notin> set (sv_tasks w)"
  shows "permits_ok k (destroy_session i w)"
proof -
  define w1 where "w1 = (if s_queued (ses w i) \<and> sv_alive w
      then w\<lparr>sv_limiter := snd (cancel_queued (sv_limiter w))\<rparr> else w)"
  have w1: "permits_ok k w1" "live i w1" using assms by (auto simp: w1_def intro!: permit_rules)
  let ?w = "reset_permit i w1"
  have ok: "permits_ok k ?w" "live i ?w" using w1 by (auto intro!: permit_rules)
  have "Enqueue i \<notin> set (sv_tasks ?w)" using assms(3)
    by (auto simp: w1_def reset_permit_def drop_permit_def run_callback_def put_limiter_def
        split: option.splits prod.splits if_splits)
  then have "permits_ok k (?w\<lparr>sv_sessions := (sv_sessions ?w)(i := None)\<rparr>)"
    using ok tally_remove [of ?w i has_permit] reset_no_permit [OF w1(2)]
    by (auto simp: permits_ok_def numbered_def live_def)
  then show ?thesis by (simp add: destroy_session_def w1_def Let_def)
qed

lemma permits_reap [permit_rules]: "permits_ok k w \<Longrightarrow> permits_ok k (reap i w)"
  by (auto simp: reap_def live_def intro!: permits_destroy split: option.splits)

lemma permits_event:
  assumes "permits_ok 0 w" "exec_event e w = Some w'"
  shows "permits_ok 0 w'"
  using assms(2)
proof (cases e)
  case (Complete i a c)
  then show ?thesis using assms by (auto simp: live_def intro!: permit_rules split: option.splits if_splits)
next
  case Run_Task
  then obtain t ts where t: "sv_tasks w = t # ts" "w' = run_task t (w\<lparr>sv_tasks := ts\<rparr>)"
    using assms(2) by (auto split: list.splits)
  have ok: "permits_ok 0 (w\<lparr>sv_tasks := ts\<rparr>)" using assms(1) t(1)
    by (auto intro: permits_ok_cong)
  have "live i (w\<lparr>sv_tasks := ts\<rparr>)" if "t = Enqueue i" for i
    using assms(1) t(1) that by (auto simp: permits_ok_def live_def)
  with ok show ?thesis unfolding t(2)
    by (cases t) (auto simp: do_accept_def promote_queued_sessions_def
        intro!: permit_rules permits_promote_loop)
qed (use assms in \<open>auto intro!: permit_rules split: if_splits\<close>)

lemma permits_started:
  assumes "make_server config = Inr w" "start_server True w = Some w'"
  shows "permits_ok 0 w'"
proof -
  obtain l where l: "new_limiter (pc_max_inflight config) (pc_max_queue_size config) = Inr l" "sv_limiter w = l"
    "sv_sessions w = Map.empty" "sv_next w = 0" "sv_tasks w = []" "sv_alive w"
    using assms(1) by (auto simp: make_server_def split: sum.splits)
  have "limiter_ok l" "current_inflight l = 0"
    using l(1) by (auto simp: new_limiter_def limiter_ok_def split: if_splits)
  then show ?thesis using assms(2) l
    by (auto simp: start_server_def permits_ok_def set_on_release_def limiter_ok_def post_def
        live_def numbered_def tally_def)
qed

lemma reachable_permits: "reachable config w \<Longrightarrow> permits_ok 0 w"
  by (induction rule: reachable.induct) (auto elim!: server_stepE intro: permits_event permits_started)

end
