(* ===== verification/ProxyInvariants.thy ===== *)
theory ProxyInvariants
  imports ProxyPermits
begin

text \<open>
  What no event changes: the configuration of the server and the two limits of its limiter, which are
  those of the configuration (\<^verbatim>\<open>proxy_server.cpp\<close>, the constructor).
\<close>

subsection \<open>The configuration\<close>

text \<open>The limits of the limiter are those of the configuration, for ever.\<close>

definition limits :: "server \<Rightarrow> proxy_config \<times> size_t \<times> size_t" where
  "limits w = (sv_config w, max_inflight (sv_limiter w), max_queue_size (sv_limiter w))"

lemma limits_limiter:
  "try_acquire_or_queue a s = (x, s') \<Longrightarrow> max_inflight s' = max_inflight s \<and> max_queue_size s' = max_queue_size s"
  "try_promote_queued a s = (p, s') \<Longrightarrow> max_inflight s' = max_inflight s \<and> max_queue_size s' = max_queue_size s"
  "max_inflight (snd (cancel_queued s)) = max_inflight s" "max_queue_size (snd (cancel_queued s)) = max_queue_size s"
  "release_slot s = (cb, s') \<Longrightarrow> max_inflight s' = max_inflight s \<and> max_queue_size s' = max_queue_size s"
  by (auto simp: try_acquire_or_queue_def try_promote_queued_def cancel_queued_def release_slot_def Let_def
      split: if_splits)

lemma limits_fields [simp]:
  "limits (upd i f w) = limits w" "limits (with_metrics g w) = limits w" "limits (post t w) = limits w"
  "limits (w\<lparr>sv_metrics := m\<rparr>) = limits w" "limits (w\<lparr>sv_crash := e\<rparr>) = limits w"
  "limits (w\<lparr>sv_queued_sessions := q\<rparr>) = limits w" "limits (w\<lparr>sv_tasks := ts\<rparr>) = limits w"
  "limits (w\<lparr>sv_sessions := h\<rparr>) = limits w" "limits (w\<lparr>sv_accepting := b\<rparr>) = limits w"
  "limits (w\<lparr>sv_clock := t'\<rparr>) = limits w" "limits (w\<lparr>sv_running := b\<rparr>) = limits w"
  by (simp_all add: limits_def upd_def with_metrics_def post_def)

lemma limits_limiter_update:
  "max_inflight l = max_inflight (sv_limiter w) \<Longrightarrow> max_queue_size l = max_queue_size (sv_limiter w) \<Longrightarrow>
    limits (w\<lparr>sv_limiter := l\<rparr>) = limits w"
  by (simp add: limits_def)

lemma limits_release:
  assumes "release_permit p (limiter_heap w) = (p', h, cb)"
  shows "limits (put_limiter h w) = limits w"
  using assms limits_limiter(5) [of "sv_limiter w", OF prod.collapse [symmetric]]
  by (auto simp: release_permit_def put_limiter_def limiter_heap_def Let_def case_prod_beta
      intro!: limits_limiter_update split: option.splits if_splits bind_splits)

lemma limits_run_callback [simp]: "limits (run_callback cb w) = limits w"
  by (simp add: run_callback_def split: option.splits)

lemma limits_drop_permit [simp]: "limits (drop_permit p w) = limits w"
  using limits_release by (auto simp: drop_permit_def split: prod.splits)

lemma limits_permits [simp]:
  "limits (reset_permit i w) = limits w" "limits (set_permit i p w) = limits w"
  using limits_release
  by (auto simp: reset_permit_def set_permit_def assign_permit_def split: option.splits prod.splits)

lemma limits_handlers [simp]:
  "limits (finish_request i w) = limits w" "limits (fail_with_status i c e w) = limits w"
  "limits (close_client i w) = limits w" "limits (send_json_error i c e w) = limits w"
  "limits (send_health i w) = limits w" "limits (start_request_timer i w) = limits w"
  "limits (resolve_upstream i w) = limits w" "limits (connect_upstream i w) = limits w"
  "limits (write_upstream_request i w) = limits w" "limits (read_upstream_header i w) = limits w"
  "limits (write_downstream_sse_header i w) = limits w" "limits (read_upstream_body i w) = limits w"
  by (simp_all add: handler_defs finish_request_def fail_with_status_def Let_def split: sum.splits)

lemma limits_requests [simp]:
  "limits (write_downstream_body i d b w) = limits w" "limits (start_proxy_request i p w) = limits w"
  "limits (start_queue_timer i w) = limits w" "limits (enqueue_session i w) = limits w"
  by (simp_all add: write_downstream_body_def start_proxy_request_def start_queue_timer_def
      enqueue_session_def Let_def)

lemma limits_observe [simp]: "limits (fst (observe_sse_chunk i d w)) = limits w"
  by (rule observe_keeps) auto

lemma limits_handle_request [simp]: "limits (handle_request i w) = limits w"
proof -
  define v where "v = upd i (\<lambda>s. s\<lparr>s_request_counted := True\<rparr>) (with_metrics record_request_started w)"
  obtain d p n l where acq: "try_acquire_or_queue 0 (sv_limiter v) = ((d, p, n), l)"
    by (metis prod_cases3 prod.collapse)
  have "limits (v\<lparr>sv_limiter := l\<rparr>) = limits w"
    using limits_limiter(1) [OF acq] limits_limiter_update [of l v] by (simp add: v_def)
  then show ?thesis using acq unfolding handle_request_def v_def [symmetric] Let_def
    by (simp split: inflight_decision.splits)
qed

lemma limits_cancel [simp]: "limits (w\<lparr>sv_limiter := snd (cancel_queued (sv_limiter w))\<rparr>) = limits w"
  by (rule limits_limiter_update) (simp_all add: limits_limiter)

lemma limits_on_completion [simp]: "limits (on_completion i c w) = limits w"
  by (cases "(i, c, w)" rule: on_completion.cases) (auto simp: Let_def case_prod_beta split: option.splits)

lemma limits_promote_loop [simp]: "limits (promote_loop q w) = limits w"
proof (induction q arbitrary: w)
  case (Cons i q)
  obtain p l where pl: "try_promote_queued 0 (sv_limiter w) = (p, l)" by fastforce
  then have "limits (w\<lparr>sv_limiter := l\<rparr>) = limits w"
    by (intro limits_limiter_update) (auto dest: limits_limiter(2))
  then show ?case using Cons pl by (auto simp: Let_def try_start_from_queue_def split: if_splits)
qed simp

lemma limits_close_clients [simp]: "limits (close_clients q w) = limits w"
  by (induction q arbitrary: w) simp_all

lemma limits_stop_server [simp]: "limits (stop_server w) = limits w"
  by (simp add: stop_server_def Let_def) (simp add: limits_def close_limiter_def)

lemma limits_reap [simp]: "limits (reap i w) = limits w"
  by (simp add: reap_def destroy_session_def Let_def split: option.splits)

lemma limits_on_accept [simp]: "limits (on_accept ok w) = limits w"
proof -
  have "limits (start_session w) = limits w"
    by (simp add: start_session_def split: sum.splits) (simp add: limits_def)
  then show ?thesis by (simp add: on_accept_def do_accept_def Let_def)
qed

lemma limits_event: "exec_event e w = Some w' \<Longrightarrow> limits w' = limits w"
proof (cases e)
  case Run_Task
  assume "exec_event e w = Some w'"
  then obtain t ts where "w' = run_task t (w\<lparr>sv_tasks := ts\<rparr>)" using Run_Task by (auto split: list.splits)
  then show ?thesis by (cases t) (simp_all add: do_accept_def promote_queued_sessions_def)
qed (auto split: option.splits if_splits)

lemma reachable_limits:
  "reachable config w \<Longrightarrow> limits w = (config, pc_max_inflight config, pc_max_queue_size config)"
proof (induction rule: reachable.induct)
  case (start w w')
  then show ?case by (auto simp: make_server_def start_server_def limits_def set_on_release_def post_def
        new_limiter_def split: sum.splits if_splits)
qed (auto elim!: server_stepE simp: limits_event)

end
