(* ===== verification/ProxyEffects.thy ===== *)
theory ProxyEffects
  imports ProxyInvariants
begin

text \<open>
  What the handlers of a session do, as functions: each changes its own session by a function of that
  session, and has an effect on the server that is the same for all of them (\<open>quiet\<close>): it may free a
  slot, and then posts a promotion. \<open>on_session\<close> composes.
\<close>

subsection \<open>The states of a session\<close>

fun upstream_op :: "async \<Rightarrow> bool" where
  "upstream_op Resolve = True"
| "upstream_op Connect = True"
| "upstream_op Write_Upstream = True"
| "upstream_op Read_Header = True"
| "upstream_op Write_Sse_Header = True"
| "upstream_op Read_Body = True"
| "upstream_op (Write_Body _) = True"
| "upstream_op _ = False"

definition main_op :: "async \<Rightarrow> bool" where
  "main_op a \<longleftrightarrow> upstream_op a \<or> a = Read_Request \<or> a = Write_Response"

definition busy :: "session \<Rightarrow> async list" where
  "busy s = filter main_op (s_pending s)"

definition pending_request :: "session \<Rightarrow> bool" where
  "pending_request s \<longleftrightarrow> s_request_counted s \<and> \<not> s_finished s"

lemma busy_simps [simp]:
  "busy (await a s) = (if main_op a then a # busy s else busy s)"
  "busy (send_client m s) = busy s" "busy (cancel_queue_timer s) = busy s" "busy (cancel_request_timer s) = busy s"
  "busy (s\<lparr>s_client_open := b\<rparr>) = busy s" "busy (s\<lparr>s_upstream_open := b\<rparr>) = busy s"
  "busy (s\<lparr>s_permit := p\<rparr>) = busy s" "busy (s\<lparr>s_finished := b\<rparr>) = busy s" "busy (s\<lparr>s_queued := b\<rparr>) = busy s"
  "busy (s\<lparr>s_request_start := t\<rparr>) = busy s" "busy (s\<lparr>s_response_started := b\<rparr>) = busy s"
  "busy (s\<lparr>s_upstream := u\<rparr>) = busy s" "busy (s\<lparr>s_request := r\<rparr>) = busy s"
  "busy (s\<lparr>s_sse_parser := q\<rparr>) = busy s" "busy (s\<lparr>s_first_data_seen := b\<rparr>) = busy s"
  "busy (s\<lparr>s_request_counted := b\<rparr>) = busy s"
proof -
  have "filter main_op (map (\<lambda>a. case a of Queue_Timer _ \<Rightarrow> Queue_Timer True | _ \<Rightarrow> a) xs) = filter main_op xs"
    "filter main_op (map (\<lambda>a. case a of Request_Timer _ \<Rightarrow> Request_Timer True | _ \<Rightarrow> a) xs) = filter main_op xs" for xs
    by (induction xs) (auto simp: main_op_def split: async.splits)
  then show "busy (cancel_queue_timer s) = busy s" "busy (cancel_request_timer s) = busy s"
    by (simp_all add: busy_def cancel_queue_timer_def cancel_request_timer_def)
qed (simp_all add: busy_def await_def send_client_def)

subsection \<open>The effect of a handler on the server\<close>

text \<open>
  \<open>quiet\<close>: promotions are appended to the strand, and the limiter loses a slot only if there is one.
  \<open>balance\<close> is the number of requests that are neither completed nor failed.
\<close>

definition quiet :: "server \<Rightarrow> server \<Rightarrow> bool" where
  "quiet w w' \<longleftrightarrow> sv_alive w' = sv_alive w \<and> sv_stopping w' = sv_stopping w \<and> sv_crash w' = sv_crash w \<and>
     sv_queued_sessions w' = sv_queued_sessions w \<and> sv_next w' = sv_next w \<and>
     closed (sv_limiter w') = closed (sv_limiter w) \<and>
     queued_requests (sv_limiter w') = queued_requests (sv_limiter w) \<and>
     on_release (sv_limiter w') = on_release (sv_limiter w) \<and> limits w' = limits w \<and>
     (metrics_ok (sv_metrics w) \<longrightarrow> metrics_ok (sv_metrics w')) \<and>
     sw_capacity (pm_ttft_window (sv_metrics w')) = sw_capacity (pm_ttft_window (sv_metrics w)) \<and>
     (\<exists>n. sv_tasks w' = sv_tasks w @ replicate n Promote_Queued \<and>
        (n = 0 \<longrightarrow> current_inflight (sv_limiter w) \<le> current_inflight (sv_limiter w')))"

definition balance :: "server \<Rightarrow> size_t" where
  "balance w = pm_total (sv_metrics w) - pm_completed (sv_metrics w) - pm_failed (sv_metrics w)"

definition credit :: "nat \<Rightarrow> server \<Rightarrow> size_t" where
  "credit i w = balance w - (if pending_request (ses w i) then 1 else 0)"

definition on_session :: "nat \<Rightarrow> (session \<Rightarrow> session) \<Rightarrow> server \<Rightarrow> server \<Rightarrow> bool" where
  "on_session i f w w' \<longleftrightarrow> sv_sessions w' = (sv_sessions w)(i \<mapsto> f (ses w i)) \<and> quiet w w' \<and>
     credit i w' = credit i w"

definition ready :: "server \<Rightarrow> bool" where
  "ready w \<longleftrightarrow> sv_alive w \<and> on_release (sv_limiter w) = Some ()"

lemma quiet_refl: "quiet w w"
  unfolding quiet_def by (auto intro: exI [of _ 0])

lemma quiet_trans:
  assumes "quiet w1 w2" "quiet w2 w3"
  shows "quiet w1 w3"
proof -
  obtain m n where "sv_tasks w2 = sv_tasks w1 @ replicate m Promote_Queued"
    "sv_tasks w3 = sv_tasks w2 @ replicate n Promote_Queued"
    "m = 0 \<longrightarrow> current_inflight (sv_limiter w1) \<le> current_inflight (sv_limiter w2)"
    "n = 0 \<longrightarrow> current_inflight (sv_limiter w2) \<le> current_inflight (sv_limiter w3)"
    using assms unfolding quiet_def by blast
  then have "\<exists>k. sv_tasks w3 = sv_tasks w1 @ replicate k Promote_Queued \<and>
      (k = 0 \<longrightarrow> current_inflight (sv_limiter w1) \<le> current_inflight (sv_limiter w3))"
    by (intro exI [of _ "m + n"]) (auto simp: replicate_add)
  then show ?thesis using assms unfolding quiet_def by metis
qed

lemma quiet_upd: "quiet w (upd i f w)"
  unfolding quiet_def by (auto intro: exI [of _ 0])

lemma on_session_comp:
  assumes "on_session i f w w'" "on_session i g w' w''"
  shows "on_session i (\<lambda>s. g (f s)) w w''"
  using assms quiet_trans by (auto simp: on_session_def ses_def)

lemma on_session_upd:
  assumes "pending_request (f (ses w i)) = pending_request (ses w i)"
  shows "on_session i f w (upd i f w)"
  using assms quiet_upd by (simp add: on_session_def credit_def balance_def)

lemma on_session_id: "live i w \<Longrightarrow> on_session i (\<lambda>s. s) w w"
  by (simp add: on_session_def quiet_refl live_ses fun_upd_idem)

lemma on_session_cong: "on_session i f w w' \<Longrightarrow> f (ses w i) = g (ses w i) \<Longrightarrow> on_session i g w w'"
  by (simp add: on_session_def)

lemma on_session_ready: "on_session i f w w' \<Longrightarrow> ready w \<Longrightarrow> ready w' \<and> live i w'"
  by (simp add: on_session_def ready_def quiet_def live_def)

lemma pending_simps [simp]:
  "pending_request (await a s) = pending_request s" "pending_request (send_client m s) = pending_request s"
  "pending_request (cancel_queue_timer s) = pending_request s"
  "pending_request (cancel_request_timer s) = pending_request s"
  "pending_request (s\<lparr>s_client_open := b\<rparr>) = pending_request s"
  "pending_request (s\<lparr>s_upstream_open := b\<rparr>) = pending_request s"
  "pending_request (s\<lparr>s_permit := p\<rparr>) = pending_request s"
  "pending_request (s\<lparr>s_queued := b\<rparr>) = pending_request s"
  "pending_request (s\<lparr>s_request_start := t\<rparr>) = pending_request s"
  "pending_request (s\<lparr>s_response_started := b\<rparr>) = pending_request s"
  "pending_request (s\<lparr>s_upstream := u\<rparr>) = pending_request s"
  "pending_request (s\<lparr>s_request := r\<rparr>) = pending_request s"
  "pending_request (s\<lparr>s_sse_parser := q\<rparr>) = pending_request s"
  "pending_request (s\<lparr>s_first_data_seen := b\<rparr>) = pending_request s"
  "pending_request (s\<lparr>s_pending := as\<rparr>) = pending_request s"
  by (simp_all add: pending_request_def await_def send_client_def cancel_queue_timer_def
      cancel_request_timer_def)

text \<open>Releasing a permit, and replacing it.\<close>

lemma release_quiet:
  assumes "ready w" "release_permit p (limiter_heap w) = (p', h, cb)"
  shows "quiet w (run_callback cb (put_limiter h w)) \<and>
    sv_sessions (run_callback cb (put_limiter h w)) = sv_sessions w \<and>
    sv_metrics (run_callback cb (put_limiter h w)) = sv_metrics w"
proof -
  let ?l = "sv_limiter w"
  have heap: "limiter_heap w = [0 \<mapsto> ?l]" "sv_alive w" "on_release ?l = Some ()"
    using assms(1) by (simp_all add: ready_def limiter_heap_def)
  consider "h 0 = Some ?l \<and> cb = None"
    | "h 0 = Some (?l\<lparr>current_inflight := current_inflight ?l - 1\<rparr>) \<and> cb = Some ()"
    using assms(2) heap(3) unfolding heap(1)
    by (auto simp: release_permit_def Let_def release_slot_def split: if_splits option.splits bind_splits)
  then show ?thesis
  proof cases
    case 1
    then have "run_callback cb (put_limiter h w) = w" by (simp add: run_callback_def put_limiter_def)
    then show ?thesis using quiet_refl by simp
  next
    case 2
    then have eq: "run_callback cb (put_limiter h w) = post Promote_Queued
        (w\<lparr>sv_limiter := ?l\<lparr>current_inflight := current_inflight ?l - 1\<rparr>\<rparr>)"
      using heap by (simp add: run_callback_def put_limiter_def)
    show ?thesis unfolding eq
      by (auto simp: quiet_def limits_def post_def intro!: exI [of _ 1])
  qed
qed

lemma on_session_reset:
  assumes "ready w" "live i w"
  shows "on_session i (\<lambda>s. s\<lparr>s_permit := None\<rparr>) w (reset_permit i w)"
proof (cases "s_permit (ses w i)")
  case None
  then show ?thesis using on_session_id [OF assms(2)]
    by (auto simp: reset_permit_def intro: on_session_cong)
next
  case (Some p)
  let ?w = "upd i (\<lambda>s. s\<lparr>s_permit := None\<rparr>) w"
  obtain p' h cb where r: "release_permit p (limiter_heap ?w) = (p', h, cb)" by (metis prod_cases3)
  have "on_session i (\<lambda>s. s\<lparr>s_permit := None\<rparr>) w ?w" by (rule on_session_upd) simp
  moreover have "ready ?w" using assms by (simp add: ready_def)
  ultimately show ?thesis using release_quiet [OF _ r] r Some quiet_trans
    by (auto simp: reset_permit_def drop_permit_def on_session_def credit_def balance_def ses_def)
qed

lemma on_session_set:
  assumes "ready w" "live i w"
  shows "on_session i (\<lambda>s. s\<lparr>s_permit := Some (fst (move_permit p))\<rparr>) w (set_permit i p w)"
proof (cases "s_permit (ses w i)")
  case None
  then show ?thesis by (simp add: set_permit_def on_session_upd)
next
  case (Some old)
  let ?f = "\<lambda>s. s\<lparr>s_permit := Some (fst (move_permit p))\<rparr>"
  obtain p' h cb where r: "release_permit old (limiter_heap w) = (p', h, cb)" by (metis prod_cases3)
  have eq: "set_permit i p w = upd i ?f (run_callback cb (put_limiter h w))"
    using Some r by (auto simp: set_permit_def assign_permit_def move_permit_def run_callback_def
        put_limiter_def upd_def post_def ses_def split: option.splits)
  have "on_session i (\<lambda>s. s) w (run_callback cb (put_limiter h w))"
    using release_quiet [OF assms(1) r] on_session_id [OF assms(2)]
    by (simp add: on_session_def credit_def balance_def ses_def)
  then show ?thesis unfolding eq using on_session_comp on_session_upd [of ?f] by fastforce
qed

subsection \<open>The handlers as functions of their session\<close>

definition finish_session :: "session \<Rightarrow> session" where
  "finish_session s = (if s_finished s then s
     else (cancel_queue_timer (cancel_request_timer s))\<lparr>s_finished := True, s_upstream_open := False,
       s_permit := None, s_client_open := False\<rparr>)"

definition fail_session :: "nat \<Rightarrow> string \<Rightarrow> session \<Rightarrow> session" where
  "fail_session status error s = (if s_finished s then s
     else let t = (cancel_queue_timer (cancel_request_timer s))\<lparr>s_finished := True,
         s_upstream_open := False, s_permit := None\<rparr>
       in if s_response_started t then t\<lparr>s_client_open := False\<rparr>
         else await Write_Error (send_client (Response status (error_body error)) t))"

text \<open>The common part of \<open>finish_request\<close> and \<open>fail_with_status\<close>.\<close>

definition settle :: "nat \<Rightarrow> (proxy_metrics \<Rightarrow> proxy_metrics) \<Rightarrow> server \<Rightarrow> server" where
  "settle i f w = (let w2 = close_upstream i (cancel_timers i (upd i (\<lambda>s. s\<lparr>s_finished := True\<rparr>) w))
     in reset_permit i (if sv_alive w2 \<and> s_request_counted (ses w2 i) then with_metrics f w2 else w2))"

lemma settle_folds:
  "finish_request i w = (if s_finished (ses w i) then w
     else close_client i (settle i record_request_completed w))"
  "fail_with_status i status error w = (if s_finished (ses w i) then w
     else let w4 = settle i record_request_failed w
       in if s_response_started (ses w4 i) then close_client i w4
         else upd i (\<lambda>s. await Write_Error (send_client (Response status (error_body error)) s)) w4)"
  by (simp_all add: finish_request_def fail_with_status_def settle_def Let_def)

lemma s_finished_cancel [simp]:
  "s_finished (cancel_queue_timer s) = s_finished s" "s_finished (cancel_request_timer s) = s_finished s"
  "s_request_counted (cancel_queue_timer s) = s_request_counted s"
  "s_request_counted (cancel_request_timer s) = s_request_counted s"
  "s_response_started (cancel_queue_timer s) = s_response_started s"
  "s_response_started (cancel_request_timer s) = s_response_started s"
  "s_queued (cancel_queue_timer s) = s_queued s" "s_queued (cancel_request_timer s) = s_queued s"
  by (simp_all add: cancel_queue_timer_def cancel_request_timer_def)

lemma on_session_settle:
  assumes "ready w" "live i w" "\<not> s_finished (ses w i)"
    and "f = record_request_completed \<or> f = record_request_failed"
  shows "on_session i (\<lambda>s. (cancel_queue_timer (cancel_request_timer s))\<lparr>s_finished := True,
      s_upstream_open := False, s_permit := None\<rparr>) w (settle i f w)"
proof -
  let ?g = "\<lambda>s. (cancel_queue_timer (cancel_request_timer (s\<lparr>s_finished := True\<rparr>)))\<lparr>s_upstream_open := False\<rparr>"
  define w2 where "w2 = upd i ?g w"
  define w3 where "w3 = (if s_request_counted (ses w i) then with_metrics f w2 else w2)"
  have same: "sv_sessions w3 = (sv_sessions w)(i \<mapsto> ?g (ses w i))" "sv_limiter w3 = sv_limiter w"
    "sv_alive w3 = sv_alive w" "sv_stopping w3 = sv_stopping w" "sv_crash w3 = sv_crash w"
    "sv_queued_sessions w3 = sv_queued_sessions w" "sv_next w3 = sv_next w" "sv_tasks w3 = sv_tasks w"
    "sv_config w3 = sv_config w"
    "pm_ttft_window (sv_metrics w3) = pm_ttft_window (sv_metrics w)"
    using assms(4) by (auto simp: w3_def w2_def with_metrics_def record_request_completed_def
        record_request_failed_def)
  then have q: "quiet w w3" unfolding quiet_def limits_def metrics_ok_def by (auto intro: exI [of _ 0])
  have "credit i w3 = credit i w"
    using assms(3,4) by (auto simp: credit_def balance_def w3_def w2_def with_metrics_def ses_def
        pending_request_def record_request_completed_def record_request_failed_def)
  then have step: "on_session i ?g w w3" using q same(1) by (simp add: on_session_def)
  have "ready w3" "live i w3" using on_session_ready [OF step assms(1)] by simp_all
  then have "on_session i (\<lambda>s. (?g s)\<lparr>s_permit := None\<rparr>) w (reset_permit i w3)"
    using on_session_comp [OF step] on_session_reset by blast
  moreover have "settle i f w = reset_permit i w3"
    using assms(1) by (simp add: settle_def w3_def w2_def Let_def close_upstream_def cancel_timers_def ready_def)
  moreover have "(?g s)\<lparr>s_permit := None\<rparr> = (cancel_queue_timer (cancel_request_timer s))\<lparr>s_finished := True,
      s_upstream_open := False, s_permit := None\<rparr>" for s
    by (cases s) (simp add: cancel_queue_timer_def cancel_request_timer_def)
  ultimately show ?thesis by simp
qed

lemma on_session_finish:
  assumes "ready w" "live i w"
  shows "on_session i finish_session w (finish_request i w)"
proof (cases "s_finished (ses w i)")
  case True
  then show ?thesis using on_session_id [OF assms(2)]
    by (auto simp: settle_folds finish_session_def intro: on_session_cong)
next
  case False
  note step = on_session_settle [OF assms False, of record_request_completed]
  have "on_session i (\<lambda>s. s\<lparr>s_client_open := False\<rparr>) v (close_client i v)" for v
    by (simp add: close_client_def on_session_upd)
  from on_session_comp [OF step this] show ?thesis using False
    by (simp add: settle_folds on_session_def finish_session_def)
qed

lemma on_session_fail:
  assumes "ready w" "live i w"
  shows "on_session i (fail_session c e) w (fail_with_status i c e w)"
proof (cases "s_finished (ses w i)")
  case True
  then show ?thesis using on_session_id [OF assms(2)]
    by (auto simp: settle_folds fail_session_def intro: on_session_cong)
next
  case False
  note step = on_session_settle [OF assms False, of record_request_failed]
  define v where "v = settle i record_request_failed w"
  have started: "s_response_started (ses v i) = s_response_started (ses w i)"
    using step by (simp add: v_def on_session_def ses_def)
  have "on_session i (\<lambda>s. s\<lparr>s_client_open := False\<rparr>) v (close_client i v)"
    by (simp add: close_client_def on_session_upd)
  note closed = on_session_comp [OF step [folded v_def, simplified] this, THEN on_session_cong]
  have "on_session i (\<lambda>s. await Write_Error (send_client (Response c (error_body e)) s)) v
      (upd i (\<lambda>s. await Write_Error (send_client (Response c (error_body e)) s)) v)"
    by (simp add: on_session_upd)
  note answered = on_session_comp [OF step [folded v_def, simplified] this, THEN on_session_cong]
  show ?thesis using False started closed [of "fail_session c e"] answered [of "fail_session c e"]
    by (simp add: settle_folds fail_session_def v_def [symmetric] Let_def split: if_splits)
qed

lemma observed_session:
  assumes "live i w"
  shows "\<exists>f. on_session i f w (fst (observe_sse_chunk i d w)) \<and>
    (\<forall>s. busy (f s) = busy s \<and> s_pending (f s) = s_pending s \<and> s_permit (f s) = s_permit s \<and>
      s_finished (f s) = s_finished s \<and> s_queued (f s) = s_queued s \<and>
      s_request_counted (f s) = s_request_counted s)"
    (is "?Q (fst (observe_sse_chunk i d w))")
proof (rule observe_keeps [of ?Q])
  show "?Q w" using on_session_id [OF assms] by (intro exI [of _ "\<lambda>s. s"]) simp
next
  fix v p assume "?Q v"
  then show "?Q (upd i (\<lambda>s. s\<lparr>s_sse_parser := p\<rparr>) v)"
    using on_session_comp on_session_upd [of "\<lambda>s. s\<lparr>s_sse_parser := p\<rparr>" v i] by fastforce
next
  fix v assume "?Q v"
  then show "?Q (upd i (\<lambda>s. s\<lparr>s_first_data_seen := True\<rparr>) v)"
    using on_session_comp on_session_upd [of "\<lambda>s. s\<lparr>s_first_data_seen := True\<rparr>" v i] by fastforce
next
  fix v m assume "?Q v" and m: "same_counters (sv_metrics v) m"
  then obtain f where f: "on_session i f w v"
    "\<forall>s. busy (f s) = busy s \<and> s_pending (f s) = s_pending s \<and> s_permit (f s) = s_permit s \<and>
      s_finished (f s) = s_finished s \<and> s_queued (f s) = s_queued s \<and>
      s_request_counted (f s) = s_request_counted s" by blast
  have "quiet v (v\<lparr>sv_metrics := m\<rparr>)" using m
    by (auto simp: quiet_def same_counters_def intro: exI [of _ 0])
  then have "on_session i f w (v\<lparr>sv_metrics := m\<rparr>)" using f(1) m quiet_trans
    by (auto simp: on_session_def credit_def balance_def same_counters_def ses_def)
  then show "?Q (v\<lparr>sv_metrics := m\<rparr>)" using f(2) by blast
qed

end
