(* ===== verification/ProxyProtocol.thy ===== *)
theory ProxyProtocol
  imports ProxyEffects
begin

text \<open>
  The protocol of the sessions, as an invariant of every state that the event loop reaches: which
  operations a session waits for, when it has a permit, how the queue and the counters add up.
\<close>

subsection \<open>The states of a session\<close>

text \<open>Nothing has been sent to the client.\<close>

definition untouched :: "session \<Rightarrow> bool" where
  "untouched s \<longleftrightarrow> \<not> s_response_started s \<and> s_out s = []"

text \<open>
  \<open>session_ok e s\<close>, with \<open>e\<close> posted closures that will enqueue the session: it waits for one thing
  at a time, apart from timers and the write of an error; it has a permit exactly while it is
  unfinished and works on the upstream; and an unfinished request is always somewhere.
\<close>

definition session_ok :: "nat \<Rightarrow> session \<Rightarrow> bool" where
  "session_ok e s \<longleftrightarrow>
     length (busy s) + e + (if s_queued s then 1 else 0) \<le> 1 \<and>
     (s_finished s \<longrightarrow> \<not> s_queued s \<and> e = 0 \<and> list_all upstream_op (busy s)) \<and>
     (has_permit s \<longleftrightarrow> \<not> s_finished s \<and> list_ex upstream_op (busy s)) \<and>
     (pending_request s \<longrightarrow> e = 1 \<or> s_queued s \<or> has_permit s) \<and>
     (e = 1 \<or> s_queued s \<or> has_permit s \<longrightarrow> s_request_counted s) \<and>
     (s_queued s \<longrightarrow> Queue_Timer False \<in> set (s_pending s)) \<and>
     (\<not> s_finished s \<longrightarrow> busy s \<noteq> [] \<or> e = 1 \<or> s_queued s) \<and>
     (Read_Request \<in> set (busy s) \<longrightarrow> s_pending s = [Read_Request] \<and> untouched s) \<and>
     (e = 1 \<longrightarrow> s_pending s = []) \<and>
     ((\<exists>b. Request_Timer b \<in> set (s_pending s)) \<longrightarrow> s_finished s \<or> has_permit s) \<and>
     (has_permit s \<longrightarrow> Request_Timer False \<in> set (s_pending s))"

lemma session_fields [simp]:
  "s_finished (await a s) = s_finished s" "s_finished (send_client m s) = s_finished s"
  "s_queued (await a s) = s_queued s" "s_queued (send_client m s) = s_queued s"
  "s_request_counted (await a s) = s_request_counted s"
  "s_request_counted (send_client m s) = s_request_counted s"
  "s_response_started (await a s) = s_response_started s"
  "s_response_started (send_client m s) = s_response_started s"
  "s_pending (await a s) = a # s_pending s" "s_pending (send_client m s) = s_pending s"
  by (simp_all add: await_def send_client_def)

text \<open>A session whose upstream operation has just completed, and one that may be answered.\<close>

definition handling :: "session \<Rightarrow> bool" where
  "handling s \<longleftrightarrow> busy s = [] \<and> \<not> s_queued s \<and> (has_permit s \<longleftrightarrow> \<not> s_finished s) \<and>
     (has_permit s \<longrightarrow> s_request_counted s \<and> Request_Timer False \<in> set (s_pending s))"

definition answerable :: "session \<Rightarrow> bool" where
  "answerable s \<longleftrightarrow> length (busy s) \<le> 1 \<and> list_all upstream_op (busy s) \<and> \<not> s_queued s \<and>
     (s_finished s \<longrightarrow> \<not> has_permit s)"

lemma session_okD:
  assumes "session_ok e s"
  shows "length (busy s) + e + (if s_queued s then 1 else 0) \<le> 1"
    and "s_finished s \<Longrightarrow> \<not> s_queued s \<and> e = 0 \<and> list_all upstream_op (busy s)"
    and "has_permit s \<longleftrightarrow> \<not> s_finished s \<and> list_ex upstream_op (busy s)"
    and "pending_request s \<Longrightarrow> e = 1 \<or> s_queued s \<or> has_permit s"
    and "e = 1 \<or> s_queued s \<or> has_permit s \<Longrightarrow> s_request_counted s"
    and "s_queued s \<Longrightarrow> Queue_Timer False \<in> set (s_pending s)"
    and "\<not> s_finished s \<Longrightarrow> busy s \<noteq> [] \<or> e = 1 \<or> s_queued s"
    and "Read_Request \<in> set (busy s) \<Longrightarrow> s_pending s = [Read_Request] \<and> untouched s"
    and "e = 1 \<Longrightarrow> s_pending s = []"
    and "Request_Timer b \<in> set (s_pending s) \<Longrightarrow> s_finished s \<or> has_permit s"
    and "has_permit s \<Longrightarrow> Request_Timer False \<in> set (s_pending s)"
  using assms unfolding session_ok_def by blast+

lemma upstream_main: "upstream_op a \<Longrightarrow> main_op a"
  by (simp add: main_op_def)

lemma handling_answerable: "handling s \<Longrightarrow> answerable s"
  by (auto simp: handling_def answerable_def)

lemma handling_await:
  "handling s \<Longrightarrow> upstream_op a \<Longrightarrow> session_ok 0 (await a s)"
  by (auto simp: handling_def session_ok_def upstream_main pending_request_def)

lemma answer_ok:
  assumes "answerable s"
  shows "session_ok 0 (finish_session s)" "session_ok 0 (fail_session c e s)"
    "s_queued (finish_session s) = s_queued s" "s_queued (fail_session c e s) = s_queued s"
proof -
  have "Read_Request \<notin> set (busy s)" using assms by (auto simp: answerable_def list_all_iff)
  moreover have "\<not> main_op Write_Error" by (simp add: main_op_def)
  ultimately show "session_ok 0 (finish_session s)" "session_ok 0 (fail_session c e s)"
    "s_queued (finish_session s) = s_queued s" "s_queued (fail_session c e s) = s_queued s"
    using assms by (auto simp: answerable_def session_ok_def finish_session_def fail_session_def
        pending_request_def Let_def)
qed

subsection \<open>Completions of the upstream operations\<close>

text \<open>What a handler leaves: its own session, in order, and the server as \<open>on_session\<close> says.\<close>

definition handled :: "nat \<Rightarrow> server \<Rightarrow> server \<Rightarrow> bool" where
  "handled i w w' \<longleftrightarrow> (\<exists>f. on_session i f w w' \<and> session_ok 0 (f (ses w i)) \<and> \<not> s_queued (f (ses w i)))"

lemma handled_fail:
  "ready w \<Longrightarrow> live i w \<Longrightarrow> answerable (ses w i) \<Longrightarrow> handled i w (fail_with_status i c e w)"
  unfolding handled_def
  by (intro exI [of _ "fail_session c e"]) (simp add: on_session_fail answer_ok, simp add: answerable_def)

lemma handled_finish:
  "ready w \<Longrightarrow> live i w \<Longrightarrow> answerable (ses w i) \<Longrightarrow> handled i w (finish_request i w)"
  unfolding handled_def
  by (intro exI [of _ finish_session]) (simp add: on_session_finish answer_ok, simp add: answerable_def)

lemma handled_await:
  assumes "handling (f (ses w i))" "pending_request (f (ses w i)) = pending_request (ses w i)" "upstream_op a"
  shows "handled i w (upd i (\<lambda>s. await a (f s)) w)"
proof -
  have "\<not> s_queued (f (ses w i))" using assms(1) by (simp add: handling_def)
  then show ?thesis unfolding handled_def
    by (intro exI [of _ "\<lambda>s. await a (f s)"]) (use assms in \<open>simp add: handling_await on_session_upd\<close>)
qed

lemma handled_comp:
  assumes "on_session i f w v" "handled i v w'"
  shows "handled i w w'"
proof -
  obtain g where g: "on_session i g v w'" "session_ok 0 (g (ses v i))" "\<not> s_queued (g (ses v i))"
    using assms(2) by (auto simp: handled_def)
  have "ses v i = f (ses w i)" using assms(1) by (simp add: on_session_def ses_def)
  then show ?thesis unfolding handled_def
    using on_session_comp [OF assms(1) g(1)] g(2,3) by (intro exI [of _ "\<lambda>s. g (f s)"]) simp
qed

lemma handling_fields:
  "handling (s\<lparr>s_upstream_open := b\<rparr>) = handling s" "handling (s\<lparr>s_upstream := u\<rparr>) = handling s"
  "handling (s\<lparr>s_response_started := b\<rparr>) = handling s" "handling (send_client m s) = handling s"
  by (simp_all add: handling_def)

lemma handled_read_body:
  "ready w \<Longrightarrow> handling (ses w i) \<Longrightarrow> handled i w (read_upstream_body i w)"
  using handled_await [of "\<lambda>s. s" w i Read_Body] by (simp add: read_upstream_body_def ready_def)

lemma handled_write_body:
  assumes "ready w" "live i w" "handling (ses w i)"
  shows "handled i w (write_downstream_body i d b w)"
  using handled_finish [OF assms(1,2) handling_answerable [OF assms(3)]]
    handled_await [of "send_client (Sse_Chunk d)" w i "Write_Body b"] assms(3)
  by (simp add: write_downstream_body_def handling_fields)

lemma upstream_completion:
  assumes "ready w" "live i w" "handling (ses w i)" "completes c a" "upstream_op a"
  shows "handled i w (on_completion i c w)"
proof -
  note fail = handled_fail [OF assms(1,2) handling_answerable [OF assms(3)]]
  note finish = handled_finish [OF assms(1,2) handling_answerable [OF assms(3)]]
  note read = handled_read_body [OF assms(1,3)]
  have alive: "sv_alive w" using assms(1) by (simp add: ready_def)
  show ?thesis
  proof (cases c)
    case (Resolved ok)
    have "handled i w (connect_upstream i w)"
      using handled_await [of "\<lambda>s. s\<lparr>s_upstream_open := True\<rparr>" w i Connect] assms(3) alive
      by (simp add: connect_upstream_def handling_fields)
    then show ?thesis using fail Resolved by simp
  next
    case (Connected ok)
    have "handled i w (write_upstream_request i w)"
      using handled_await [of "\<lambda>s. if s_upstream_open s then s\<lparr>s_upstream := s_upstream s @ [rq_body (s_request s)]\<rparr> else s"
          w i Write_Upstream] assms(3) alive
      by (simp add: write_upstream_request_def handling_fields)
    then show ?thesis using fail Connected by simp
  next
    case (Upstream_Written ok)
    then show ?thesis using fail handled_await [of "\<lambda>s. s" w i Read_Header] assms(3)
      by (simp add: read_upstream_header_def)
  next
    case (Header_Read status)
    have "handled i w (write_downstream_sse_header i w)"
      using handled_await [of "\<lambda>s. send_client Sse_Header (s\<lparr>s_response_started := True\<rparr>)"
          w i Write_Sse_Header] assms(3)
      by (simp add: write_downstream_sse_header_def handling_fields)
    then show ?thesis using fail Header_Read by (simp split: option.splits)
  next
    case (Sse_Header_Written ok)
    then show ?thesis using finish read by simp
  next
    case (Body_Read ec is_done bytes)
    obtain v stop where v: "observe_sse_chunk i bytes w = (v, stop)" by fastforce
    obtain f where f: "on_session i f w v" "handling (f (ses w i))"
      using observed_session [OF assms(2), of bytes] assms(3) v by (fastforce simp: handling_def)
    have "ready v" "live i v" "handling (ses v i)"
      using on_session_ready [OF f(1) assms(1)] f by (auto simp: on_session_def ses_def)
    then have "handled i w (write_downstream_body i bytes stop v)"
      using handled_comp [OF f(1)] handled_write_body by blast
    then show ?thesis using fail read handled_write_body [OF assms(1-3)] Body_Read v by simp
  next
    case (Body_Written ok d)
    then show ?thesis using fail finish read by simp
  qed (use assms(4,5) in auto)
qed

subsection \<open>The invariant\<close>

definition is_enqueue :: "task \<Rightarrow> bool" where
  "is_enqueue t = (case t of Enqueue _ \<Rightarrow> True | _ \<Rightarrow> False)"

definition posted :: "nat \<Rightarrow> server \<Rightarrow> nat" where
  "posted i w = count_list (sv_tasks w) (Enqueue i)"

definition enqueues :: "server \<Rightarrow> nat" where
  "enqueues w = length (filter is_enqueue (sv_tasks w))"

text \<open>
  While the server is not stopping, the limiter counts the queued sessions and those about to be
  enqueued, and every counted request is completed, failed or unfinished. No handler throws, unless
  the parser cannot be constructed. The sessions \<open>X\<close> are in the hands of a handler.
\<close>

definition protocol_except :: "nat set \<Rightarrow> server \<Rightarrow> bool" where
  "protocol_except X w \<longleftrightarrow> (\<forall>i s. i \<notin> X \<and> sv_sessions w i = Some s \<longrightarrow> session_ok (posted i w) s) \<and>
     closed (sv_limiter w) = sv_stopping w \<and>
     (\<not> sv_stopping w \<longrightarrow> queued_of (sv_limiter w) = tally s_queued w + enqueues w) \<and>
     (\<not> sv_stopping w \<longrightarrow> balance w = of_nat (tally pending_request w)) \<and>
     metrics_ok (sv_metrics w) \<and> sw_capacity (pm_ttft_window (sv_metrics w)) = 256 \<and>
     (sv_crash w = None \<or> pc_max_sse_buffer_bytes (sv_config w) = 0)"

abbreviation protocol_ok :: "server \<Rightarrow> bool" where
  "protocol_ok w \<equiv> protocol_except {} w"

text \<open>
  Every queued session is in the server's list, and a free slot with requests waiting means that a
  promotion is posted behind the last request to be enqueued: no wakeup is lost.
\<close>

definition promotion_posted :: "task list \<Rightarrow> bool" where
  "promotion_posted ts \<longleftrightarrow> Promote_Queued \<in> set (takeWhile (\<lambda>t. \<not> is_enqueue t) (rev ts))"

definition wakeup :: "server \<Rightarrow> bool" where
  "wakeup w \<longleftrightarrow> max_inflight (sv_limiter w) \<le> current_inflight (sv_limiter w) \<or>
     queued_requests (sv_limiter w) = 0 \<or> promotion_posted (sv_tasks w)"

definition listed :: "server \<Rightarrow> bool" where
  "listed w \<longleftrightarrow> (\<forall>i s. sv_sessions w i = Some s \<and> s_queued s \<longrightarrow> i \<in> set (sv_queued_sessions w))"

definition queue_ok :: "server \<Rightarrow> bool" where
  "queue_ok w \<longleftrightarrow> (sv_stopping w \<or> listed w \<and> wakeup w)"

lemma is_enqueue_simps [simp]:
  "is_enqueue (Enqueue i)" "\<not> is_enqueue Do_Accept" "\<not> is_enqueue Promote_Queued" "\<not> is_enqueue Stop_Server"
  by (simp_all add: is_enqueue_def)

lemma promotion_posted_simps [simp]:
  "promotion_posted (ts @ [t]) \<longleftrightarrow> t = Promote_Queued \<or> \<not> is_enqueue t \<and> promotion_posted ts"
  "promotion_posted (ts @ replicate n Promote_Queued) \<longleftrightarrow> 0 < n \<or> promotion_posted ts"
  by (auto simp: promotion_posted_def takeWhile_append)

lemma posted_simps [simp]: "count_list (replicate n Promote_Queued) (Enqueue i) = 0"
  "filter is_enqueue (replicate n Promote_Queued) = []"
  by (induction n) simp_all

text \<open>Everything that is counted depends on the sessions alone.\<close>

lemma on_session_tally:
  assumes "on_session i f w w'"
  shows "tally P w' = tally P (upd i f w)"
  using assms by (simp add: on_session_def quiet_def tally_def)

lemma quiet_tasks:
  assumes "quiet w w'"
  shows "posted i w' = posted i w" "enqueues w' = enqueues w"
  using assms by (auto simp: quiet_def posted_def enqueues_def)

lemma quiet_wakeup:
  assumes "quiet w w'" "wakeup w"
  shows "wakeup w'"
proof -
  obtain n where "sv_tasks w' = sv_tasks w @ replicate n Promote_Queued"
    "n = 0 \<longrightarrow> current_inflight (sv_limiter w) \<le> current_inflight (sv_limiter w')"
    "queued_requests (sv_limiter w') = queued_requests (sv_limiter w)"
    "max_inflight (sv_limiter w') = max_inflight (sv_limiter w)"
    using assms(1) by (auto simp: quiet_def limits_def)
  then show ?thesis using assms(2) by (cases "n = 0") (auto simp: wakeup_def)
qed

lemma session_step:
  assumes "numbered w" "live i w" "protocol_except {i} w" "on_session i f w w'"
    and "session_ok (posted i w) (f (ses w i))" "s_queued (f (ses w i)) = s_queued (ses w i)"
  shows "protocol_ok w'" "queue_ok w \<Longrightarrow> queue_ok w'"
proof -
  have q: "quiet w w'" and ss: "sv_sessions w' = (sv_sessions w)(i \<mapsto> f (ses w i))"
    using assms(4) by (simp_all add: on_session_def)
  have "tally pending_request w' + (if pending_request (ses w i) then 1 else 0)
      = tally pending_request w + (if pending_request (f (ses w i)) then 1 else 0)"
    using tally_upd [OF assms(1,2)] on_session_tally [OF assms(4)] by simp
  moreover have "ses w' i = f (ses w i)" using ss by (simp add: ses_def)
  moreover have "credit i w' = credit i w" using assms(4) by (simp add: on_session_def)
  ultimately have "balance w' = of_nat (tally pending_request w')"
    if "balance w = of_nat (tally pending_request w)"
    using that by (auto simp: credit_def algebra_simps split: if_splits dest!: arg_cong [of _ _ "of_nat :: nat \<Rightarrow> size_t"])
      (metis add_left_cancel)
  moreover have "tally s_queued w' = tally s_queued w"
    using on_session_tally [OF assms(4)] assms(1,2,6) by simp
  moreover have "session_ok (posted j w') t" if "sv_sessions w' j = Some t" for j t
    using that ss assms(3,5) quiet_tasks [OF q] by (auto simp: protocol_except_def split: if_splits)
  ultimately show "protocol_ok w'" using assms(3) quiet_tasks [OF q] q
    by (simp add: protocol_except_def) (simp add: quiet_def limits_def)
  have "listed w'" if "listed w" using that ss q assms(2,6)
    by (auto simp: listed_def quiet_def live_ses split: if_splits)
  then show "queue_ok w'" if "queue_ok w" using that quiet_wakeup [OF q] q
    by (auto simp: queue_ok_def quiet_def)
qed

lemma protocol_exceptI: "protocol_ok w \<Longrightarrow> protocol_except X w"
  by (auto simp: protocol_except_def)

lemma handled_step:
  assumes "numbered w" "live i w" "protocol_except {i} w" "handled i w w'" "posted i w = 0" "\<not> s_queued (ses w i)"
  shows "protocol_ok w'" "queue_ok w \<Longrightarrow> queue_ok w'"
proof -
  obtain f where f: "on_session i f w w'" "session_ok 0 (f (ses w i))" "\<not> s_queued (f (ses w i))"
    using assms(4) by (auto simp: handled_def)
  then show "protocol_ok w'" "queue_ok w \<Longrightarrow> queue_ok w'"
    using session_step [OF assms(1-3) f(1)] assms(5,6) by auto
qed

subsection \<open>Completions\<close>

definition completed :: "async \<Rightarrow> session \<Rightarrow> session" where
  "completed a s = s\<lparr>s_pending := remove1 a (s_pending s)\<rparr>"

lemma completed_simps [simp]:
  "s_finished (completed a s) = s_finished s" "s_queued (completed a s) = s_queued s"
  "s_permit (completed a s) = s_permit s" "s_request_counted (completed a s) = s_request_counted s"
  "s_request (completed a s) = s_request s" "pending_request (completed a s) = pending_request s"
  "s_pending (completed a s) = remove1 a (s_pending s)"
  by (simp_all add: completed_def pending_request_def)

lemma busy_completed [simp]: "busy (completed a s) = (if main_op a then remove1 a (busy s) else busy s)"
proof -
  have "filter main_op (remove1 a xs) = (if main_op a then remove1 a (filter main_op xs) else filter main_op xs)" for xs
    by (induction xs) auto
  then show ?thesis by (simp add: busy_def completed_def)
qed

lemma main_op_busy: "a \<in> set (s_pending s) \<Longrightarrow> main_op a \<Longrightarrow> a \<in> set (busy s)"
  by (simp add: busy_def)

lemma busy_single:
  assumes "session_ok e s" "a \<in> set (s_pending s)" "main_op a"
  shows "busy s = [a]" "e = 0" "\<not> s_queued s"
proof -
  have a: "a \<in> set (busy s)" using assms(2,3) by (rule main_op_busy)
  have "length (busy s) + e + (if s_queued s then 1 else 0) \<le> 1" using assms(1) by (simp add: session_ok_def)
  with a show "busy s = [a]" "e = 0" "\<not> s_queued s"
    by (cases "busy s"; auto split: if_splits)+
qed

lemma completed_handling:
  assumes "session_ok e s" "a \<in> set (s_pending s)" "upstream_op a"
  shows "handling (completed a s)"
proof -
  have "a \<noteq> Request_Timer False" using assms(3) by auto
  then show ?thesis using assms busy_single [OF assms(1,2)] upstream_main [OF assms(3)]
    by (auto simp: handling_def session_ok_def)
qed

lemma completed_harmless:
  assumes "session_ok e s" "\<not> main_op a" "a \<noteq> Queue_Timer False \<or> \<not> s_queued s"
    and "a \<noteq> Request_Timer False \<or> \<not> has_permit s"
  shows "session_ok e (completed a s)"
proof -
  note ok = session_okD [OF assms(1)]
  have "s_queued s \<longrightarrow> Queue_Timer False \<in> set (remove1 a (s_pending s))"
    using ok(6) assms(3) by auto
  moreover have "Read_Request \<in> set (busy s) \<longrightarrow> remove1 a (s_pending s) = [Read_Request] \<and> untouched (completed a s)"
    using ok(8) assms(2) by (auto simp: main_op_def untouched_def completed_def)
  moreover have "Request_Timer b \<in> set (remove1 a (s_pending s)) \<longrightarrow> s_finished s \<or> has_permit s" for b
    using ok(10) set_remove1_subset [of a "s_pending s"] by blast
  moreover have "has_permit s \<longrightarrow> Request_Timer False \<in> set (remove1 a (s_pending s))"
    using ok(11) assms(4) by auto
  ultimately show ?thesis using assms(1,2) by (simp add: session_ok_def) blast
qed

lemma session_ok_client: "session_ok e (s\<lparr>s_client_open := b\<rparr>) = session_ok e s"
  by (simp add: session_ok_def untouched_def)

lemma on_session_completed: "on_session i (completed a) w (upd i (completed a) w)"
  by (simp add: on_session_upd)

text \<open>The request timer, and the last write of a session.\<close>

lemma handled_upd:
  assumes "pending_request (f (ses w i)) = pending_request (ses w i)"
    and "session_ok 0 (f (ses w i))" "\<not> s_queued (f (ses w i))"
  shows "handled i w (upd i f w)"
  unfolding handled_def using assms on_session_upd by blast

lemma request_timer_answerable:
  assumes "session_ok e s" "Request_Timer b \<in> set (s_pending s)" "\<not> s_finished s"
  shows "answerable (completed (Request_Timer b) s)" "e = 0" "\<not> s_queued s"
proof -
  obtain a where a: "a \<in> set (busy s)" "upstream_op a"
    using session_okD(3,10) [OF assms(1)] assms(2,3) by (auto simp: list_ex_iff)
  have "a \<in> set (s_pending s)" using a(1) by (simp add: busy_def)
  from busy_single [OF assms(1) this upstream_main [OF a(2)]] a(2) assms(3)
  show "answerable (completed (Request_Timer b) s)" "e = 0" "\<not> s_queued s"
    by (auto simp: answerable_def main_op_def)
qed

lemma last_write_handled:
  assumes "session_ok e s" "Write_Response \<in> set (s_pending s)" "ses w i = completed Write_Response s"
  shows "handled i w (close_client i (upd i (\<lambda>s. s\<lparr>s_finished := True\<rparr>) w))"
proof -
  have m: "main_op Write_Response" by (simp add: main_op_def)
  note b = busy_single [OF assms(1,2) m]
  have "\<not> has_permit s \<and> \<not> pending_request s" using assms(1) b by (auto simp: session_ok_def)
  then have "session_ok 0 ((ses w i)\<lparr>s_finished := True, s_client_open := False\<rparr>)"
    "pending_request ((ses w i)\<lparr>s_finished := True, s_client_open := False\<rparr>) = pending_request (ses w i)"
    "\<not> s_queued ((ses w i)\<lparr>s_finished := True, s_client_open := False\<rparr>)"
    using b assms(3) m by (auto simp: session_ok_def pending_request_def)
  then show ?thesis using handled_upd [of "\<lambda>s. s\<lparr>s_finished := True, s_client_open := False\<rparr>" w i]
    by (simp add: close_client_def)
qed

subsection \<open>A request arrives\<close>

definition fresh :: "session \<Rightarrow> bool" where
  "fresh s \<longleftrightarrow> s_pending s = [] \<and> \<not> s_queued s \<and> \<not> s_finished s \<and> \<not> has_permit s \<and> \<not> s_request_counted s"

text \<open>A counted session that may start its work on the upstream.\<close>

definition startable :: "session \<Rightarrow> bool" where
  "startable s \<longleftrightarrow> busy s = [] \<and> \<not> s_queued s \<and> \<not> s_finished s \<and> s_request_counted s"

lemma handled_start:
  assumes "ready w" "live i w" "startable (ses w i)"
  shows "handled i w (start_proxy_request i p w)"
proof -
  let ?f = "\<lambda>s. s\<lparr>s_permit := Some (fst (move_permit p))\<rparr>"
  let ?g = "\<lambda>s. s\<lparr>s_request_start := Some (sv_clock (set_permit i p w))\<rparr>"
  let ?h = "await (Request_Timer False)"
  define w1 where "w1 = set_permit i p w"
  have 1: "on_session i ?f w w1" unfolding w1_def by (rule on_session_set [OF assms(1,2)])
  have 2: "on_session i ?g w1 (upd i ?g w1)" by (simp add: on_session_upd)
  have 3: "on_session i ?h (upd i ?g w1) (upd i ?h (upd i ?g w1))" by (rule on_session_upd) simp
  note step = on_session_comp [OF 1 on_session_comp [OF 2 3]]
  define v where "v = upd i ?h (upd i ?g w1)"
  have v: "ready v" "ses v i = ?h (?g (?f (ses w i)))"
    using on_session_ready [OF step assms(1)] step by (auto simp: v_def on_session_def ses_def)
  have "\<not> main_op (Request_Timer False)" by (simp add: main_op_def)
  then have "handling (ses v i)" using assms(3) v(2) by (simp add: handling_def startable_def)
  then have "handled i v (resolve_upstream i v)"
    using handled_await [of "\<lambda>s. s" v i Resolve] v(1) by (simp add: resolve_upstream_def ready_def)
  moreover have "start_proxy_request i p w = resolve_upstream i v"
    using v(1) by (simp add: start_proxy_request_def start_request_timer_def w1_def v_def Let_def ready_def)
  ultimately show ?thesis using handled_comp [OF step [folded v_def]] by simp
qed

lemma snapshot_defined:
  assumes "metrics_ok m" "sw_capacity (pm_ttft_window m) = 256"
  shows "\<exists>s. metrics_snapshot_of m = Inr s"
proof -
  have win: "window_ok (pm_ttft_window m)" using assms(1) by (simp add: metrics_ok_def)
  have "length (sw_samples (pm_ttft_window m)) \<le> 2 ^ 40"
    using window.bounded [OF win] assms(2) by simp
  then show ?thesis using p95_defined [OF win] by (auto simp: metrics_snapshot_of_def)
qed

lemma handled_health:
  assumes "ready w" "live i w" "fresh (ses w i)" "metrics_ok (sv_metrics w)"
    "sw_capacity (pm_ttft_window (sv_metrics w)) = 256"
  shows "handled i w (send_health i w)"
proof -
  let ?m = "sv_metrics w"
  obtain m where m: "metrics_snapshot_of ?m = Inr m" using snapshot_defined [OF assms(4,5)] by blast
  have "\<not> upstream_op Write_Response" "main_op Write_Response" "busy (ses w i) = []"
    using assms(3) by (simp_all add: main_op_def fresh_def busy_def)
  then have "session_ok 0 (await Write_Response (send_client (Response 200 b) (ses w i)))" for b
    using assms(3) by (simp add: session_ok_def fresh_def pending_request_def)
  then show ?thesis using assms(1,3) m
    by (simp add: send_health_def ready_def send_text_response_def handled_upd fresh_def)
qed

text \<open>A proxied request is counted; then the limiter decides.\<close>

lemma on_session_counted:
  assumes "fresh (ses w i)"
  shows "on_session i (\<lambda>s. s\<lparr>s_request_counted := True\<rparr>) w
    (upd i (\<lambda>s. s\<lparr>s_request_counted := True\<rparr>) (with_metrics record_request_started w))"
proof -
  have "quiet w (upd i (\<lambda>s. s\<lparr>s_request_counted := True\<rparr>) (with_metrics record_request_started w))"
    by (auto simp: quiet_def with_metrics_def metrics_ok_def limits_def record_request_started_def intro: exI [of _ 0])
  then show ?thesis using assms
    by (simp add: on_session_def credit_def balance_def with_metrics_def ses_def fresh_def
        pending_request_def record_request_started_def)
qed

lemma quiet_admit:
  assumes "limiter_ok (sv_limiter w)" "try_acquire_or_queue 0 (sv_limiter w) = ((d, p, n), l)" "d \<noteq> Queue"
  shows "quiet w (w\<lparr>sv_limiter := l\<rparr>)"
proof -
  have "current_inflight (sv_limiter w) \<le> current_inflight l"
    using limiter_ok_step(1) [OF assms(1,2)] by (simp add: word_le_nat_alt)
  then show ?thesis using assms(2,3)
    by (auto simp: quiet_def limits_def try_acquire_or_queue_def Let_def split: if_splits intro: exI [of _ 0])
qed

lemma fresh_simps [simp]: "fresh s \<Longrightarrow> answerable s" "fresh s \<Longrightarrow> answerable (s\<lparr>s_request_counted := True\<rparr>)"
  "fresh s \<Longrightarrow> startable (s\<lparr>s_request_counted := True\<rparr>)"
  by (auto simp: fresh_def answerable_def startable_def busy_def)

lemma request_handled:
  assumes "ready w" "live i w" "fresh (ses w i)" "limiter_ok (sv_limiter w)" "metrics_ok (sv_metrics w)"
    and "sw_capacity (pm_ttft_window (sv_metrics w)) = 256"
  shows "handled i w (handle_request i w) \<or>
    (\<exists>l n. try_acquire_or_queue 0 (sv_limiter w) = ((Queue, no_permit, n), l) \<and>
      handle_request i w = post (Enqueue i) ((upd i (\<lambda>s. s\<lparr>s_request_counted := True\<rparr>)
        (with_metrics record_request_started w))\<lparr>sv_limiter := l\<rparr>))"
proof -
  let ?f = "\<lambda>s. s\<lparr>s_request_counted := True\<rparr>"
  define w1 where "w1 = upd i ?f (with_metrics record_request_started w)"
  note step = on_session_counted [OF assms(3), folded w1_def]
  have lim: "sv_limiter w1 = sv_limiter w" by (simp add: w1_def with_metrics_def)
  obtain d p n l where acq: "try_acquire_or_queue 0 (sv_limiter w) = ((d, p, n), l)"
    by (metis prod_cases3 prod.collapse)
  let ?w2 = "w1\<lparr>sv_limiter := l\<rparr>"
  have json: "handled i w (send_json_error i c e w)" for c e
    using handled_fail [OF assms(1,2)] assms(3) by (simp add: send_json_error_def)
  have "handled i w (if d = Admit then start_proxy_request i p ?w2 else send_json_error i c e ?w2)"
    if "d \<noteq> Queue" for c e
  proof -
    have "quiet w1 ?w2" using quiet_admit [of w1] acq lim assms(4) that by simp
    moreover have "live i w1" "sv_sessions ?w2 = sv_sessions w1" "sv_metrics ?w2 = sv_metrics w1"
      by (simp_all add: w1_def)
    ultimately have "on_session i (\<lambda>s. s) w1 ?w2"
      by (simp add: on_session_def credit_def balance_def live_ses ses_def fun_upd_idem)
    from on_session_comp [OF step this] have two: "on_session i ?f w ?w2" by simp
    have "ready ?w2" "live i ?w2" "ses ?w2 i = ?f (ses w i)"
      using on_session_ready [OF two assms(1)] two by (auto simp: on_session_def ses_def)
    then have "handled i ?w2 (start_proxy_request i p ?w2)" "handled i ?w2 (send_json_error i c e ?w2)"
      using handled_start handled_fail assms(3) by (simp_all add: send_json_error_def)
    then show ?thesis using handled_comp [OF two] by simp
  qed
  note decided = this
  have "p = no_permit" if "d = Queue" using acq that
    by (auto simp: try_acquire_or_queue_def Let_def split: if_splits)
  then show ?thesis
    using json handled_health [OF assms(1,2,3,5,6)] decided acq assms(1) lim
    by (cases d) (auto simp: handle_request_def Let_def w1_def [symmetric] ready_def)
qed

lemma queued_request_step:
  assumes "permits_ok 0 w" "protocol_ok w" "sv_sessions w i = Some s" "Read_Request \<in> set (s_pending s)"
    and v: "v = upd i (\<lambda>s. (completed Read_Request s)\<lparr>s_request := rq\<rparr>) w"
    and acq: "try_acquire_or_queue 0 (sv_limiter v) = ((Queue, p, n), l)"
    and w': "w' = post (Enqueue i) ((upd i (\<lambda>s. s\<lparr>s_request_counted := True\<rparr>)
        (with_metrics record_request_started v))\<lparr>sv_limiter := l\<rparr>)"
  shows "protocol_ok w'" "queue_ok w \<Longrightarrow> queue_ok w'"
proof -
  let ?t = "(completed Read_Request s)\<lparr>s_request := rq, s_request_counted := True\<rparr>"
  have m: "main_op Read_Request" by (simp add: main_op_def)
  have ok: "session_ok (posted i w) s" using assms(2,3) by (simp add: protocol_except_def)
  note b = busy_single [OF ok assms(4) m]
  note d = session_okD [OF ok]
  have s: "ses w i = s" "live i w" using assms(3) by (simp_all add: ses_def live_def)
  have fin: "\<not> s_finished s" "\<not> has_permit s" "s_pending s = [Read_Request]" "\<not> pending_request s"
    using b d(2,3,4,8) by auto
  have ss: "sv_sessions w' = (sv_sessions w)(i \<mapsto> ?t)" using s by (simp add: w' v with_metrics_def ses_def)
  have t: "session_ok 1 ?t" using b fin m by (simp add: session_ok_def)
  have q: "queued_requests l = queued_requests (sv_limiter w) + 1" "max_inflight l \<le> current_inflight l"
    "queued_requests (sv_limiter w) < max_queue_size (sv_limiter w)" "closed l = closed (sv_limiter w)"
    using acq by (auto simp: v try_acquire_or_queue_def Let_def not_less split: if_splits)
  have fields: "sv_limiter w' = l" "sv_stopping w' = sv_stopping w" "sv_tasks w' = sv_tasks w @ [Enqueue i]"
    "sv_metrics w' = record_request_started (sv_metrics w)" "sv_next w' = sv_next w"
    "sv_crash w' = sv_crash w" "sv_config w' = sv_config w"
    "sv_queued_sessions w' = sv_queued_sessions w"
    by (simp_all add: w' v with_metrics_def post_def)
  have tally: "tally P w' = tally P (upd i (\<lambda>_. ?t) w)" for P using ss fields(5) by (simp add: tally_def)
  have num: "numbered w" using assms(1) by (simp add: permits_ok_def)
  have "tally s_queued w' = tally s_queued w" "tally pending_request w' = tally pending_request w + 1"
    using tally_upd [OF num s(2), of s_queued "\<lambda>_. ?t"] tally_upd [OF num s(2), of pending_request "\<lambda>_. ?t"]
      tally s fin b by (simp_all add: pending_request_def)
  moreover have "enqueues w' = enqueues w + 1" "posted j w' = posted j w + (if j = i then 1 else 0)" for j
    using fields by (simp_all add: enqueues_def posted_def)
  moreover have "queued_of l = queued_of (sv_limiter w) + 1" using q(1) unat_inc_less [OF q(3)] by simp
  moreover have "balance w' = balance w + 1" "metrics_ok (sv_metrics w') = metrics_ok (sv_metrics w)"
    "pm_ttft_window (sv_metrics w') = pm_ttft_window (sv_metrics w)"
    by (simp_all add: balance_def fields record_request_started_def metrics_ok_def)
  moreover have "session_ok (posted j w + (if j = i then 1 else 0)) u" if "sv_sessions w' j = Some u" for j u
    using that ss t b assms(2) by (auto simp: protocol_except_def split: if_splits)
  ultimately show "protocol_ok w'" using assms(2) fields q(4) by (simp add: protocol_except_def)
  show "queue_ok w'" if "queue_ok w" using that fields q(2) ss s b
    by (auto simp: queue_ok_def wakeup_def listed_def)
qed

text \<open>The queue timer expires.\<close>

lemma queue_timeout_step:
  assumes "permits_ok 0 w" "protocol_ok w" "sv_sessions w i = Some s" "Queue_Timer b \<in> set (s_pending s)"
    and "s_queued s"
    and v: "v = upd i (completed (Queue_Timer b)) w"
    and v': "v' = upd i (\<lambda>s. s\<lparr>s_queued := False\<rparr>) (v\<lparr>sv_limiter := snd (cancel_queued (sv_limiter v))\<rparr>)"
  shows "protocol_ok (send_json_error i c e v')" "queue_ok w \<Longrightarrow> queue_ok (send_json_error i c e v')"
proof -
  let ?g = "\<lambda>s. (completed (Queue_Timer b) s)\<lparr>s_queued := False\<rparr>"
  let ?l = "sv_limiter w"
  have nm: "\<not> main_op (Queue_Timer b)" by (simp add: main_op_def)
  have ok: "session_ok (posted i w) s" using assms(2,3) by (simp add: protocol_except_def)
  note d = session_okD [OF ok]
  have s: "ses w i = s" "live i w" using assms(3) by (simp_all add: ses_def live_def)
  have num: "numbered w" "sv_alive w" "on_release ?l = Some ()" using assms(1) by (simp_all add: permits_ok_def)
  have qs: "busy s = []" "posted i w = 0" "\<not> s_finished s" "\<not> has_permit s" "s_request_counted s"
    using assms(5) d(1,2,3,5) by auto
  have lim: "sv_limiter v' = snd (cancel_queued ?l)" by (simp add: v v')
  have fields: "sv_stopping v' = sv_stopping w" "sv_tasks v' = sv_tasks w" "sv_metrics v' = sv_metrics w"
    "sv_next v' = sv_next w" "sv_queued_sessions v' = sv_queued_sessions w" "sv_alive v' = sv_alive w"
    "sv_crash v' = sv_crash w" "sv_config v' = sv_config w"
    by (simp_all add: v v')
  have ss: "sv_sessions v' = (sv_sessions w)(i \<mapsto> ?g s)" using s by (simp add: v v' ses_def)
  have tally: "tally P v' = tally P (upd i ?g w)" for P using ss fields(4) s by (simp add: tally_def)
  have cnt: "tally s_queued v' + 1 = tally s_queued w" "tally pending_request v' = tally pending_request w"
    using tally_upd [OF num(1) s(2), of s_queued ?g] tally_upd [OF num(1) s(2), of pending_request ?g]
      tally s assms(5) qs by (simp_all add: pending_request_def)
  have "queued_of ?l = tally s_queued w + enqueues w" if "\<not> sv_stopping w"
    using assms(2) that by (simp add: protocol_except_def)
  then have dec: "queued_of (snd (cancel_queued ?l)) = tally s_queued v' + enqueues w" if "\<not> sv_stopping w"
    using cnt(1) that unat_dec_pos [of "queued_requests ?l"]
    by (auto simp: cancel_queued_def unat_eq_0 split: if_splits)
  have lims: "closed (snd (cancel_queued ?l)) = closed ?l" "current_inflight (snd (cancel_queued ?l)) = current_inflight ?l"
    "on_release (snd (cancel_queued ?l)) = on_release ?l" "max_inflight (snd (cancel_queued ?l)) = max_inflight ?l"
    by (auto simp: cancel_queued_def)
  have ready: "ready v'" "live i v'" "answerable (ses v' i)" "ses v' i = ?g s"
    using num lim lims fields ss qs nm by (simp_all add: ready_def live_def ses_def answerable_def)
  have "numbered v'" using ss fields(4) num(1) s(2) by (auto simp: numbered_def live_def split: if_splits)
  moreover have "protocol_except {i} v'"
    using assms(2) dec cnt(2) fields lim lims ss
    by (auto simp: protocol_except_def posted_def enqueues_def balance_def)
  moreover have "handled i v' (send_json_error i c e v')"
    using handled_fail [OF ready(1-3)] by (simp add: send_json_error_def)
  moreover have "posted i v' = 0" "\<not> s_queued (ses v' i)" using qs ready(4) fields by (simp_all add: posted_def)
  moreover have "queue_ok v'" if "queue_ok w"
    using that fields lim lims ss by (auto simp: queue_ok_def listed_def wakeup_def cancel_queued_def split: if_splits)
  ultimately show "protocol_ok (send_json_error i c e v')"
    "queue_ok w \<Longrightarrow> queue_ok (send_json_error i c e v')" using handled_step [OF _ ready(2)] by blast+
qed

subsection \<open>Every completion\<close>

lemma read_request_step:
  assumes "permits_ok 0 w" "protocol_ok w" "sv_sessions w i = Some s" "Read_Request \<in> set (s_pending s)"
    and v: "v = upd i (\<lambda>s. (completed Read_Request s)\<lparr>s_request := rq\<rparr>) w"
  shows "protocol_ok (handle_request i v)" "queue_ok w \<Longrightarrow> queue_ok (handle_request i v)"
proof -
  have m: "main_op Read_Request" by (simp add: main_op_def)
  have ok: "session_ok (posted i w) s" using assms(2,3) by (simp add: protocol_except_def)
  note b = busy_single [OF ok assms(4) m] and d = session_okD [OF ok]
  have s: "ses w i = s" "live i w" using assms(3) by (simp_all add: ses_def live_def)
  have w: "numbered w" "ready w" "limiter_ok (sv_limiter w)" using assms(1) by (simp_all add: permits_ok_def ready_def)
  let ?g = "\<lambda>s. (completed Read_Request s)\<lparr>s_request := rq\<rparr>"
  have "fresh (?g s)" using b d(2,3,4,8) by (auto simp: fresh_def pending_request_def)
  then have v': "ready v" "live i v" "fresh (ses v i)" "limiter_ok (sv_limiter v)" "metrics_ok (sv_metrics v)"
    "sw_capacity (pm_ttft_window (sv_metrics v)) = 256"
    using w assms(2) s by (simp_all add: v ready_def protocol_except_def)
  have step: "on_session i ?g w v" unfolding v by (rule on_session_upd) simp
  have "protocol_ok (handle_request i v) \<and> (queue_ok w \<longrightarrow> queue_ok (handle_request i v))"
    if "handled i v (handle_request i v)"
    using that handled_comp [OF step] handled_step [OF w(1) s(2) protocol_exceptI [OF assms(2)]] b s by auto
  then show "protocol_ok (handle_request i v)" "queue_ok w \<Longrightarrow> queue_ok (handle_request i v)"
    using request_handled [OF v'] queued_request_step [OF assms] by blast+
qed

lemma failed_read_handled:
  assumes "session_ok e s" "Read_Request \<in> set (s_pending s)" "ses w i = completed Read_Request s"
  shows "handled i w (on_completion i (Request_Read None) w)"
proof -
  have m: "main_op Read_Request" by (simp add: main_op_def)
  note b = busy_single [OF assms(1,2) m]
  have "\<not> pending_request s" "\<not> has_permit s" using b session_okD(3,4) [OF assms(1)] by auto
  then show ?thesis using assms(3) b m by (simp add: handled_upd session_ok_def pending_request_def)
qed

text \<open>A completion that changes nothing but the pending operations, and perhaps closes the socket.\<close>

lemma harmless_step:
  assumes "permits_ok 0 w" "protocol_ok w" "sv_sessions w i = Some s"
    and "w' = upd i f (upd i (completed a) w)" "f = (\<lambda>s. s) \<or> f = s_client_open_update (\<lambda>_. False)"
    and "\<not> main_op a" "a \<noteq> Queue_Timer False \<or> \<not> s_queued s" "a \<noteq> Request_Timer False \<or> \<not> has_permit s"
  shows "protocol_ok w' \<and> (queue_ok w \<longrightarrow> queue_ok w')"
proof -
  have ok: "session_ok (posted i w) s" using assms(2,3) by (simp add: protocol_except_def)
  have s: "ses w i = s" "live i w" "numbered w" using assms(1,3) by (simp_all add: ses_def live_def permits_ok_def)
  have "on_session i f (upd i (completed a) w) w'" unfolding assms(4) using assms(5) by (intro on_session_upd) auto
  note both = on_session_comp [OF on_session_completed this]
  have "session_ok (posted i w) (f (completed a s))"
    using completed_harmless [OF ok assms(6-8)] assms(5) session_ok_client by auto
  then show ?thesis using session_step [OF s(3,2) protocol_exceptI [OF assms(2)] both] s(1) assms(5) by auto
qed

lemma completion_step:
  assumes "permits_ok 0 w" "protocol_ok w" "sv_sessions w i = Some s" "a \<in> set (s_pending s)" "completes c a"
  shows "protocol_ok (on_completion i c (upd i (completed a) w))"
    "queue_ok w \<Longrightarrow> queue_ok (on_completion i c (upd i (completed a) w))"
proof -
  define v where "v = upd i (completed a) w"
  have ok: "session_ok (posted i w) s" using assms(2,3) by (simp add: protocol_except_def)
  note d = session_okD [OF ok] and single = busy_single [OF ok assms(4)]
  have s: "ses w i = s" "live i w" using assms(3) by (simp_all add: ses_def live_def)
  have w: "numbered w" "ready w" using assms(1) by (simp_all add: permits_ok_def ready_def)
  have v: "ready v" "live i v" "ses v i = completed a s" "sv_alive v"
    using w s by (simp_all add: v_def ready_def)
  let ?w = "on_completion i c v"
  let ?goal = "protocol_ok ?w \<and> (queue_ok w \<longrightarrow> queue_ok ?w)"
  have step: "on_session i (completed a) w v" unfolding v_def by (rule on_session_completed)
  have handled: "handled i v ?w \<Longrightarrow> posted i w = 0 \<Longrightarrow> \<not> s_queued s \<Longrightarrow> ?goal"
    using handled_comp [OF step] handled_step [OF w(1) s(2) protocol_exceptI [OF assms(2)]] s by auto
  note harmless = harmless_step [OF assms(1-3), of ?w _ a, folded v_def]
  have upstream: ?goal if "upstream_op a"
    using handled upstream_completion [OF v(1,2) _ assms(5) that] completed_handling [OF ok assms(4) that]
      single [OF upstream_main [OF that]] v(3) by simp
  have same: "v = upd i (\<lambda>s. s) v" using v(2) by (simp add: upd_def live_ses fun_upd_idem)
  have ?goal
  proof (cases c)
    case (Request_Read r)
    then have a: "a = Read_Request" "main_op a" using assms(5) by (simp_all add: main_op_def)
    show ?thesis
    proof (cases r)
      case None
      then show ?thesis using handled failed_read_handled [OF ok _, of v i] single a v(3) assms(4) Request_Read by simp
    next
      case (Some rq)
      then show ?thesis using read_request_step [OF assms(1-3) assms(4) [unfolded a] refl, of rq] Request_Read a
        by (simp add: v_def)
    qed
  next
    case (Response_Written k)
    then have a: "a = Write_Response" "main_op a" using assms(5) by (simp_all add: main_op_def)
    then show ?thesis using handled last_write_handled [OF ok _, of v i] single v(3) assms(4) Response_Written by simp
  next
    case (Error_Written k)
    then show ?thesis using harmless [of "s_client_open_update (\<lambda>_. False)"] assms(5)
      by (simp add: close_client_def main_op_def)
  next
    case (Queue_Timer_Done expired)
    then obtain b where a: "a = Queue_Timer b" "expired \<or> b" using assms(5) by auto
    have nm: "\<not> main_op a" by (simp add: a main_op_def)
    show ?thesis
    proof (cases "expired \<and> s_queued s")
      case True
      then show ?thesis using queue_timeout_step [OF assms(1-3) assms(4) [unfolded a(1)] _ refl refl]
          Queue_Timer_Done v by (simp add: v_def a(1))
    next
      case False
      then show ?thesis using harmless [of "\<lambda>s. s"] nm a Queue_Timer_Done v(3) same by auto
    qed
  next
    case (Request_Timer_Done expired)
    then obtain b where a: "a = Request_Timer b" using assms(5) by auto
    have nm: "\<not> main_op a" by (simp add: a main_op_def)
    show ?thesis
    proof (cases "expired \<and> \<not> s_finished s")
      case True
      note t = request_timer_answerable [OF ok assms(4) [unfolded a]]
      have "handled i v ?w" using handled_fail [OF v(1,2)] t True v(3) a Request_Timer_Done by simp
      then show ?thesis using handled t True by simp
    next
      case False
      then show ?thesis using harmless [of "\<lambda>s. s"] nm a Request_Timer_Done v(3) same assms(5) d(3) by auto
    qed
  qed (use upstream assms(5) in auto)
  then show "protocol_ok (on_completion i c (upd i (completed a) w))"
    "queue_ok w \<Longrightarrow> queue_ok (on_completion i c (upd i (completed a) w))" by (simp_all add: v_def)
qed

end
