(* ===== verification/ProxyQueue.thy ===== *)
theory ProxyQueue
  imports ProxyProtocol
begin

text \<open>
  The invariant through the strand: promotion, enqueueing, shutdown, accepting and the death of a
  session. Together with the completions of a session this covers every event, so the invariant
  holds in every reachable state.
\<close>

subsection \<open>Promotion\<close>

text \<open>A free slot is not overlooked: a promotion is still to come for the sessions not yet listed.\<close>

definition covered :: "server \<Rightarrow> bool" where
  "covered w \<longleftrightarrow> max_inflight (sv_limiter w) \<le> current_inflight (sv_limiter w) \<or>
     enqueues w = 0 \<or> promotion_posted (sv_tasks w)"

definition listed_in :: "nat list \<Rightarrow> server \<Rightarrow> bool" where
  "listed_in q w \<longleftrightarrow> (\<forall>i s. sv_sessions w i = Some s \<and> s_queued s \<longrightarrow> i \<in> set q)"

lemma quiet_covered:
  assumes "quiet w w'" "covered w"
  shows "covered w'"
proof -
  obtain n where "sv_tasks w' = sv_tasks w @ replicate n Promote_Queued"
    "n = 0 \<longrightarrow> current_inflight (sv_limiter w) \<le> current_inflight (sv_limiter w')"
    "max_inflight (sv_limiter w') = max_inflight (sv_limiter w)"
    using assms(1) by (auto simp: quiet_def limits_def)
  then show ?thesis using assms(2) quiet_tasks(2) [OF assms(1)] by (cases "n = 0") (auto simp: covered_def)
qed

lemma promoted_limiter:
  assumes "try_promote_queued a s = (p, l)" "valid p"
  shows "queued_of l + 1 = queued_of s" "current_inflight s < max_inflight s"
    "current_inflight l = current_inflight s + 1" "closed l = closed s" "max_inflight l = max_inflight s"
    "on_release l = on_release s" "\<not> closed s"
  using assms unat_dec_pos [of "queued_requests s"]
  by (auto simp: try_promote_queued_def valid_def no_permit_def unat_eq_0 unat_gt_0 split: if_splits)

lemma promoted_step:
  assumes "permits_ok 0 w" "protocol_ok w" "sv_sessions w i = Some s" "s_queued s"
    and pl: "try_promote_queued 0 (sv_limiter w) = (p, l)" "valid p"
    and v: "v = upd i (\<lambda>s. cancel_queue_timer (s\<lparr>s_queued := False\<rparr>)) (w\<lparr>sv_limiter := l\<rparr>)"
  shows "protocol_ok (start_proxy_request i p v) \<and>
    (covered w \<longrightarrow> covered (start_proxy_request i p v)) \<and>
    (listed_in (i # q) w \<longrightarrow> listed_in q (start_proxy_request i p v)) \<and>
    sv_stopping (start_proxy_request i p v) = sv_stopping w"
proof -
  let ?g = "\<lambda>s. cancel_queue_timer (s\<lparr>s_queued := False\<rparr>)" and ?w = "start_proxy_request i p v"
  have ok: "session_ok (posted i w) s" using assms(2,3) by (simp add: protocol_except_def)
  note d = session_okD [OF ok] and lim = promoted_limiter [OF pl]
  have s: "ses w i = s" "live i w" using assms(3) by (simp_all add: ses_def live_def)
  have num: "numbered w" "sv_alive w" "on_release (sv_limiter w) = Some ()"
    using assms(1) by (simp_all add: permits_ok_def)
  have qs: "busy s = []" "posted i w = 0" "\<not> s_finished s" "s_request_counted s"
    using assms(4) d(1,2,5) by auto
  have fields: "sv_stopping v = sv_stopping w" "sv_tasks v = sv_tasks w" "sv_metrics v = sv_metrics w"
    "sv_next v = sv_next w" "sv_limiter v = l" "sv_alive v" "sv_queued_sessions v = sv_queued_sessions w"
    "sv_crash v = sv_crash w" "sv_config v = sv_config w"
    using num by (simp_all add: v)
  have ss: "sv_sessions v = (sv_sessions w)(i \<mapsto> ?g s)" using s by (simp add: v ses_def)
  have tally: "tally P v = tally P (upd i ?g w)" for P using ss fields(4) s by (simp add: tally_def)
  have cnt: "tally s_queued v + 1 = tally s_queued w" "tally pending_request v = tally pending_request w"
    using tally_upd [OF num(1) s(2), of s_queued ?g] tally_upd [OF num(1) s(2), of pending_request ?g]
      tally s assms(4) by simp_all
  have vi: "ready v" "live i v" "startable (ses v i)" "numbered v" "posted i v = 0" "\<not> s_queued (ses v i)"
    using num lim ss fields qs s(2) by (auto simp: ready_def live_def ses_def startable_def posted_def
        numbered_def split: if_splits)
  have exc: "protocol_except {i} v" using assms(2) cnt fields lim ss
    by (auto simp: protocol_except_def posted_def enqueues_def balance_def)
  have h: "handled i v ?w" using handled_start [OF vi(1-3)] .
  then obtain f where f: "on_session i f v ?w" "\<not> s_queued (f (ses v i))" by (auto simp: handled_def)
  have "current_inflight (sv_limiter w) \<le> current_inflight l"
    using lim(2,3) unat_inc_less [OF lim(2)] by (simp add: word_le_nat_alt)
  then have "covered v" if "covered w" using that fields lim by (auto simp: covered_def enqueues_def)
  then have "covered ?w" if "covered w" using that quiet_covered f(1) by (auto simp: on_session_def)
  moreover have "listed_in q ?w" if "listed_in (i # q) w"
    using that f ss by (auto simp: listed_in_def on_session_def split: if_splits)
  moreover have "sv_stopping ?w = sv_stopping w" using f(1) fields by (simp add: on_session_def quiet_def)
  ultimately show ?thesis using handled_step(1) [OF vi(4,2) exc h vi(5,6)] by simp
qed

lemma same_sessions:
  assumes "sv_sessions w' = sv_sessions w" "sv_next w' = sv_next w" "sv_limiter w' = sv_limiter w"
    "sv_stopping w' = sv_stopping w" "sv_tasks w' = sv_tasks w" "sv_metrics w' = sv_metrics w"
    "sv_crash w' = sv_crash w" "sv_config w' = sv_config w"
  shows "protocol_except X w' = protocol_except X w" "covered w' = covered w"
  using assms by (simp_all add: protocol_except_def posted_def enqueues_def balance_def tally_def covered_def)

lemma promote_loop_step:
  assumes "permits_ok 0 w" "protocol_ok w" "sv_stopping w \<or> listed_in q w \<and> covered w"
  shows "protocol_ok (promote_loop q w) \<and> queue_ok (promote_loop q w) \<and>
    (sv_stopping w \<or> listed_in [] (promote_loop q w) \<or>
      max_inflight (sv_limiter (promote_loop q w)) \<le> current_inflight (sv_limiter (promote_loop q w)))"
  using assms
proof (induction q arbitrary: w)
  case Nil
  have "queue_ok (w\<lparr>sv_queued_sessions := []\<rparr>)"
  proof (cases "sv_stopping w")
    case False
    then have none: "listed_in [] w" "covered w" using Nil.prems(3) by auto
    then have "tally s_queued w = 0"
      by (auto simp: tally_def listed_in_def sat_def filter_empty_conv split: option.splits)
    then have "queued_of (sv_limiter w) = enqueues w" using Nil.prems(2) False by (simp add: protocol_except_def)
    then have "wakeup w" using none(2) by (auto simp: covered_def wakeup_def unat_eq_0)
    then show ?thesis using none(1) by (auto simp: queue_ok_def wakeup_def listed_def listed_in_def)
  qed (simp add: queue_ok_def)
  moreover have "sv_stopping w \<or> listed_in [] (w\<lparr>sv_queued_sessions := []\<rparr>)"
    using Nil.prems(3) by (auto simp: listed_in_def)
  ultimately show ?case
    using Nil.prems(2) same_sessions(1) [of "w\<lparr>sv_queued_sessions := []\<rparr>" w] by auto
next
  case (Cons i q)
  show ?case
  proof (cases "\<exists>s. sv_sessions w i = Some s \<and> s_queued s")
    case False
    then have "promote_loop (i # q) w = promote_loop q w" by (auto simp: is_queued_def ses_def)
    moreover have "listed_in q w" if "listed_in (i # q) w" using that False by (auto simp: listed_in_def)
    ultimately show ?thesis using Cons by auto
  next
    case True
    then obtain s where s: "sv_sessions w i = Some s" "s_queued s" by blast
    then have live: "live i w" "ses w i = s" "is_queued i w" by (simp_all add: live_def ses_def is_queued_def)
    have "\<not> s_finished s" using Cons.prems(2) s session_okD(2) by (fastforce simp: protocol_except_def)
    note s = s this
    obtain p l where pl: "try_promote_queued 0 (sv_limiter w) = (p, l)" by fastforce
    let ?v = "upd i (\<lambda>s. cancel_queue_timer (s\<lparr>s_queued := False\<rparr>)) (w\<lparr>sv_limiter := l\<rparr>)"
    show ?thesis
    proof (cases "valid p")
      case True
      have "promote_loop (i # q) w = promote_loop q (start_proxy_request i p ?v)"
        using pl True s live by (simp add: try_start_from_queue_def is_queued_def ses_def)
      moreover note promoted_step [OF Cons.prems(1,2) s(1,2) pl True refl, of q]
        permits_promoted(3) [OF Cons.prems(1) live(1) pl True]
      ultimately show ?thesis using Cons.IH [of "start_proxy_request i p ?v"] Cons.prems(3) by auto
    next
      case False
      then have l: "l = sv_limiter w" "closed l \<or> queued_requests l = 0 \<or> max_inflight l \<le> current_inflight l"
        using pl by (auto simp: try_promote_queued_def valid_def new_permit_def split: if_splits)
      then have w: "w\<lparr>sv_limiter := l\<rparr> = w" by simp
      show ?thesis
      proof (cases "queued_requests l = 0")
        case True
        then have eq: "promote_loop (i # q) w = promote_loop q w" using pl False s live w l(1)
          by (simp add: snapshot_def)
        have "0 < tally s_queued w" using tally_pos [of w i s_queued] Cons.prems(1) live s by (simp add: permits_ok_def)
        then have "sv_stopping w" using Cons.prems(2) True l(1) by (auto simp: protocol_except_def)
        then show ?thesis using eq Cons by simp
      next
        case nonzero: False
        then have eq: "promote_loop (i # q) w = w\<lparr>sv_queued_sessions := i # q\<rparr>"
          using pl False s live w l(1) by (simp add: snapshot_def)
        have "sv_stopping w \<or> max_inflight l \<le> current_inflight l"
          using nonzero l Cons.prems(2) by (auto simp: protocol_except_def)
        moreover from this have "queue_ok (w\<lparr>sv_queued_sessions := i # q\<rparr>)" using Cons.prems(3) l(1)
          by (auto simp: queue_ok_def wakeup_def listed_def listed_in_def)
        ultimately show ?thesis unfolding eq
          using Cons.prems(2) same_sessions(1) [of "w\<lparr>sv_queued_sessions := i # q\<rparr>" w] l(1) by auto
      qed
    qed
  qed
qed

subsection \<open>The other tasks\<close>

lemma promotion_posted_Cons [simp]:
  "promotion_posted (t # ts) \<longleftrightarrow> promotion_posted ts \<or> t = Promote_Queued \<and> (\<forall>u\<in>set ts. \<not> is_enqueue u)"
proof (cases "\<exists>u\<in>set ts. is_enqueue u")
  case False
  then have eq: "takeWhile (\<lambda>t. \<not> is_enqueue t) (rev ts) = rev ts" by (intro takeWhile_eq_all_conv [THEN iffD2]) auto
  show ?thesis unfolding promotion_posted_def rev.simps takeWhile_append eq using False by auto
qed (auto simp: promotion_posted_def takeWhile_append)

text \<open>A session dies: it is finished and has nothing.\<close>

lemma reap_step:
  assumes "numbered w" "protocol_ok w"
  shows "protocol_ok (reap i w)" "queue_ok w \<Longrightarrow> queue_ok (reap i w)"
proof -
  have "protocol_ok (reap i w) \<and> (queue_ok w \<longrightarrow> queue_ok (reap i w))"
  proof (cases "\<exists>s. sv_sessions w i = Some s \<and> s_pending s = [] \<and> Enqueue i \<notin> set (sv_tasks w)")
    case True
    then obtain s where s: "sv_sessions w i = Some s" "s_pending s = []" "Enqueue i \<notin> set (sv_tasks w)" by blast
    then have live: "live i w" "ses w i = s" "posted i w = 0"
      by (simp_all add: live_def ses_def posted_def)
    have "session_ok 0 s" using assms(2) s(1) live(3) by (fastforce simp: protocol_except_def)
    note d = session_okD [OF this]
    have dead: "\<not> s_queued s" "\<not> has_permit s" "s_finished s" using d(3,6,7) s(2) by (auto simp: busy_def)
    let ?w = "w\<lparr>sv_sessions := (sv_sessions w)(i := None)\<rparr>"
    have eq: "reap i w = ?w" using s dead live(2)
      by (simp add: reap_def destroy_session_def reset_permit_def)
    have "tally s_queued ?w = tally s_queued w" "tally pending_request ?w = tally pending_request w"
      using tally_remove [OF assms(1) live(1)] live(2) dead
      by (metis add.right_neutral, metis add.right_neutral pending_request_def)
    then show ?thesis unfolding eq using assms(2)
      by (auto simp: protocol_except_def posted_def enqueues_def balance_def queue_ok_def wakeup_def listed_def
          split: if_splits)
  next
    case False
    then have "reap i w = w" by (auto simp: reap_def split: option.splits)
    then show ?thesis using assms(2) by simp
  qed
  then show "protocol_ok (reap i w)" "queue_ok w \<Longrightarrow> queue_ok (reap i w)" by simp_all
qed

text \<open>The closures of the strand.\<close>

lemma enqueue_step:
  assumes "permits_ok 0 w" "protocol_ok w" "queue_ok w" "sv_tasks w = Enqueue i # ts"
    and w0: "w0 = w\<lparr>sv_tasks := ts\<rparr>"
  shows "protocol_ok (reap i (enqueue_session i w0)) \<and> queue_ok (reap i (enqueue_session i w0))"
proof -
  have num: "numbered w" "sv_alive w" and live: "live i w" using assms(1,4) by (auto simp: permits_ok_def)
  define s where "s = ses w i"
  have s: "sv_sessions w i = Some s" using live by (simp add: live_ses s_def)
  have ok: "session_ok (posted i w) s" using assms(2) s by (simp add: protocol_except_def)
  have "1 \<le> posted i w" using assms(4) by (simp add: posted_def)
  then have p: "posted i w = 1" using session_okD(1) [OF ok] by (simp split: if_splits)
  note d = session_okD [OF ok]
  have idle: "busy s = []" "\<not> s_queued s" "\<not> s_finished s" "s_request_counted s" "s_pending s = []" "\<not> has_permit s"
    using d(1,2,3,5,9) p by (auto split: if_splits)
  have ts: "Enqueue i \<notin> set ts" using p assms(4) by (simp add: posted_def count_list_0_iff)
  have post: "posted j w = posted j w0 + (if j = i then 1 else 0)" "enqueues w = enqueues w0 + 1" for j
    using assms(4) w0 by (simp_all add: posted_def enqueues_def)
  have ses0: "sv_sessions w0 = sv_sessions w" "ses w0 i = s" using w0 s by (simp_all add: ses_def)
  show ?thesis
  proof (cases "sv_stopping w")
    case True
    let ?w = "w0\<lparr>sv_sessions := (sv_sessions w)(i := None)\<rparr>"
    have "reap i (enqueue_session i w0) = ?w" using True w0 ts idle num(2) s
      by (simp add: enqueue_session_def close_client_def reap_def destroy_session_def reset_permit_def upd_def ses_def)
    moreover have "protocol_ok ?w \<and> queue_ok ?w" using assms(2) True post(1) w0
      by (auto simp: protocol_except_def posted_def queue_ok_def balance_def split: if_splits)
    ultimately show ?thesis by simp
  next
    case False
    let ?g = "\<lambda>s. await (Queue_Timer False) (s\<lparr>s_queued := True\<rparr>)"
    let ?w = "upd i ?g (w0\<lparr>sv_queued_sessions := sv_queued_sessions w @ [i]\<rparr>)"
    have "reap i (enqueue_session i w0) = ?w" using False w0 num(2)
      by (simp add: enqueue_session_def start_queue_timer_def reap_def Let_def upd_def ses_def)
    moreover have t: "session_ok 0 (?g s)" using idle by (simp add: session_ok_def main_op_def)
    have ss: "sv_sessions ?w = (sv_sessions w)(i \<mapsto> ?g s)" using ses0 by (simp add: ses_def w0)
    have tally: "tally P ?w = tally P (upd i ?g w)" for P using w0 by (simp add: tally_def ses_def)
    have cnt: "tally s_queued ?w = tally s_queued w + 1" "tally pending_request ?w = tally pending_request w"
      using tally_upd [OF num(1) live, of s_queued ?g] tally_upd [OF num(1) live, of pending_request ?g]
        tally idle by (simp_all add: s_def)
    have "session_ok (posted j w0) u" if "((sv_sessions w)(i \<mapsto> ?g s)) j = Some u" for j u
    proof (cases "j = i")
      case False
      then have "session_ok (posted j w) u" using that assms(2) by (simp add: protocol_except_def)
      then show ?thesis using False post(1) [of j] by simp
    qed (use that t p post(1) [of i] in simp)
    note this [folded ss]
    then have "protocol_ok ?w" using assms(2) cnt post(2) w0
      by (simp add: protocol_except_def posted_def enqueues_def balance_def del: sv_sessions_upd)
    moreover have "queue_ok ?w" using assms(3,4) False w0 ss
      by (auto simp: queue_ok_def wakeup_def listed_def split: if_splits)
    ultimately show ?thesis by simp
  qed
qed

lemma close_clients_step:
  "sv_stopping w \<Longrightarrow> protocol_ok w \<Longrightarrow> sv_stopping (close_clients q w) \<and> protocol_ok (close_clients q w)"
proof (induction q arbitrary: w)
  case (Cons i q)
  have "protocol_ok (close_client i w)" if "live i w"
    using Cons.prems that
    by (auto simp: protocol_except_def close_client_def posted_def balance_def session_ok_client live_ses split: if_splits)
  then show ?case using Cons by (simp add: live_def close_client_def)
qed simp

lemma stop_step:
  assumes "protocol_ok w"
  shows "protocol_ok (stop_server w) \<and> queue_ok (stop_server w)"
proof -
  define v where "v = w\<lparr>sv_stopping := True, sv_limiter := close_limiter (sv_limiter w)\<rparr>"
  have "protocol_ok v" "sv_stopping v" using assms
    by (auto simp: v_def protocol_except_def posted_def balance_def close_limiter_def)
  from close_clients_step [OF this(2,1), of "sv_queued_sessions v"] show ?thesis
    using same_sessions(1) [of "(close_clients (sv_queued_sessions v) v)\<lparr>sv_queued_sessions := []\<rparr>"]
    by (simp add: stop_server_def v_def [symmetric] Let_def queue_ok_def)
qed

lemma accept_step:
  assumes "permits_ok 0 w" "protocol_ok w" "queue_ok w"
  shows "protocol_ok (on_accept ok w) \<and> queue_ok (on_accept ok w)"
proof -
  have "protocol_ok (start_session w) \<and> queue_ok (start_session w)"
  proof (cases "new_parser (if sv_alive w then pc_max_sse_buffer_bytes (sv_config w) else 1024 * 1024)")
    case (Inl e)
    then have "pc_max_sse_buffer_bytes (sv_config w) = 0" using assms(1)
      by (auto simp: new_parser_def permits_ok_def split: if_splits)
    then show ?thesis using assms(2,3) Inl
      by (auto simp: start_session_def protocol_except_def posted_def enqueues_def balance_def tally_def
          queue_ok_def listed_def wakeup_def)
  next
    case (Inr p)
    let ?s = "await Read_Request (new_session p)"
    let ?w = "w\<lparr>sv_sessions := (sv_sessions w)(sv_next w \<mapsto> ?s), sv_next := sv_next w + 1\<rparr>"
    have num: "numbered w" using assms(1) by (simp add: permits_ok_def)
    have "Enqueue (sv_next w) \<notin> set (sv_tasks w)" using assms(1) by (auto simp: permits_ok_def numbered_def)
    then have "posted (sv_next w) w = 0" by (simp add: posted_def count_list_0_iff)
    moreover have "session_ok 0 ?s"
      by (simp add: session_ok_def new_session_def busy_def pending_request_def await_def main_op_def untouched_def)
    moreover have "tally s_queued ?w = tally s_queued w" "tally pending_request ?w = tally pending_request w"
      using tally_new [OF num, of _ ?s] by (simp_all add: new_session_def pending_request_def)
    ultimately have "protocol_ok ?w" using assms(2)
      by (auto simp: protocol_except_def posted_def enqueues_def balance_def split: if_splits)
    moreover have "queue_ok ?w" using assms(3)
      by (auto simp: queue_ok_def listed_def wakeup_def new_session_def split: if_splits)
    ultimately show ?thesis using Inr by (simp add: start_session_def)
  qed
  moreover have "protocol_ok (v\<lparr>sv_accepting := b\<rparr>) = protocol_ok v" "queue_ok (v\<lparr>sv_accepting := b\<rparr>) = queue_ok v" for v b
    using same_sessions(1) [of "v\<lparr>sv_accepting := b\<rparr>" v] by (simp_all add: queue_ok_def listed_def wakeup_def)
  ultimately show ?thesis using assms(2,3) by (simp add: on_accept_def do_accept_def Let_def)
qed

subsection \<open>Every event\<close>

lemma wakeup_covered:
  assumes "protocol_ok w" "wakeup w" "\<not> sv_stopping w"
  shows "covered w"
proof -
  have "queued_requests (sv_limiter w) = 0 \<Longrightarrow> enqueues w = 0"
    using assms(1,3) by (simp add: protocol_except_def)
  then show ?thesis using assms(2) by (auto simp: covered_def wakeup_def)
qed

lemma task_step:
  assumes "permits_ok 0 w" "protocol_ok w" "queue_ok w" "sv_tasks w = t # ts"
  shows "protocol_ok (run_task t (w\<lparr>sv_tasks := ts\<rparr>)) \<and> queue_ok (run_task t (w\<lparr>sv_tasks := ts\<rparr>))"
proof (cases "is_enqueue t")
  case True
  then obtain i where "t = Enqueue i" by (cases t) auto
  then show ?thesis using enqueue_step [OF assms(1-3) _ refl] assms(4) by simp
next
  case False
  let ?w = "w\<lparr>sv_tasks := ts\<rparr>"
  have "t \<noteq> Enqueue i" for i using False by auto
  then have same: "posted i ?w = posted i w" "enqueues ?w = enqueues w" for i
    using assms(4) False by (simp_all add: posted_def enqueues_def)
  then have p: "protocol_ok ?w" using assms(2)
    by (auto simp: protocol_except_def balance_def tally_def)
  show ?thesis
  proof (cases t)
    case Do_Accept
    have "wakeup ?w" if "wakeup w" using that assms(4) Do_Accept by (auto simp: wakeup_def)
    then have "queue_ok ?w" using assms(3) by (auto simp: queue_ok_def listed_def)
    then show ?thesis using p same_sessions(1) [of "?w\<lparr>sv_accepting := True\<rparr>" ?w]
      by (simp add: Do_Accept do_accept_def queue_ok_def listed_def wakeup_def)
  next
    case Promote_Queued
    have "covered ?w" if "wakeup w" "\<not> sv_stopping w"
      using wakeup_covered [OF assms(2) that] assms(4) Promote_Queued same(2)
      by (auto simp: covered_def enqueues_def filter_empty_conv)
    then have "sv_stopping ?w \<or> listed_in (sv_queued_sessions ?w) ?w \<and> covered ?w"
      using assms(3) by (auto simp: queue_ok_def listed_def listed_in_def)
    moreover have "permits_ok 0 ?w" using assms(1,4) by (auto intro: permits_ok_cong)
    ultimately show ?thesis using promote_loop_step [OF _ p] Promote_Queued
      by (simp add: promote_queued_sessions_def)
  next
    case Stop_Server
    then show ?thesis using stop_step [OF p] by simp
  qed (use False in simp)
qed

lemma quiet_event:
  assumes "protocol_ok w" "queue_ok w"
    and "sv_sessions w' = sv_sessions w" "sv_next w' = sv_next w" "sv_limiter w' = sv_limiter w"
    "sv_stopping w' = sv_stopping w" "sv_metrics w' = sv_metrics w" "sv_crash w' = sv_crash w"
    "sv_config w' = sv_config w" "sv_queued_sessions w' = sv_queued_sessions w"
    "sv_tasks w' = sv_tasks w \<or> sv_tasks w' = sv_tasks w @ [Stop_Server]"
  shows "protocol_ok w' \<and> queue_ok w'"
proof -
  have "posted i w' = posted i w" "enqueues w' = enqueues w" for i
    using assms(11) by (auto simp: posted_def enqueues_def)
  then have "protocol_ok w'" using assms(1,3-10) by (simp add: protocol_except_def balance_def tally_def)
  moreover have "queue_ok w'" using assms(2-11) by (auto simp: queue_ok_def listed_def wakeup_def)
  ultimately show ?thesis by simp
qed

lemma event_step:
  assumes "permits_ok 0 w" "protocol_ok w" "queue_ok w" "exec_event e w = Some w'"
  shows "protocol_ok w' \<and> queue_ok w'"
proof (cases e)
  case (Accepted ok)
  let ?w = "w\<lparr>sv_accepting := False\<rparr>"
  have "permits_ok 0 ?w" using assms(1) by (rule permits_fields)
  moreover have "protocol_ok ?w \<and> queue_ok ?w" by (rule quiet_event [OF assms(2,3)]) simp_all
  ultimately show ?thesis using assms(4) Accepted accept_step [of ?w ok] by (auto split: if_splits)
next
  case (Complete i a c)
  then obtain s where s: "sv_sessions w i = Some s" "a \<in> set (s_pending s)" "completes c a"
    and w': "w' = reap i (on_completion i c (upd i (completed a) w))"
    using assms(4) by (auto simp: completed_def [abs_def] split: option.splits if_splits)
  let ?w = "on_completion i c (upd i (completed a) w)"
  have live: "live i w" using s(1) by (simp add: live_def)
  have "permits_ok 0 ?w"
    using permits_on_completion [OF permits_upd [OF assms(1) live, of "completed a"]] by (simp add: completed_def)
  then have "numbered ?w" by (simp add: permits_ok_def)
  then show ?thesis unfolding w'
    using reap_step completion_step [OF assms(1,2) s] assms(3) by simp
next
  case Run_Task
  then obtain t ts where "sv_tasks w = t # ts" "w' = run_task t (w\<lparr>sv_tasks := ts\<rparr>)"
    using assms(4) by (auto split: list.splits)
  then show ?thesis using task_step [OF assms(1-3)] by simp
next
  case (Tick d)
  show ?thesis by (rule quiet_event [OF assms(2,3)]) (use assms(4) Tick in auto)
next
  case Stop_Call
  show ?thesis by (rule quiet_event [OF assms(2,3)]) (use assms(4) Stop_Call in \<open>auto simp: post_def\<close>)
next
  case Signal
  show ?thesis by (rule quiet_event [OF assms(2,3)]) (use assms(4) Signal in \<open>auto simp: post_def\<close>)
qed

lemma started_ok:
  assumes "make_server config = Inr w" "start_server True w = Some w'"
  shows "protocol_ok w' \<and> queue_ok w'"
proof -
  obtain l m where l: "new_limiter (pc_max_inflight config) (pc_max_queue_size config) = Inr l" "sv_limiter w = l"
    and m: "new_metrics 256 = Inr m" "sv_metrics w = m"
    and w: "sv_sessions w = Map.empty" "sv_next w = 0" "sv_tasks w = []" "\<not> sv_stopping w" "sv_crash w = None"
    using assms(1) by (auto simp: make_server_def split: sum.splits)
  have w': "w' = post Do_Accept (w\<lparr>sv_limiter := set_on_release (Some ()) l\<rparr>)"
    using assms(2) l by (simp add: start_server_def)
  have "queued_requests l = 0" "\<not> closed l" using l(1) by (auto simp: new_limiter_def split: if_splits)
  then show ?thesis using run_metrics [OF m(1), of m "[]"] w m(2)
    by (simp add: w' protocol_except_def queue_ok_def listed_def wakeup_def enqueues_def balance_def tally_def
        set_on_release_def post_def)
qed

lemma reachable_ok: "reachable config w \<Longrightarrow> permits_ok 0 w \<and> protocol_ok w \<and> queue_ok w"
proof (induction rule: reachable.induct)
  case (start w w')
  then show ?case using permits_started started_ok by blast
next
  case (step w e w')
  then show ?case using permits_event event_step by (blast elim: server_stepE)
qed

end
