(* ===== verification/ProxyStream.thy ===== *)
theory ProxyStream
  imports ProxyQueue
begin

text \<open>
  What reaches the client: the pieces of the upstream's body are passed on as they come, while the
  parser watches them, until an event says that the stream is done.
\<close>

subsection \<open>Watching a piece\<close>

text \<open>What the observation of events may change; the clock readings are those of \<open>record_ttft\<close>.\<close>

definition observed :: "nat \<Rightarrow> server \<Rightarrow> server \<Rightarrow> bool" where
  "observed i w w' \<longleftrightarrow> (\<exists>b m. sv_sessions w' = (sv_sessions w)(i \<mapsto> (ses w i)\<lparr>s_first_data_seen := b\<rparr>) \<and>
     w' = w\<lparr>sv_sessions := sv_sessions w', sv_metrics := m\<rparr> \<and> same_counters (sv_metrics w) m)"

definition timed :: "nat \<Rightarrow> server \<Rightarrow> bool" where
  "timed i w \<longleftrightarrow> metrics_ok (sv_metrics w) \<and> clock_ok (sv_clock w) \<and> sv_alive w \<and>
     (\<exists>t0. s_request_start (ses w i) = Some t0 \<and> clock_ok t0 \<and> t0 \<le> sv_clock w)"

lemma observed_refl: "live i w \<Longrightarrow> observed i w w"
  unfolding observed_def
  by (intro exI [of _ "s_first_data_seen (ses w i)"] exI [of _ "sv_metrics w"])
    (simp add: live_ses fun_upd_idem same_counters_def)

lemma record_ttft_in_order:
  assumes "metrics_ok m" "clock_ok t0" "clock_ok t1" "t0 \<le> t1"
  shows "\<exists>m'. record_ttft t0 t1 m = (m', Inr ())"
proof -
  have "isfinite (milliseconds (t1 - t0))"
    using assms(2-4) by (intro milliseconds_finite) (auto simp: clock_ok_def)
  then obtain w where "add_sample (milliseconds (t1 - t0)) (pm_ttft_window m) = Inr w"
    using window.add_finite assms(1) by (auto simp: metrics_ok_def)
  then show ?thesis using assms(4) by (simp add: record_ttft_def Let_def sample_ttft_def count_ttft_def)
qed

lemma observe_events_relay:
  assumes "live i w" "timed i w"
  shows "observed i w (fst (observe_events i es b w)) \<and>
    snd (observe_events i es b w) = (b \<or> list_ex ev_is_done es)"
proof -
  have seen: "observe_events i es b w = (w, b \<or> list_ex ev_is_done es)" if "s_first_data_seen (ses w i)" for es b w
    using that by (induction es arbitrary: b) auto
  show ?thesis
  proof (induction es arbitrary: b)
    case Nil
    then show ?case using observed_refl [OF assms(1)] by simp
  next
    case (Cons e es)
    show ?case
    proof (cases "\<not> s_first_data_seen (ses w i) \<and> ev_data e \<noteq> []")
      case False
      then show ?thesis using Cons by (auto simp: disj_assoc)
    next
      case True
      let ?w = "upd i (\<lambda>s. s\<lparr>s_first_data_seen := True\<rparr>) w"
      obtain t0 where t0: "s_request_start (ses w i) = Some t0" "clock_ok t0" "t0 \<le> sv_clock w"
        and ok: "metrics_ok (sv_metrics w)" "clock_ok (sv_clock w)" "sv_alive w" using assms(2) by (auto simp: timed_def)
      obtain m where m: "record_ttft t0 (sv_clock w) (sv_metrics w) = (m, Inr ())"
        using record_ttft_in_order [OF ok(1) t0(2) ok(2) t0(3)] by blast
      have "observe_events i (e # es) b w = observe_events i es (b \<or> ev_is_done e) (?w\<lparr>sv_metrics := m\<rparr>)"
        using True t0(1) m ok(3) by (simp add: Let_def)
      also have "\<dots> = (?w\<lparr>sv_metrics := m\<rparr>, b \<or> ev_is_done e \<or> list_ex ev_is_done es)"
        using seen [of "?w\<lparr>sv_metrics := m\<rparr>"] by (simp add: ses_def)
      finally show ?thesis using record_ttft_counters [OF m]
        by (auto simp: observed_def upd_def ses_def intro!: exI [of _ True])
    qed
  qed
qed

subsection \<open>Passing on a piece\<close>

text \<open>The two events of a piece: it is read from the upstream, and written to the client.\<close>

definition piece_events :: "nat \<Rightarrow> string \<Rightarrow> bool \<Rightarrow> event list" where
  "piece_events i c stop = [Complete i Read_Body (Body_Read No_Error False c),
     Complete i (Write_Body stop) (Body_Written True stop)]"

definition reading :: "nat \<Rightarrow> session \<Rightarrow> server \<Rightarrow> bool" where
  "reading i s w \<longleftrightarrow> sv_running w \<and> sv_crash w = None \<and> sv_sessions w i = Some s \<and> timed i w \<and>
     Read_Body \<in> set (s_pending s) \<and> s_client_open s"

lemma piece_read:
  assumes "reading i s w" "feed c (s_sse_parser s) = (p, Inr es)" "c \<noteq> [] \<or> \<not> list_ex ev_is_done es"
  shows "\<exists>v b m. exec_event (Complete i Read_Body (Body_Read No_Error False c)) w = Some v \<and>
    sv_sessions v = (sv_sessions w)(i \<mapsto> s\<lparr>s_sse_parser := p, s_first_data_seen := b,
      s_out := s_out s @ [Sse_Chunk c],
      s_pending := Write_Body (list_ex ev_is_done es) # remove1 Read_Body (s_pending s)\<rparr>) \<and>
    v = w\<lparr>sv_sessions := sv_sessions v, sv_metrics := m\<rparr> \<and> same_counters (sv_metrics w) m"
proof -
  let ?stop = "list_ex ev_is_done es"
  let ?w = "upd i (completed Read_Body) w" and ?p = "upd i (\<lambda>s. s\<lparr>s_sse_parser := p\<rparr>) (upd i (completed Read_Body) w)"
  have s: "ses w i = s" "sv_sessions w i = Some s" "Read_Body \<in> set (s_pending s)" "s_client_open s"
    using assms(1) by (simp_all add: reading_def ses_def)
  have "live i ?p" "timed i ?p" using assms(1) s(1) by (auto simp: reading_def timed_def completed_def)
  then have obs: "observed i ?p (fst (observe_events i es False ?p))" "snd (observe_events i es False ?p) = ?stop"
    using observe_events_relay by auto
  have chunk: "observe_sse_chunk i c ?w = observe_events i es False ?p"
    using assms(2) s(1) by (simp add: observe_sse_chunk_def completed_def Let_def)
  let ?o = "fst (observe_events i es False ?p)"
  let ?v = "upd i (\<lambda>s. await (Write_Body ?stop) (send_client (Sse_Chunk c) s)) ?o"
  obtain b m where o: "sv_sessions ?o = (sv_sessions ?p)(i \<mapsto> (ses ?p i)\<lparr>s_first_data_seen := b\<rparr>)"
    "?o = ?p\<lparr>sv_sessions := sv_sessions ?o, sv_metrics := m\<rparr>" "same_counters (sv_metrics ?p) m"
    using obs(1) unfolding observed_def by blast
  have "on_completion i (Body_Read No_Error False c) ?w = ?v"
    using chunk obs(2) assms(3) by (auto simp: write_downstream_body_def case_prod_beta)
  moreover have "sv_sessions ?v = (sv_sessions w)(i \<mapsto> s\<lparr>s_sse_parser := p, s_first_data_seen := b,
      s_out := s_out s @ [Sse_Chunk c], s_pending := Write_Body ?stop # remove1 Read_Body (s_pending s)\<rparr>)"
    using o(1) s by (simp add: ses_def completed_def send_client_def await_def)
  moreover have "reap i ?v = ?v" by (simp add: reap_def await_def)
  moreover have "?v = w\<lparr>sv_sessions := sv_sessions ?v, sv_metrics := m\<rparr>"
    using arg_cong [OF o(2), of "\<lambda>x. upd i (\<lambda>s. await (Write_Body ?stop) (send_client (Sse_Chunk c) s)) x"]
    by (simp add: upd_def)
  ultimately show ?thesis using s o(3)
    by (intro exI [of _ ?v] exI [of _ b] exI [of _ m]) (simp add: completed_def [abs_def])
qed

lemma server_fields:
  assumes "v = w\<lparr>sv_sessions := h, sv_metrics := m\<rparr>"
  shows "sv_running v = sv_running w" "sv_crash v = sv_crash w" "sv_alive v = sv_alive w"
    "sv_clock v = sv_clock w" "sv_metrics v = m" "sv_limiter v = sv_limiter w" "sv_tasks v = sv_tasks w"
    "sv_next v = sv_next w"
  using assms by simp_all

lemma piece_forwarded:
  assumes "reading i s w" "feed c (s_sse_parser s) = (p, Inr es)" "\<not> list_ex ev_is_done es"
  shows "\<exists>w' s'. run_events (piece_events i c False) w = Some w' \<and> reading i s' w' \<and>
    s_sse_parser s' = p \<and> s_out s' = s_out s @ [Sse_Chunk c] \<and> s_finished s' = s_finished s \<and>
    (\<forall>j. j \<noteq> i \<longrightarrow> sv_sessions w' j = sv_sessions w j) \<and> sv_limiter w' = sv_limiter w \<and>
    same_counters (sv_metrics w) (sv_metrics w')"
proof -
  obtain v b m where v: "exec_event (Complete i Read_Body (Body_Read No_Error False c)) w = Some v"
    "sv_sessions v = (sv_sessions w)(i \<mapsto> s\<lparr>s_sse_parser := p, s_first_data_seen := b,
      s_out := s_out s @ [Sse_Chunk c], s_pending := Write_Body False # remove1 Read_Body (s_pending s)\<rparr>)"
    "v = w\<lparr>sv_sessions := sv_sessions v, sv_metrics := m\<rparr>" "same_counters (sv_metrics w) m"
    using piece_read [OF assms(1,2)] assms(3) by auto
  have same: "sv_running v = sv_running w" "sv_crash v = sv_crash w" "sv_alive v = sv_alive w"
    "sv_clock v = sv_clock w" "sv_metrics v = m" by (rule server_fields [OF v(3)])+
  let ?s = "s\<lparr>s_sse_parser := p, s_first_data_seen := b, s_out := s_out s @ [Sse_Chunk c],
    s_pending := Read_Body # remove1 Read_Body (s_pending s)\<rparr>"
  let ?w = "upd i (\<lambda>_. ?s) v"
  have alive: "sv_alive w" using assms(1) by (simp add: reading_def timed_def)
  have "exec_event (Complete i (Write_Body False) (Body_Written True False)) v = Some ?w"
    using v(2) same(3) alive by (simp add: read_upstream_body_def reap_def await_def upd_def ses_def)
  then have "run_events (piece_events i c False) w = Some ?w"
    using v(1) same assms(1) by (simp add: piece_events_def reading_def del: exec_event.simps)
  moreover have "reading i ?s ?w" using assms(1) v(4) same
    by (auto simp: reading_def timed_def same_counters_def ses_def)
  ultimately show ?thesis using v(2,4) same server_fields(6) [OF v(3)]
    by (intro exI [of _ ?w] exI [of _ ?s]) simp
qed

definition relay_events :: "nat \<Rightarrow> string list \<Rightarrow> event list" where
  "relay_events i cs = concat (map (\<lambda>c. piece_events i c False) cs)"

lemma run_events_append:
  "run_events (es @ fs) w = (case run_events es w of None \<Rightarrow> None | Some w' \<Rightarrow> run_events fs w')"
  by (induction es arbitrary: w) (auto split: option.splits)

lemma stream_relayed:
  assumes "reading i s w" "feed_all cs (s_sse_parser s) = (p, Inr es)" "\<not> list_ex ev_is_done es"
  shows "\<exists>w' s'. run_events (relay_events i cs) w = Some w' \<and> reading i s' w' \<and>
    s_sse_parser s' = p \<and> s_out s' = s_out s @ map Sse_Chunk cs \<and> s_finished s' = s_finished s \<and>
    (\<forall>j. j \<noteq> i \<longrightarrow> sv_sessions w' j = sv_sessions w j) \<and> sv_limiter w' = sv_limiter w \<and>
    same_counters (sv_metrics w) (sv_metrics w')"
  using assms
proof (induction cs arbitrary: s w es)
  case (Cons c cs)
  obtain p1 es1 es2 where f: "feed c (s_sse_parser s) = (p1, Inr es1)" "feed_all cs p1 = (p, Inr es2)" "es = es1 @ es2"
    using Cons.prems(2) by (auto split: prod.splits sum.splits)
  then have nd: "\<not> list_ex ev_is_done es1" "\<not> list_ex ev_is_done es2" using Cons.prems(3) by auto
  obtain v t where v: "run_events (piece_events i c False) w = Some v" "reading i t v"
    "s_sse_parser t = p1" "s_out t = s_out s @ [Sse_Chunk c]" "\<forall>j. j \<noteq> i \<longrightarrow> sv_sessions v j = sv_sessions w j"
    "s_finished t = s_finished s" "sv_limiter v = sv_limiter w" "same_counters (sv_metrics w) (sv_metrics v)"
    using piece_forwarded [OF Cons.prems(1) f(1) nd(1)] by blast
  obtain w' s' where "run_events (relay_events i cs) v = Some w'" "reading i s' w'" "s_sse_parser s' = p"
    "s_out s' = s_out t @ map Sse_Chunk cs" "\<forall>j. j \<noteq> i \<longrightarrow> sv_sessions w' j = sv_sessions v j"
    "s_finished s' = s_finished t" "sv_limiter w' = sv_limiter v" "same_counters (sv_metrics v) (sv_metrics w')"
    using Cons.IH [OF v(2) _ nd(2)] f(2) v(3) by blast
  then show ?case using v
    by (intro exI [of _ w'] exI [of _ s']) (simp add: relay_events_def run_events_append same_counters_def)
qed (auto simp: relay_events_def same_counters_def)

subsection \<open>The end of a stream\<close>

lemma finish_effect:
  assumes "permits_ok 0 w" "live i w" "\<not> s_finished (ses w i)" "has_permit (ses w i)" "s_request_counted (ses w i)"
  shows "sv_sessions (finish_request i w) = (sv_sessions w)(i \<mapsto> finish_session (ses w i))"
    "pm_completed (sv_metrics (finish_request i w)) = pm_completed (sv_metrics w) + 1"
    "pm_failed (sv_metrics (finish_request i w)) = pm_failed (sv_metrics w)"
    "current_inflight (sv_limiter (finish_request i w)) = current_inflight (sv_limiter w) - 1"
    "sv_tasks (finish_request i w) = sv_tasks w @ [Promote_Queued]"
proof -
  have ready: "ready w" using assms(1) by (simp add: permits_ok_def ready_def)
  show "sv_sessions (finish_request i w) = (sv_sessions w)(i \<mapsto> finish_session (ses w i))"
    using on_session_finish [OF ready assms(2)] by (simp add: on_session_def)
  define v where "v = with_metrics record_request_completed
    (upd i (\<lambda>s. (cancel_queue_timer (cancel_request_timer (s\<lparr>s_finished := True\<rparr>)))\<lparr>s_upstream_open := False\<rparr>) w)"
  have fin: "finish_request i w = close_client i (reset_permit i v)"
    using assms ready by (simp add: settle_folds settle_def close_upstream_def cancel_timers_def Let_def v_def ready_def)
  have v: "permits_ok 0 v" "live i v" "s_permit (ses v i) = s_permit (ses w i)"
    using assms(1,2) by (auto simp: v_def intro!: permit_rules) (simp add: with_metrics_def ses_def)
  obtain p where p: "s_permit (ses v i) = Some p" using v(3) assms(4) by auto
  note taken = permits_taken [OF v(1,2) p]
  have "reset_permit i v = post Promote_Queued ((upd i (\<lambda>s. s\<lparr>s_permit := None\<rparr>) v)
      \<lparr>sv_limiter := (sv_limiter v)\<lparr>current_inflight := current_inflight (sv_limiter v) - 1\<rparr>\<rparr>)"
    using drop_new_permit(1) [OF taken(2)] p taken(1) by (simp add: reset_permit_def)
  then show "pm_completed (sv_metrics (finish_request i w)) = pm_completed (sv_metrics w) + 1"
    "pm_failed (sv_metrics (finish_request i w)) = pm_failed (sv_metrics w)"
    "current_inflight (sv_limiter (finish_request i w)) = current_inflight (sv_limiter w) - 1"
    "sv_tasks (finish_request i w) = sv_tasks w @ [Promote_Queued]"
    by (simp_all add: fin close_client_def v_def with_metrics_def record_request_completed_def)
qed

lemma stream_ended:
  assumes "permits_ok 0 w" "protocol_ok w" "reading i s w" "\<not> s_finished s"
    and "feed c (s_sse_parser s) = (p, Inr es)" "list_ex ev_is_done es" "c \<noteq> []"
  shows "\<exists>w'. run_events (piece_events i c True) w = Some w' \<and>
    pm_completed (sv_metrics w') = pm_completed (sv_metrics w) + 1 \<and>
    pm_failed (sv_metrics w') = pm_failed (sv_metrics w) \<and>
    current_inflight (sv_limiter w') = current_inflight (sv_limiter w) - 1 \<and>
    sv_tasks w' = sv_tasks w @ [Promote_Queued] \<and>
    (\<forall>s'. sv_sessions w' i = Some s' \<longrightarrow> s_finished s' \<and> \<not> s_client_open s' \<and> s_permit s' = None \<and>
      s_out s' = s_out s @ [Sse_Chunk c])"
proof -
  obtain v b m where v: "exec_event (Complete i Read_Body (Body_Read No_Error False c)) w = Some v"
    "sv_sessions v = (sv_sessions w)(i \<mapsto> s\<lparr>s_sse_parser := p, s_first_data_seen := b,
      s_out := s_out s @ [Sse_Chunk c], s_pending := Write_Body True # remove1 Read_Body (s_pending s)\<rparr>)"
    "v = w\<lparr>sv_sessions := sv_sessions v, sv_metrics := m\<rparr>" "same_counters (sv_metrics w) m"
    using piece_read [OF assms(3,5)] assms(6,7) by auto
  note same = server_fields [OF v(3)]
  have s: "sv_sessions w i = Some s" "Read_Body \<in> set (s_pending s)" "sv_running w" "sv_crash w = None"
    using assms(3) by (simp_all add: reading_def)
  have ok: "session_ok (posted i w) s" using assms(2) s(1) by (simp add: protocol_except_def)
  have up: "upstream_op Read_Body" by simp
  note one = busy_single [OF ok s(2) upstream_main [OF up]]
  have permit: "has_permit s" "s_request_counted s" using session_okD(3,5) [OF ok] one assms(4) by auto
  let ?x = "upd i (completed (Write_Body True)) v"
  have x: "ses ?x i = completed (Write_Body True) (s\<lparr>s_sse_parser := p, s_first_data_seen := b,
      s_out := s_out s @ [Sse_Chunk c], s_pending := Write_Body True # remove1 Read_Body (s_pending s)\<rparr>)"
    using v(2) by (simp add: ses_def)
  have "permits_ok 0 v" using permits_event [OF assms(1) v(1)] .
  then have x_ok: "permits_ok 0 ?x" "live i ?x"
    using permits_upd [of 0 v i "completed (Write_Body True)"] v(2) by (simp_all add: completed_def live_def)
  have "\<not> s_finished (ses ?x i)" "has_permit (ses ?x i)" "s_request_counted (ses ?x i)"
    unfolding x using assms(4) permit by simp_all
  note fin = finish_effect [OF x_ok this]
  let ?f = "finish_request i ?x"
  have eff: "sv_sessions ?f i = Some (finish_session (ses ?x i))"
    "pm_completed (sv_metrics ?f) = pm_completed (sv_metrics w) + 1" "pm_failed (sv_metrics ?f) = pm_failed (sv_metrics w)"
    "current_inflight (sv_limiter ?f) = current_inflight (sv_limiter w) - 1" "sv_tasks ?f = sv_tasks w @ [Promote_Queued]"
    using fin same v(4) by (simp_all add: same_counters_def)
  have dead: "s_finished (finish_session (ses ?x i))" "\<not> s_client_open (finish_session (ses ?x i))"
    "s_permit (finish_session (ses ?x i)) = None" "s_out (finish_session (ses ?x i)) = s_out s @ [Sse_Chunk c]"
    "\<not> s_queued (finish_session (ses ?x i))"
    unfolding x using assms(4) one(3)
    by (simp_all add: finish_session_def completed_def cancel_queue_timer_def cancel_request_timer_def)
  have "reap i ?f = ?f \<or> reap i ?f = ?f\<lparr>sv_sessions := (sv_sessions ?f)(i := None)\<rparr>"
    using eff(1) dead(3,5) by (simp add: reap_def destroy_session_def reset_permit_def ses_def Let_def)
  moreover have "exec_event (Complete i (Write_Body True) (Body_Written True True)) v = Some (reap i ?f)"
    using v(2) by (simp add: completed_def [abs_def])
  then have "run_events (piece_events i c True) w = Some (reap i ?f)"
    using v(1) same s by (simp add: piece_events_def del: exec_event.simps)
  ultimately show ?thesis using eff dead by (intro exI [of _ "reap i ?f"]) auto
qed

end
