(* ===== verification/ProxyReplies.thy ===== *)
theory ProxyReplies
  imports ProxyQueue
begin

text \<open>
  What the client of a session receives, as an invariant over the event loop: at most one whole
  response, then at most one stream, and no request finishes in silence. The same walk through the
  handlers shows that a closed limiter gives no session a new permit.
\<close>

subsection \<open>The shape of the output\<close>

fun stream_out :: "client_message list \<Rightarrow> bool" where
  "stream_out [] = True"
| "stream_out (Sse_Header # ms) = list_all (\<lambda>m. \<exists>c. m = Sse_Chunk c) ms"
| "stream_out _ = False"

fun reply_out :: "client_message list \<Rightarrow> bool" where
  "reply_out (Response _ _ # ms) = stream_out ms"
| "reply_out ms = stream_out ms"

fun is_response :: "client_message \<Rightarrow> bool" where
  "is_response (Response _ _) = True"
| "is_response _ = False"

lemma stream_out_header: "stream_out ms \<Longrightarrow> Sse_Header \<notin> set ms \<Longrightarrow> ms = []"
  by (cases ms rule: stream_out.cases) auto

lemma reply_out_header: "reply_out ms \<Longrightarrow> Sse_Header \<notin> set ms \<Longrightarrow> reply_out (ms @ [Sse_Header])"
  by (cases ms rule: reply_out.cases) (auto dest: stream_out_header)

lemma stream_out_chunk: "stream_out ms \<Longrightarrow> Sse_Header \<in> set ms \<Longrightarrow> stream_out (ms @ [Sse_Chunk d])"
  by (cases ms rule: stream_out.cases) auto

lemma reply_out_chunk: "reply_out ms \<Longrightarrow> Sse_Header \<in> set ms \<Longrightarrow> reply_out (ms @ [Sse_Chunk d])"
  by (cases ms rule: reply_out.cases) (auto dest: stream_out_chunk)

lemma reply_out_empty:
  "reply_out ms \<Longrightarrow> Sse_Header \<notin> set ms \<Longrightarrow> list_all (\<lambda>m. \<not> is_response m) ms \<Longrightarrow> ms = []"
  by (cases ms rule: reply_out.cases) (auto dest: stream_out_header)

subsection \<open>The invariant of a session\<close>

text \<open>The operations of a session before and after the header of the stream is sent.\<close>

fun opening_op :: "async \<Rightarrow> bool" where
  "opening_op Resolve = True"
| "opening_op Connect = True"
| "opening_op Write_Upstream = True"
| "opening_op Read_Header = True"
| "opening_op _ = False"

fun streaming_op :: "async \<Rightarrow> bool" where
  "streaming_op Write_Sse_Header = True"
| "streaming_op Read_Body = True"
| "streaming_op (Write_Body _) = True"
| "streaming_op _ = False"

lemma upstream_op_cases: "upstream_op a \<longleftrightarrow> opening_op a \<or> streaming_op a"
  by (cases a) auto

abbreviation streams :: "session \<Rightarrow> bool" where
  "streams s \<equiv> s_response_started s \<and> (s_client_open s \<longrightarrow> Sse_Header \<in> set (s_out s))"

definition reply_ok :: "session \<Rightarrow> bool" where
  "reply_ok s \<longleftrightarrow> reply_out (s_out s) \<and>
     (\<not> s_response_started s \<longrightarrow> Sse_Header \<notin> set (s_out s)) \<and>
     (\<not> s_finished s \<and> Write_Response \<notin> set (busy s) \<longrightarrow> list_all (\<lambda>m. \<not> is_response m) (s_out s)) \<and>
     (list_ex opening_op (busy s) \<longrightarrow> \<not> s_response_started s) \<and>
     (list_ex streaming_op (busy s) \<longrightarrow> streams s) \<and>
     (s_finished s \<and> s_client_open s \<longrightarrow> s_out s \<noteq> []) \<and>
     (s_response_started s \<longrightarrow> s_finished s \<or> has_permit s)"

lemma out_simps [simp]:
  "s_out (await a s) = s_out s" "s_client_open (await a s) = s_client_open s" "s_permit (await a s) = s_permit s"
  "s_out (send_client m s) = (if s_client_open s then s_out s @ [m] else s_out s)"
  "s_client_open (send_client m s) = s_client_open s" "s_permit (send_client m s) = s_permit s"
  "s_out (cancel_queue_timer s) = s_out s" "s_out (cancel_request_timer s) = s_out s"
  "s_client_open (cancel_queue_timer s) = s_client_open s"
  "s_client_open (cancel_request_timer s) = s_client_open s"
  "s_permit (cancel_queue_timer s) = s_permit s" "s_permit (cancel_request_timer s) = s_permit s"
  "s_out (completed a s) = s_out s" "s_client_open (completed a s) = s_client_open s"
  "s_response_started (completed a s) = s_response_started s"
  by (simp_all add: await_def send_client_def cancel_queue_timer_def cancel_request_timer_def completed_def)

text \<open>The parts of a session that the invariant depends on.\<close>

lemma reply_ok_cong:
  assumes "s_out t = s_out s" "s_client_open t = s_client_open s" "s_finished t = s_finished s"
    "s_response_started t = s_response_started s" "busy t = busy s" "has_permit t = has_permit s"
  shows "reply_ok t = reply_ok s"
  using assms by (simp add: reply_ok_def)

lemma reply_ok_completed:
  assumes "reply_ok s" "a \<noteq> Write_Response"
  shows "reply_ok (completed a s)"
proof -
  have "list_ex P (remove1 a xs) \<Longrightarrow> list_ex P xs" for P and xs :: "async list"
    by (induction xs) (auto split: if_splits)
  then show ?thesis using assms by (auto simp: reply_ok_def)
qed

lemma reply_ok_closed: "reply_ok s \<Longrightarrow> reply_ok (s\<lparr>s_client_open := False\<rparr>)"
  by (auto simp: reply_ok_def)

lemma reply_ok_fail:
  assumes "reply_ok s" "Write_Response \<notin> set (busy s)"
  shows "reply_ok (fail_session c e s)"
proof (cases "s_finished s \<or> s_response_started s")
  case True
  then show ?thesis using assms by (auto simp: fail_session_def reply_ok_def Let_def)
next
  case False
  then have "s_out s = []" using assms by (auto simp: reply_ok_def intro: reply_out_empty)
  then show ?thesis using assms False
    by (auto simp: fail_session_def reply_ok_def Let_def main_op_def)
qed

lemma reply_ok_finish: "reply_ok s \<Longrightarrow> reply_ok (finish_session s)"
  by (auto simp: finish_session_def reply_ok_def)

lemma reply_ok_await:
  assumes "reply_ok s" "opening_op a \<and> \<not> s_response_started s \<or> streaming_op a \<and> streams s"
  shows "reply_ok (await a s)"
proof -
  have "a \<noteq> Write_Response" "opening_op a \<Longrightarrow> \<not> streaming_op a" using assms(2) by (cases a; auto)+
  then show ?thesis using assms by (auto simp: reply_ok_def)
qed

lemma reply_ok_header:
  assumes "reply_ok s" "\<not> s_response_started s" "handling s"
  shows "reply_ok (await Write_Sse_Header (send_client Sse_Header (s\<lparr>s_response_started := True\<rparr>)))"
  using assms by (auto simp: reply_ok_def handling_def main_op_def reply_out_header)

lemma reply_ok_chunk:
  assumes "reply_ok s" "streams s"
  shows "reply_ok (await (Write_Body b) (send_client (Sse_Chunk d) s))"
  using assms by (auto simp: reply_ok_def main_op_def reply_out_chunk)

subsection \<open>The handlers\<close>

text \<open>
  \<open>advances c s t\<close>: what a handler does to its session, the limiter being closed if \<open>c\<close>. The session
  stays counted, is not queued, and gets a permit only if it is a new request and the limiter is open.
\<close>

definition advances :: "bool \<Rightarrow> session \<Rightarrow> session \<Rightarrow> bool" where
  "advances c s t \<longleftrightarrow> (s_request_counted s \<longrightarrow> s_request_counted t) \<and> (s_queued t \<longrightarrow> s_queued s) \<and>
     (has_permit t \<longrightarrow> has_permit s \<or> \<not> c \<and> \<not> s_request_counted s)"

lemma advancesI: "s_request_counted t = s_request_counted s \<Longrightarrow> s_queued t = s_queued s \<Longrightarrow>
    s_permit t = s_permit s \<Longrightarrow> advances c s t"
  by (simp add: advances_def)

text \<open>The sessions that posted closures will enqueue, in order.\<close>

fun posted_ids :: "task list \<Rightarrow> nat list" where
  "posted_ids [] = []"
| "posted_ids (Enqueue i # ts) = i # posted_ids ts"
| "posted_ids (_ # ts) = posted_ids ts"

lemma posted_ids_append [simp]: "posted_ids (ts @ us) = posted_ids ts @ posted_ids us"
  by (induction ts rule: posted_ids.induct) simp_all

lemma posted_ids_promotions [simp]: "posted_ids (replicate n Promote_Queued) = []"
  by (induction n) simp_all

lemma set_posted_ids: "i \<in> set (posted_ids ts) \<longleftrightarrow> Enqueue i \<in> set ts"
  by (induction ts rule: posted_ids.induct) auto

definition same_queue :: "server \<Rightarrow> server \<Rightarrow> bool" where
  "same_queue w w' \<longleftrightarrow> sv_stopping w' = sv_stopping w \<and> sv_queued_sessions w' = sv_queued_sessions w \<and>
     sv_next w' = sv_next w \<and> posted_ids (sv_tasks w') = posted_ids (sv_tasks w)"

lemma same_queue_quiet: "quiet w w' \<Longrightarrow> same_queue w w'"
  by (auto simp: quiet_def same_queue_def)

lemma same_queue_trans: "same_queue u v \<Longrightarrow> same_queue v w \<Longrightarrow> same_queue u w"
  by (simp add: same_queue_def)

lemma same_queue_upd [simp]: "same_queue w (upd i f w)"
  by (simp add: same_queue_def)

text \<open>
  \<open>replies i w w'\<close>: only session \<open>i\<close> changes, it advances and keeps the invariant; the queue is the
  same. \<open>enters i w w'\<close>: the session is a new request, all slots are taken, and it is posted to be
  enqueued.
\<close>

definition replies :: "nat \<Rightarrow> server \<Rightarrow> server \<Rightarrow> bool" where
  "replies i w w' \<longleftrightarrow> (\<exists>t. sv_sessions w' = (sv_sessions w)(i \<mapsto> t) \<and> reply_ok t \<and>
     advances (closed (sv_limiter w)) (ses w i) t) \<and> same_queue w w'"

definition enters :: "nat \<Rightarrow> server \<Rightarrow> server \<Rightarrow> bool" where
  "enters i w w' \<longleftrightarrow> (\<exists>t. sv_sessions w' = (sv_sessions w)(i \<mapsto> t) \<and> reply_ok t \<and>
     s_request_counted t \<and> \<not> has_permit t \<and> \<not> s_queued t) \<and> \<not> s_request_counted (ses w i) \<and>
     \<not> closed (sv_limiter w) \<and> max_inflight (sv_limiter w) \<le> current_inflight (sv_limiter w) \<and>
     sv_stopping w' = sv_stopping w \<and> sv_queued_sessions w' = sv_queued_sessions w \<and>
     sv_next w' = sv_next w \<and> posted_ids (sv_tasks w') = posted_ids (sv_tasks w) @ [i]"

lemma replies_upd: "reply_ok (f (ses w i)) \<Longrightarrow> advances (closed (sv_limiter w)) (ses w i) (f (ses w i)) \<Longrightarrow>
    replies i w (upd i f w)"
  by (auto simp: replies_def)

lemma replies_same: "live i w \<Longrightarrow> reply_ok (ses w i) \<Longrightarrow> sv_sessions w' = sv_sessions w \<Longrightarrow>
    same_queue w w' \<Longrightarrow> replies i w w'"
  unfolding replies_def by (intro conjI exI [of _ "ses w i"]) (simp_all add: live_ses fun_upd_idem advances_def)

lemma advances_answer: "advances c s (fail_session st e s)" "advances c s (finish_session s)"
  by (simp_all add: advances_def fail_session_def finish_session_def Let_def)

lemma replies_fail:
  assumes "ready w" "live i w" "reply_ok (ses w i)" "Write_Response \<notin> set (busy (ses w i))"
  shows "replies i w (fail_with_status i c e w)"
  using on_session_fail [OF assms(1,2), of c e] reply_ok_fail [OF assms(3,4)] advances_answer(1) same_queue_quiet
  unfolding replies_def on_session_def by blast

lemma replies_finish:
  assumes "ready w" "live i w" "reply_ok (ses w i)"
  shows "replies i w (finish_request i w)"
  using on_session_finish [OF assms(1,2)] reply_ok_finish [OF assms(3)] advances_answer(2) same_queue_quiet
  unfolding replies_def on_session_def by blast

lemma advances_trans: "advances c r s \<Longrightarrow> advances c s t \<Longrightarrow> advances c r t"
  by (auto simp: advances_def)

lemma replies_comp:
  assumes "sv_sessions v = (sv_sessions w)(i \<mapsto> s)" "advances (closed (sv_limiter w)) (ses w i) s"
    "closed (sv_limiter v) = closed (sv_limiter w)" "same_queue w v" "replies i v w'"
  shows "replies i w w'"
proof -
  have "ses v i = s" using assms(1) by (simp add: ses_def)
  then obtain t where "sv_sessions w' = (sv_sessions v)(i \<mapsto> t)" "reply_ok t"
    "advances (closed (sv_limiter w)) s t" "same_queue v w'"
    using assms(3,5) by (auto simp: replies_def)
  then show ?thesis using assms(1,4) advances_trans [OF assms(2)] same_queue_trans
    unfolding replies_def by (intro conjI exI [of _ t]) auto
qed

lemma enters_comp:
  assumes "sv_sessions v = (sv_sessions w)(i \<mapsto> s)" "s_request_counted s = s_request_counted (ses w i)"
    "sv_limiter v = sv_limiter w" "same_queue w v" "enters i v w'"
  shows "enters i w w'"
proof -
  have "ses v i = s" using assms(1) by (simp add: ses_def)
  then show ?thesis using assms by (auto simp: enters_def same_queue_def)
qed

text \<open>Observing a piece of the stream changes nothing that matters here.\<close>

definition reply_view where
  "reply_view s = (s_out s, s_client_open s, s_finished s, s_response_started s, busy s, s_permit s,
     s_queued s, s_request_counted s)"

definition same_reply :: "nat \<Rightarrow> server \<Rightarrow> server \<Rightarrow> bool" where
  "same_reply i w v \<longleftrightarrow> (\<exists>t. sv_sessions v = (sv_sessions w)(i \<mapsto> t) \<and> reply_view t = reply_view (ses w i)) \<and>
     sv_limiter v = sv_limiter w \<and> sv_alive v = sv_alive w \<and> same_queue w v"

lemma same_reply_upd:
  assumes "same_reply i w v" "\<And>t. reply_view (f t) = reply_view t"
  shows "same_reply i w (upd i f v)"
proof -
  obtain t where t: "sv_sessions v = (sv_sessions w)(i \<mapsto> t)" "reply_view t = reply_view (ses w i)"
    "sv_limiter v = sv_limiter w" "sv_alive v = sv_alive w" "same_queue w v"
    using assms(1) by (auto simp: same_reply_def)
  then have "sv_sessions (upd i f v) = (sv_sessions w)(i \<mapsto> f t)" by (simp add: ses_def)
  then show ?thesis using t assms(2) [of t] unfolding same_reply_def same_queue_def
    by (intro conjI exI [of _ "f t"]) simp_all
qed

lemma same_reply_observe:
  assumes "live i w"
  shows "same_reply i w (fst (observe_sse_chunk i d w))"
proof (rule observe_keeps [of "same_reply i w"])
  show "same_reply i w w" using assms unfolding same_reply_def
    by (intro conjI exI [of _ "ses w i"]) (simp_all add: live_ses fun_upd_idem same_queue_def)
qed (auto intro: same_reply_upd simp: reply_view_def, simp add: same_reply_def same_queue_def)

lemma replies_write_body:
  assumes "ready w" "live i w" "reply_ok (ses w i)" "streams (ses w i)"
  shows "replies i w (write_downstream_body i d b w)"
  using replies_finish [OF assms(1-3)] reply_ok_chunk [OF assms(3,4)]
  by (auto simp: write_downstream_body_def intro!: replies_upd advancesI)

lemma replies_read_body:
  assumes "ready w" "reply_ok (ses w i)" "streams (ses w i)"
  shows "replies i w (read_upstream_body i w)"
proof -
  have "reply_ok (await Read_Body (ses w i))" using assms(2,3) by (intro reply_ok_await) auto
  then show ?thesis using assms(1) by (auto simp: read_upstream_body_def ready_def intro!: replies_upd advancesI)
qed

lemma replies_opening:
  assumes "reply_ok (f (ses w i))" "opening_op a" "\<not> s_response_started (f (ses w i))"
    and "s_permit (f (ses w i)) = s_permit (ses w i)" "s_queued (f (ses w i)) = s_queued (ses w i)"
    and "s_request_counted (f (ses w i)) = s_request_counted (ses w i)"
  shows "replies i w (upd i (\<lambda>s. await a (f s)) w)"
  using assms by (intro replies_upd reply_ok_await advancesI) auto

lemma replies_observed:
  assumes "ready w" "live i w" "reply_ok (ses w i)" "streams (ses w i)"
    "observe_sse_chunk i d w = (v, stop)"
  shows "replies i w (write_downstream_body i d b v)"
proof -
  have "same_reply i w v" using same_reply_observe [OF assms(2), of d] assms(5) by simp
  then obtain t where t: "sv_sessions v = (sv_sessions w)(i \<mapsto> t)" "s_out t = s_out (ses w i)"
    "s_client_open t = s_client_open (ses w i)" "s_finished t = s_finished (ses w i)"
    "s_response_started t = s_response_started (ses w i)" "busy t = busy (ses w i)"
    "s_permit t = s_permit (ses w i)" "s_queued t = s_queued (ses w i)"
    "s_request_counted t = s_request_counted (ses w i)" "sv_limiter v = sv_limiter w" "sv_alive v = sv_alive w"
    "same_queue w v"
    by (auto simp: same_reply_def reply_view_def)
  then have "reply_ok t" "streams t" using assms(3,4) reply_ok_cong [of t "ses w i"] by simp_all
  moreover have "ready v" "live i v" "ses v i = t" using assms(1) t by (simp_all add: ready_def live_def ses_def)
  ultimately have "replies i v (write_downstream_body i d b v)" using replies_write_body by blast
  then show ?thesis using t by (intro replies_comp [OF t(1) advancesI]) simp_all
qed

lemma upstream_replies:
  assumes "ready w" "live i w" "handling (ses w i)" "reply_ok (ses w i)" "completes c a" "upstream_op a"
    and "opening_op a \<Longrightarrow> \<not> s_response_started (ses w i)" "streaming_op a \<Longrightarrow> streams (ses w i)"
  shows "replies i w (on_completion i c w)"
proof -
  have "busy (ses w i) = []" using assms(3) by (simp add: handling_def)
  then have fail: "replies i w (fail_with_status i c e w)" for c e using replies_fail [OF assms(1,2,4)] by simp
  note finish = replies_finish [OF assms(1,2,4)] and read = replies_read_body [OF assms(1,4)]
  note body = replies_write_body [OF assms(1,2,4)] and opens = replies_opening [where w = w and i = i]
  have alive: "sv_alive w" using assms(1) by (simp add: ready_def)
  show ?thesis
  proof (cases c)
    case (Resolved ok)
    then have "\<not> s_response_started (ses w i)" using assms(5,7) by simp
    then show ?thesis using fail Resolved alive assms(4)
        opens [of "s_upstream_open_update (\<lambda>_. True)" Connect] reply_ok_cong [of "(ses w i)\<lparr>s_upstream_open := True\<rparr>" "ses w i"]
      by (simp add: connect_upstream_def)
  next
    case (Connected ok)
    let ?f = "\<lambda>s. if s_upstream_open s then s\<lparr>s_upstream := s_upstream s @ [rq_body (s_request s)]\<rparr> else s"
    have "\<not> s_response_started (ses w i)" using Connected assms(5,7) by simp
    moreover have "reply_ok (?f (ses w i))" using assms(4) by (simp add: reply_ok_def)
    ultimately show ?thesis using fail Connected alive opens [of ?f Write_Upstream]
      by (simp add: write_upstream_request_def)
  next
    case (Upstream_Written ok)
    then have "\<not> s_response_started (ses w i)" using assms(5,7) by simp
    then show ?thesis using fail Upstream_Written assms(4) opens [of "\<lambda>s. s" Read_Header]
      by (simp add: read_upstream_header_def)
  next
    case (Header_Read status)
    then have "\<not> s_response_started (ses w i)" using assms(5,7) by simp
    from reply_ok_header [OF assms(4) this assms(3)] have "replies i w (write_downstream_sse_header i w)"
      unfolding write_downstream_sse_header_def by (intro replies_upd advancesI) simp_all
    then show ?thesis using fail Header_Read by (simp split: option.splits)
  next
    case (Sse_Header_Written ok)
    then show ?thesis using finish read assms(5,8) by simp
  next
    case (Body_Read ec is_done bytes)
    then have "streams (ses w i)" using assms(5,8) by simp
    then show ?thesis using fail read body replies_observed [OF assms(1,2,4)] Body_Read
      by (auto split: prod.splits)
  next
    case (Body_Written ok d)
    then show ?thesis using fail finish read assms(5,8) by simp
  qed (use assms(5,6) in auto)
qed

subsection \<open>A request arrives, a request starts\<close>

lemma replies_start:
  assumes "ready w" "live i w" "reply_ok (ses w i)" "\<not> s_response_started (ses w i)"
    and "\<not> s_finished (ses w i)" "busy (ses w i) = []"
  shows "\<exists>t. sv_sessions (start_proxy_request i p w) = (sv_sessions w)(i \<mapsto> t) \<and> reply_ok t \<and>
    s_request_counted t = s_request_counted (ses w i) \<and> s_queued t = s_queued (ses w i) \<and> has_permit t \<and>
    same_queue w (start_proxy_request i p w)"
proof -
  let ?t = "await Resolve (await (Request_Timer False) ((ses w i)\<lparr>s_permit := Some (fst (move_permit p)),
    s_request_start := Some (sv_clock (set_permit i p w))\<rparr>))"
  note set = on_session_set [OF assms(1,2), of p]
  have alive: "sv_alive (set_permit i p w)" using on_session_ready [OF set assms(1)] by (simp add: ready_def)
  have "sv_sessions (start_proxy_request i p w) = (sv_sessions w)(i \<mapsto> ?t)"
    using set alive
    by (simp add: start_proxy_request_def start_request_timer_def resolve_upstream_def Let_def on_session_def ses_def)
  moreover have "same_queue w (start_proxy_request i p w)"
    using same_queue_quiet [of w "set_permit i p w"] set alive
    by (simp add: start_proxy_request_def start_request_timer_def resolve_upstream_def Let_def on_session_def same_queue_def)
  moreover have "reply_ok ?t" using assms(3-6) by (simp add: reply_ok_def main_op_def)
  moreover have "s_request_counted ?t = s_request_counted (ses w i)" "s_queued ?t = s_queued (ses w i)" "has_permit ?t"
    by (simp_all add: await_def)
  ultimately show ?thesis by blast
qed

lemma replies_handle_request:
  assumes "ready w" "live i w" "fresh (ses w i)" "untouched (ses w i)"
  shows "replies i w (handle_request i w) \<or> enters i w (handle_request i w)"
proof -
  let ?f = "\<lambda>s. s\<lparr>s_request_counted := True\<rparr>"
  have s: "busy (ses w i) = []" "\<not> s_finished (ses w i)" "\<not> s_response_started (ses w i)" "s_out (ses w i) = []" "\<not> s_queued (ses w i)"
    "\<not> has_permit (ses w i)" "\<not> s_request_counted (ses w i)"
    using assms(3,4) by (simp_all add: fresh_def untouched_def busy_def)
  then have ok: "reply_ok (ses w i)" by (simp add: reply_ok_def)
  have json: "replies i w (send_json_error i c e w)" for c e
    using replies_fail [OF assms(1,2) ok] s by (simp add: send_json_error_def)
  have health: "replies i w (send_health i w)"
  proof (cases "metrics_snapshot_of (sv_metrics w)")
    case Inl
    then show ?thesis using assms(1) replies_same [OF assms(2) ok] by (simp add: send_health_def ready_def same_queue_def)
  next
    case (Inr m)
    have "reply_ok (await Write_Response (send_client (Response 200 b) (ses w i)))" for b
      using s by (simp add: reply_ok_def main_op_def)
    then show ?thesis using assms(1) Inr
      by (auto simp: send_health_def ready_def send_text_response_def intro!: replies_upd advancesI)
  qed
  define w1 where "w1 = upd i ?f (with_metrics record_request_started w)"
  obtain d p n l where acq: "try_acquire_or_queue 0 (sv_limiter w) = ((d, p, n), l)"
    by (metis prod_cases3 prod.collapse)
  define w2 where "w2 = w1\<lparr>sv_limiter := l\<rparr>"
  have lim: "sv_limiter w1 = sv_limiter w" by (simp add: w1_def with_metrics_def)
  have w2: "sv_sessions w2 = (sv_sessions w)(i \<mapsto> ?f (ses w i))" "sv_alive w2" "sv_limiter w2 = l" "live i w2" "same_queue w w2"
    "ses w2 i = ?f (ses w i)"
    using assms(1) by (simp_all add: w2_def w1_def with_metrics_def ses_def ready_def live_def same_queue_def)
  have l: "on_release l = Some ()" "closed l = closed (sv_limiter w)" "d = Admit \<Longrightarrow> \<not> closed (sv_limiter w)"
    using acq assms(1) by (auto simp: try_acquire_or_queue_def Let_def ready_def split: if_splits)
  have ready: "ready w2" using w2 l by (simp add: ready_def)
  have ok2: "reply_ok (ses w2 i)" using ok w2 reply_ok_cong [of "ses w2 i" "ses w i"] by simp
  have adv: "advances (closed (sv_limiter w)) (ses w i) (ses w2 i)" using w2(6) s by (auto simp: advances_def)
  have decided: "replies i w v" if "replies i w2 v" for v
    by (rule replies_comp [OF w2(1) _ _ w2(5) that]) (use adv w2 l in simp_all)
  have "replies i w (send_json_error i c e w2)" for c e
    using decided replies_fail [OF ready w2(4) ok2] s w2(6) by (simp add: send_json_error_def)
  moreover have "enters i w (post (Enqueue i) w2)" if "d = Queue"
  proof -
    have "max_inflight (sv_limiter w) \<le> current_inflight (sv_limiter w)" "\<not> closed (sv_limiter w)"
      using acq that by (auto simp: try_acquire_or_queue_def Let_def not_less split: if_splits)
    then show ?thesis using w2(1,5,6) ok2 s by (auto simp: enters_def same_queue_def post_def)
  qed
  moreover have "replies i w (start_proxy_request i p w2)" if d: "d = Admit"
  proof -
    obtain t where t: "sv_sessions (start_proxy_request i p w2) = (sv_sessions w2)(i \<mapsto> t)" "reply_ok t"
      "s_request_counted t" "\<not> s_queued t" "same_queue w2 (start_proxy_request i p w2)"
      using replies_start [OF ready w2(4) ok2, of p] s w2(6) by auto
    then have "advances (closed (sv_limiter w)) (ses w i) t" using s l(3) [OF d] by (simp add: advances_def)
    then show ?thesis using t w2(1) same_queue_trans [OF w2(5)] unfolding replies_def
      by (intro conjI exI [of _ t]) auto
  qed
  ultimately show ?thesis using json health acq assms(1) lim
    by (cases d) (auto simp: handle_request_def Let_def w1_def [symmetric] w2_def [symmetric] ready_def)
qed

subsection \<open>Every completion\<close>

lemma read_replies:
  assumes "ready w" "live i w" "fresh (ses w i)" "untouched (ses w i)"
  shows "replies i w (on_completion i (Request_Read (Some rq)) w) \<or> enters i w (on_completion i (Request_Read (Some rq)) w)"
proof -
  let ?f = "\<lambda>s. s\<lparr>s_request := rq\<rparr>"
  have f: "ready (upd i ?f w)" "live i (upd i ?f w)" "fresh (ses (upd i ?f w) i)" "untouched (ses (upd i ?f w) i)"
    using assms by (auto simp: ready_def fresh_def untouched_def)
  show ?thesis using replies_handle_request [OF f] replies_comp [OF sv_sessions_upd advancesI, of ?f w i]
      enters_comp [OF sv_sessions_upd, of ?f w i] by auto
qed

lemma last_write_replies:
  assumes "reply_ok s" "ses w i = completed Write_Response s" "busy s = [Write_Response]"
  shows "replies i w (on_completion i (Response_Written k) w)"
proof -
  have "busy (completed Write_Response s) = []" using assms(3) by (simp add: main_op_def)
  then have "reply_ok ((ses w i)\<lparr>s_finished := True, s_client_open := False\<rparr>)"
    using assms(1,2) by (auto simp: reply_ok_def)
  then have "replies i w (upd i (\<lambda>s. s\<lparr>s_finished := True, s_client_open := False\<rparr>) w)"
    by (intro replies_upd advancesI) simp_all
  then show ?thesis by (simp add: close_client_def)
qed

lemma queue_timer_replies:
  assumes "ready w" "live i w" "reply_ok (ses w i)" "s_queued (ses w i) \<Longrightarrow> busy (ses w i) = []"
  shows "replies i w (on_completion i (Queue_Timer_Done expired) w)"
proof (cases "expired \<and> s_queued (ses w i)")
  case True
  let ?f = "\<lambda>s. s\<lparr>s_queued := False\<rparr>"
  define w' where "w' = upd i ?f (w\<lparr>sv_limiter := snd (cancel_queued (sv_limiter w))\<rparr>)"
  have ss: "sv_sessions w' = (sv_sessions w)(i \<mapsto> ?f (ses w i))" by (simp add: w'_def ses_def)
  have r: "ready w'" "live i w'" "ses w' i = ?f (ses w i)" "same_queue w w'" "closed (sv_limiter w') = closed (sv_limiter w)"
    using assms(1) by (auto simp: w'_def ready_def cancel_queued_def ses_def same_queue_def)
  have "Write_Response \<notin> set (busy (ses w' i))" "reply_ok (ses w' i)"
    using r(3) assms(3,4) True reply_ok_cong [of "ses w' i" "ses w i"] by simp_all
  note fail = replies_fail [OF r(1,2) this(2,1)]
  have "replies i w (send_json_error i c e w')" for c e unfolding send_json_error_def
    by (rule replies_comp [OF ss _ _ r(4) fail]) (simp_all add: r(5) advances_def)
  then show ?thesis using True assms(1) by (simp add: w'_def ready_def)
next
  case False
  then show ?thesis using assms by (auto intro: replies_same simp: same_queue_def)
qed

lemma request_timer_replies:
  assumes "ready w" "live i w" "reply_ok (ses w i)" "\<not> s_finished (ses w i) \<Longrightarrow> answerable (ses w i)"
  shows "replies i w (on_completion i (Request_Timer_Done expired) w)"
proof (cases "expired \<and> \<not> s_finished (ses w i)")
  case True
  then have "Write_Response \<notin> set (busy (ses w i))" using assms(4) by (auto simp: answerable_def list_all_iff)
  then show ?thesis using replies_fail [OF assms(1-3)] True by simp
next
  case False
  then show ?thesis using assms by (auto intro: replies_same simp: same_queue_def)
qed

lemma completion_replies:
  assumes "permits_ok 0 w" "protocol_ok w" "sv_sessions w i = Some s" "a \<in> set (s_pending s)"
    and "completes c a" "reply_ok s" "c \<noteq> Request_Read None"
  shows "replies i w (on_completion i c (upd i (completed a) w)) \<or>
    enters i w (on_completion i c (upd i (completed a) w))"
proof -
  define v where "v = upd i (completed a) w"
  have ok: "session_ok (posted i w) s" using assms(2,3) by (simp add: protocol_except_def)
  note d = session_okD [OF ok] and single = busy_single [OF ok assms(4)]
  have s: "ses w i = s" "live i w" using assms(3) by (simp_all add: ses_def live_def)
  have v: "ready v" "live i v" "ses v i = completed a s" "sv_alive v"
    using assms(1) s by (simp_all add: v_def ready_def permits_ok_def)
  have step: "replies i w w' \<or> enters i w w'" if "replies i v w' \<or> enters i v w'" for w'
    using that replies_comp [where s = "completed a s" and v = v, OF _ advancesI]
      enters_comp [where s = "completed a s" and v = v] s by (auto simp: v_def)
  have ok': "reply_ok (ses v i)" if "a \<noteq> Write_Response" using reply_ok_completed [OF assms(6) that] v(3) by simp
  have upstream: "replies i v (on_completion i c v)" if a: "upstream_op a"
  proof -
    note b = single(1) [OF upstream_main [OF a]]
    have "a \<noteq> Write_Response" using a by auto
    moreover have "opening_op a \<Longrightarrow> \<not> s_response_started s" "streaming_op a \<Longrightarrow> streams s"
      using assms(6) b by (auto simp: reply_ok_def)
    ultimately show ?thesis
      using upstream_replies [OF v(1,2) _ ok' assms(5) a] completed_handling [OF ok assms(4) a] v(3) by simp
  qed
  have "replies i v (on_completion i c v) \<or> enters i v (on_completion i c v)"
  proof (cases c)
    case (Request_Read r)
    then obtain rq where r: "r = Some rq" using assms(7) by auto
    have a: "a = Read_Request" "main_op a" using assms(5) Request_Read by (simp_all add: main_op_def)
    then have "fresh (ses v i)" "untouched (ses v i)"
      using v(3) single d(2,3,4,8) by (auto simp: fresh_def untouched_def pending_request_def)
    then show ?thesis using read_replies [OF v(1,2), of rq] Request_Read r by blast
  next
    case (Response_Written k)
    then have a: "a = Write_Response" "main_op a" using assms(5) by (simp_all add: main_op_def)
    then show ?thesis using last_write_replies [OF assms(6), of v i k] v(3) single Response_Written by simp
  next
    case (Error_Written k)
    then have "reply_ok ((ses v i)\<lparr>s_client_open := False\<rparr>)" using ok' assms(5) reply_ok_closed by auto
    then show ?thesis using Error_Written by (auto simp: close_client_def intro!: replies_upd advancesI)
  next
    case (Queue_Timer_Done expired)
    then obtain b where a: "a = Queue_Timer b" using assms(5) by auto
    have "busy (ses v i) = []" if "s_queued (ses v i)" using that d(1) v(3) a by (auto simp: main_op_def)
    then show ?thesis using queue_timer_replies [OF v(1,2) ok'] a Queue_Timer_Done by simp
  next
    case (Request_Timer_Done expired)
    then obtain b where a: "a = Request_Timer b" using assms(5) by auto
    have "answerable (ses v i)" if "\<not> s_finished (ses v i)"
      using request_timer_answerable(1) [OF ok assms(4) [unfolded a]] that v(3) a by simp
    then show ?thesis using request_timer_replies [OF v(1,2) ok'] a Request_Timer_Done by simp
  qed (use upstream assms(5) in auto)
  then show ?thesis using step by (simp add: v_def)
qed

subsection \<open>Promotion\<close>

definition all_replies :: "server \<Rightarrow> bool" where
  "all_replies w \<longleftrightarrow> (\<forall>i s. sv_sessions w i = Some s \<longrightarrow> reply_ok s)"

lemma promote_closed:
  assumes "closed (sv_limiter w)"
  shows "sv_sessions (promote_loop q w) = sv_sessions w \<and> sv_stopping (promote_loop q w) = sv_stopping w \<and>
    (q = [] \<longrightarrow> sv_queued_sessions (promote_loop q w) = [])"
proof (induction q)
  case (Cons i q)
  have none: "try_promote_queued 0 (sv_limiter w) = (no_permit, sv_limiter w)" "\<not> valid no_permit"
    using assms by (simp_all add: try_promote_queued_def valid_def no_permit_def)
  then show ?case using Cons by simp
qed simp

text \<open>The waiting sessions of a list.\<close>

definition waiting_in :: "server \<Rightarrow> nat list \<Rightarrow> nat list" where
  "waiting_in w q = filter (\<lambda>i. live i w \<and> s_queued (ses w i)) q"

lemma waiting_in_cong:
  "(\<And>j. j \<in> set q \<Longrightarrow> sv_sessions w' j = sv_sessions w j) \<Longrightarrow> waiting_in w' q = waiting_in w q"
  unfolding waiting_in_def by (intro filter_cong) (simp_all add: live_def ses_def)

text \<open>
  A promotion starts the first \<open>xs\<close> of the waiting sessions, in their order, and leaves the others
  as they are.
\<close>

definition promotes :: "nat list \<Rightarrow> nat list \<Rightarrow> server \<Rightarrow> server \<Rightarrow> bool" where
  "promotes q xs w w' \<longleftrightarrow> waiting_in w q = xs @ waiting_in w' (sv_queued_sessions w') \<and>
     (\<forall>j. j \<notin> set xs \<longrightarrow> sv_sessions w' j = sv_sessions w j) \<and>
     (\<forall>j\<in>set xs. \<exists>t. sv_sessions w' j = Some t \<and> reply_ok t \<and> has_permit t \<and> \<not> s_queued t \<and> s_request_counted t) \<and>
     set (sv_queued_sessions w') \<subseteq> set q \<and> (distinct q \<longrightarrow> distinct (sv_queued_sessions w')) \<and>
     sv_stopping w' = sv_stopping w \<and> sv_next w' = sv_next w \<and>
     posted_ids (sv_tasks w') = posted_ids (sv_tasks w)"

lemma promotes_first:
  assumes "promotes q xs w1 w'" "i \<notin> set q" "live i w" "s_queued (ses w i)"
    and "sv_sessions w1 = (sv_sessions w)(i \<mapsto> t)" "reply_ok t" "has_permit t" "\<not> s_queued t" "s_request_counted t"
    and "sv_stopping w1 = sv_stopping w" "sv_next w1 = sv_next w" "posted_ids (sv_tasks w1) = posted_ids (sv_tasks w)"
  shows "promotes (i # q) (i # xs) w w'"
proof -
  have wait: "waiting_in w1 q = waiting_in w q" using assms(2,5) by (intro waiting_in_cong) auto
  then have q: "waiting_in w q = xs @ waiting_in w' (sv_queued_sessions w')" using assms(1) by (simp add: promotes_def)
  have "set xs \<subseteq> set (waiting_in w q)" unfolding q by simp
  then have "i \<notin> set xs" using assms(2) by (auto simp: waiting_in_def)
  then have "sv_sessions w' i = Some t" using assms(1,5) by (simp add: promotes_def)
  then show ?thesis using assms q by (auto simp: promotes_def waiting_in_def)
qed

lemma promote_shape:
  assumes "permits_ok 0 w" "protocol_ok w" "all_replies w" "\<not> sv_stopping w" "listed_in q w" "covered w" "distinct q"
  shows "\<exists>xs. promotes q xs w (promote_loop q w)"
  using assms
proof (induction q arbitrary: w)
  case Nil
  then show ?case by (intro exI [of _ "[]"]) (simp add: promotes_def waiting_in_def)
next
  case (Cons i q)
  show ?case
  proof (cases "live i w \<and> s_queued (ses w i)")
    case False
    then have "promote_loop (i # q) w = promote_loop q w" by (auto simp: is_queued_def live_def)
    moreover have "listed_in q w" using Cons.prems(5) False by (auto simp: listed_in_def live_def ses_def)
    then obtain xs where "promotes q xs w (promote_loop q w)" using Cons by auto
    then have "promotes (i # q) xs w (promote_loop q w)" using False by (auto simp: promotes_def waiting_in_def)
    ultimately show ?thesis by auto
  next
    case True
    define s where "s = ses w i"
    have s: "sv_sessions w i = Some s" "s_queued s" "live i w" using True by (simp_all add: live_ses s_def)
    have ok: "session_ok (posted i w) s" using Cons.prems(2) s by (simp add: protocol_except_def)
    note d = session_okD [OF ok]
    have idle: "busy s = []" "\<not> s_finished s" "\<not> has_permit s" "s_request_counted s" using d(1,2,3,5) s(2) by auto
    have r: "reply_ok s" using Cons.prems(3) s(1) by (simp add: all_replies_def)
    then have before: "\<not> s_response_started s" using idle by (simp add: reply_ok_def)
    obtain p l where pl: "try_promote_queued 0 (sv_limiter w) = (p, l)" by fastforce
    let ?g = "\<lambda>s. cancel_queue_timer (s\<lparr>s_queued := False\<rparr>)"
    define v where "v = upd i ?g (w\<lparr>sv_limiter := l\<rparr>)"
    show ?thesis
    proof (cases "valid p")
      case True
      define w1 where "w1 = start_proxy_request i p v"
      have eq: "promote_loop (i # q) w = promote_loop q w1"
        using pl True s idle by (simp add: try_start_from_queue_def is_queued_def w1_def v_def ses_def)
      have v: "ready v" "live i v" "ses v i = ?g s" "sv_sessions v = (sv_sessions w)(i \<mapsto> ?g s)" "same_queue w v"
        using Cons.prems(1) promoted_limiter [OF pl True] s
        by (simp_all add: v_def ready_def permits_ok_def ses_def same_queue_def)
      have "reply_ok (ses v i)" using r v(3) reply_ok_cong [of "?g s" s] by simp
      then obtain t where t: "sv_sessions w1 = (sv_sessions v)(i \<mapsto> t)" "reply_ok t" "s_request_counted t"
        "\<not> s_queued t" "has_permit t" "same_queue v w1"
        using replies_start [OF v(1,2), of p] v(3) idle before by (auto simp: w1_def)
      then have w1: "sv_sessions w1 = (sv_sessions w)(i \<mapsto> t)" "same_queue w w1"
        using v(4,5) same_queue_trans by (auto simp: fun_upd_def)
      note inv = promoted_step [OF Cons.prems(1,2) s(1,2) pl True v_def, of q, folded w1_def]
      have "permits_ok 0 w1" using permits_promoted(3) [OF Cons.prems(1) s(3) pl True] by (simp add: w1_def v_def)
      moreover have "all_replies w1" using Cons.prems(3) w1(1) t(2) by (auto simp: all_replies_def)
      ultimately obtain xs where "promotes q xs w1 (promote_loop q w1)"
        using Cons.IH [of w1] Cons.prems inv by auto
      from promotes_first [OF this _ _ _ w1(1) t(2,5,4,3)] have "promotes (i # q) (i # xs) w (promote_loop q w1)"
        using Cons.prems(7) s w1(2) by (simp add: s_def same_queue_def)
      then show ?thesis unfolding eq by blast
    next
      case False
      then have l: "l = sv_limiter w" using pl
        by (auto simp: try_promote_queued_def valid_def new_permit_def split: if_splits)
      have "0 < tally s_queued w" using tally_pos [of w i s_queued] Cons.prems(1) s by (simp add: permits_ok_def ses_def)
      then have "queued_requests l \<noteq> 0" using Cons.prems(2,4) l by (auto simp: protocol_except_def)
      then have "promote_loop (i # q) w = w\<lparr>sv_queued_sessions := i # q\<rparr>" using pl False s l
        by (simp add: is_queued_def snapshot_def ses_def)
      then show ?thesis
        by (intro exI [of _ "[]"]) (simp add: promotes_def waiting_in_def live_def ses_def)
    qed
  qed
qed

lemma promotes_replies: "promotes q xs w w' \<Longrightarrow> all_replies w \<Longrightarrow> all_replies w'"
  unfolding promotes_def all_replies_def by (metis option.inject)

lemma reply_out_shape:
  "reply_out ms \<Longrightarrow> \<exists>r cs. (ms = r \<or> ms = r @ Sse_Header # map Sse_Chunk cs) \<and> (r = [] \<or> (\<exists>c b. r = [Response c b]))"
proof -
  have chunks: "list_all (\<lambda>m. \<exists>c. m = Sse_Chunk c) xs \<Longrightarrow> \<exists>cs. xs = map Sse_Chunk cs" for xs
    by (induction xs) (auto intro: exI [of _ "_ # _"])
  have stream: "stream_out xs \<Longrightarrow> xs = [] \<or> (\<exists>cs. xs = Sse_Header # map Sse_Chunk cs)" for xs
    using chunks by (cases xs rule: stream_out.cases) auto
  assume "reply_out ms"
  then show ?thesis
  proof (cases ms rule: reply_out.cases)
    case (1 c b xs)
    then show ?thesis using stream [of xs] \<open>reply_out ms\<close>
      by (intro exI [of _ "[Response c b]"]) auto
  qed (use stream [of ms] \<open>reply_out ms\<close> in auto)
qed

lemma pending_not_answering:
  assumes "session_ok e s" "pending_request s"
  shows "Write_Response \<notin> set (busy s)"
proof
  assume "Write_Response \<in> set (busy s)"
  then have b: "busy s = [Write_Response]" "e = 0" "\<not> s_queued s"
    using busy_single [OF assms(1), of Write_Response] by (auto simp: busy_def main_op_def)
  then show False using session_okD(3,4) [OF assms(1)] assms(2) by auto
qed

end
