(* ===== verification/ProxySettle.thy ===== *)
theory ProxySettle
  imports ProxyReplies
begin

text \<open>
  What a handler does to the part of a session that the limiter and the queue depend on: it leaves
  that part and the server alone (\<open>stays\<close>), or it ends the request (\<open>ends\<close>): the timers are cancelled, the
  permit goes back, and a promotion is posted if there was one.
\<close>

text \<open>The part of a session that the admission sees, and its queue timers.\<close>

fun is_queue_timer :: "async \<Rightarrow> bool" where
  "is_queue_timer (Queue_Timer _) = True"
| "is_queue_timer _ = False"

definition queue_timers :: "session \<Rightarrow> async list" where
  "queue_timers s = filter is_queue_timer (s_pending s)"

definition admission_view where
  "admission_view s = (s_request_counted s, s_queued s, s_finished s, s_permit s, queue_timers s)"

definition same_admission :: "server \<Rightarrow> server \<Rightarrow> bool" where
  "same_admission w w' \<longleftrightarrow> sv_queued_sessions w' = sv_queued_sessions w \<and> sv_stopping w' = sv_stopping w \<and>
     sv_next w' = sv_next w"

text \<open>A permit goes back to the limiter, whose callback posts a promotion.\<close>

definition freed :: "server \<Rightarrow> unit limiter \<times> task list" where
  "freed w = (snd (release_slot (sv_limiter w)), sv_tasks w @ [Promote_Queued])"

definition stays :: "nat \<Rightarrow> server \<Rightarrow> server \<Rightarrow> bool" where
  "stays i w w' \<longleftrightarrow> (\<exists>t. sv_sessions w' = (sv_sessions w)(i \<mapsto> t) \<and> admission_view t = admission_view (ses w i)) \<and>
     same_admission w w' \<and> sv_limiter w' = sv_limiter w \<and> sv_tasks w' = sv_tasks w \<and> sv_alive w' = sv_alive w"

definition ends :: "nat \<Rightarrow> server \<Rightarrow> server \<Rightarrow> bool" where
  "ends i w w' \<longleftrightarrow> (\<exists>t. sv_sessions w' = (sv_sessions w)(i \<mapsto> t) \<and>
       s_request_counted t = s_request_counted (ses w i) \<and> s_queued t = s_queued (ses w i) \<and> s_finished t \<and>
       \<not> has_permit t \<and> queue_timers t = map (\<lambda>_. Queue_Timer True) (queue_timers (ses w i))) \<and>
     \<not> s_finished (ses w i) \<and> same_admission w w' \<and>
     (sv_limiter w', sv_tasks w') = (if has_permit (ses w i) then freed w else (sv_limiter w, sv_tasks w))"

definition settles :: "nat \<Rightarrow> server \<Rightarrow> server \<Rightarrow> bool" where
  "settles i w w' \<longleftrightarrow> stays i w w' \<or> ends i w w'"

text \<open>A permit of this limiter, that is still counted.\<close>

definition sound :: "nat \<Rightarrow> server \<Rightarrow> bool" where
  "sound i w \<longleftrightarrow> sv_alive w \<and> on_release (sv_limiter w) = Some () \<and> live i w \<and>
     (has_permit (ses w i) \<longrightarrow> s_permit (ses w i) = Some (new_permit 0) \<and> current_inflight (sv_limiter w) \<noteq> 0)"

lemma queue_timers_simps [simp]:
  "queue_timers (await a s) = (if is_queue_timer a then a # queue_timers s else queue_timers s)"
  "queue_timers (send_client m s) = queue_timers s"
  "queue_timers (s\<lparr>s_finished := b\<rparr>) = queue_timers s" "queue_timers (s\<lparr>s_upstream_open := b\<rparr>) = queue_timers s"
  "queue_timers (s\<lparr>s_client_open := b\<rparr>) = queue_timers s" "queue_timers (s\<lparr>s_permit := p\<rparr>) = queue_timers s"
  "queue_timers (s\<lparr>s_queued := b\<rparr>) = queue_timers s" "queue_timers (s\<lparr>s_request_counted := b\<rparr>) = queue_timers s"
  "queue_timers (s\<lparr>s_request := rq\<rparr>) = queue_timers s" "queue_timers (s\<lparr>s_request_start := t\<rparr>) = queue_timers s"
  "queue_timers (s\<lparr>s_response_started := b\<rparr>) = queue_timers s" "queue_timers (s\<lparr>s_upstream := u\<rparr>) = queue_timers s"
  "queue_timers (s\<lparr>s_sse_parser := p'\<rparr>) = queue_timers s" "queue_timers (s\<lparr>s_first_data_seen := b\<rparr>) = queue_timers s"
  by (simp_all add: queue_timers_def await_def send_client_def)

lemma queue_timers_cancel [simp]:
  "queue_timers (cancel_request_timer s) = queue_timers s"
  "queue_timers (cancel_queue_timer s) = map (\<lambda>_. Queue_Timer True) (queue_timers s)"
proof -
  have "filter is_queue_timer (map (\<lambda>a. case a of Request_Timer _ \<Rightarrow> Request_Timer True | _ \<Rightarrow> a) xs) = filter is_queue_timer xs"
    "filter is_queue_timer (map (\<lambda>a. case a of Queue_Timer _ \<Rightarrow> Queue_Timer True | _ \<Rightarrow> a) xs) =
      map (\<lambda>_. Queue_Timer True) (filter is_queue_timer xs)" for xs
    by (induction xs) (auto split: async.splits)
  then show "queue_timers (cancel_request_timer s) = queue_timers s"
    "queue_timers (cancel_queue_timer s) = map (\<lambda>_. Queue_Timer True) (queue_timers s)"
    by (simp_all add: queue_timers_def cancel_request_timer_def cancel_queue_timer_def)
qed

lemma stays_upd: "admission_view (f (ses w i)) = admission_view (ses w i) \<Longrightarrow> stays i w (upd i f w)"
  by (auto simp: stays_def same_admission_def)

lemma stays_comp: "stays i u v \<Longrightarrow> stays i v w \<Longrightarrow> stays i u w"
  by (auto simp: stays_def same_admission_def ses_def)

lemma settles_before: "stays i u v \<Longrightarrow> settles i v w \<Longrightarrow> settles i u w"
proof -
  assume uv: "stays i u v" and vw: "settles i v w"
  obtain t where t: "sv_sessions v = (sv_sessions u)(i \<mapsto> t)" "admission_view t = admission_view (ses u i)"
    "same_admission u v" "sv_limiter v = sv_limiter u" "sv_tasks v = sv_tasks u"
    using uv by (auto simp: stays_def)
  have "ends i u w" if "ends i v w"
    using that t by (auto simp: ends_def ses_def admission_view_def same_admission_def freed_def)
  then show ?thesis using stays_comp [OF uv] vw by (auto simp: settles_def)
qed

lemma ends_after: "ends i u v \<Longrightarrow> stays i v w \<Longrightarrow> ends i u w"
  by (auto simp: ends_def stays_def ses_def admission_view_def same_admission_def)

lemma settles_after: "settles i u v \<Longrightarrow> stays i v w \<Longrightarrow> settles i u w"
  using stays_comp ends_after by (auto simp: settles_def)

text \<open>The common part of the two ends of a request.\<close>

lemma ends_settle:
  assumes "sound i w" "\<not> s_finished (ses w i)"
  shows "ends i w (settle i f w)" "sv_alive (settle i f w)" "live i (settle i f w)"
proof -
  let ?t = "(cancel_queue_timer (cancel_request_timer (ses w i)))\<lparr>s_finished := True, s_upstream_open := False, s_permit := None\<rparr>"
  define v where "v = (let w2 = close_upstream i (cancel_timers i (upd i (\<lambda>s. s\<lparr>s_finished := True\<rparr>) w))
     in if sv_alive w2 \<and> s_request_counted (ses w2 i) then with_metrics f w2 else w2)"
  have eq: "settle i f w = reset_permit i v" by (simp add: settle_def v_def Let_def)
  let ?u = "(cancel_queue_timer (cancel_request_timer ((ses w i)\<lparr>s_finished := True\<rparr>)))\<lparr>s_upstream_open := False\<rparr>"
  have v: "sv_sessions v = (sv_sessions w)(i \<mapsto> ?u)" "same_admission w v" "sv_limiter v = sv_limiter w"
    "sv_tasks v = sv_tasks w" "sv_alive v"
    using assms(1) by (auto simp: v_def Let_def close_upstream_def cancel_timers_def with_metrics_def ses_def
        same_admission_def sound_def upd_def)
  have u: "s_permit (ses v i) = s_permit (ses w i)" "ses v i = ?u" "?u\<lparr>s_permit := None\<rparr> = ?t"
    using v(1) by (simp_all add: ses_def cancel_queue_timer_def cancel_request_timer_def)
  have "sv_sessions (settle i f w) = (sv_sessions w)(i \<mapsto> ?t) \<and> same_admission w (settle i f w) \<and>
    (sv_limiter (settle i f w), sv_tasks (settle i f w)) =
      (if has_permit (ses w i) then freed w else (sv_limiter w, sv_tasks w)) \<and> sv_alive (settle i f w)"
  proof (cases "s_permit (ses w i)")
    case None
    then have "?u = ?t" using u(3) by (cases "ses w i") (simp add: cancel_queue_timer_def cancel_request_timer_def)
    then show ?thesis using None v u(1) by (simp add: eq reset_permit_def)
  next
    case (Some p)
    then have p: "p = new_permit 0" "current_inflight (sv_limiter w) \<noteq> 0" "on_release (sv_limiter w) = Some ()"
      using assms(1) by (auto simp: sound_def)
    let ?l = "(sv_limiter w)\<lparr>current_inflight := current_inflight (sv_limiter w) - 1\<rparr>"
    have reset: "reset_permit i v = post Promote_Queued ((upd i (\<lambda>s. s\<lparr>s_permit := None\<rparr>) v)\<lparr>sv_limiter := ?l\<rparr>)"
      using Some p v u(1) by (simp add: reset_permit_def drop_permit_def limiter_heap_def release_permit_def
          new_permit_def release_slot_def run_callback_def put_limiter_def)
    have "sv_sessions (settle i f w) = (sv_sessions w)(i \<mapsto> ?t)" using v(1) u(2,3) by (simp add: eq reset)
    then show ?thesis using Some p v by (simp add: eq reset freed_def release_slot_def same_admission_def)
  qed
  then show "ends i w (settle i f w)" "sv_alive (settle i f w)" "live i (settle i f w)" using assms(2)
    unfolding ends_def by (auto simp: live_def intro!: exI [of _ ?t])
qed

lemma settles_id: "live i w \<Longrightarrow> sv_alive w \<Longrightarrow> settles i w w"
  by (auto simp: settles_def stays_def live_ses same_admission_def fun_upd_idem intro!: exI [of _ "ses w i"])

lemma settles_finish: "sound i w \<Longrightarrow> settles i w (finish_request i w)"
proof (cases "s_finished (ses w i)")
  case False
  assume a: "sound i w"
  have "stays i v (close_client i v)" for v by (simp add: close_client_def stays_upd admission_view_def)
  from ends_after [OF ends_settle(1) [OF a False] this] show ?thesis using False
    by (simp add: settle_folds settles_def)
qed (simp add: settle_folds settles_id sound_def)

lemma ends_fail:
  assumes a: "sound i w" and False: "\<not> s_finished (ses w i)"
  shows "ends i w (fail_with_status i c e w)"
proof -
  have "stays i v (close_client i v)" "stays i v (upd i (\<lambda>s. await Write_Error (send_client m s)) v)" for v m
    by (simp_all add: close_client_def stays_upd admission_view_def)
  note after = this [THEN ends_after [OF ends_settle(1) [OF a False]]]
  show ?thesis using False after by (simp add: settle_folds Let_def)
qed

lemma settles_fail: "sound i w \<Longrightarrow> settles i w (fail_with_status i c e w)"
  by (cases "s_finished (ses w i)") (simp add: settle_folds settles_id sound_def, simp add: settles_def ends_fail)

lemma stays_sound: "stays i w v \<Longrightarrow> sound i w \<Longrightarrow> sound i v"
  by (auto simp: stays_def sound_def live_def ses_def admission_view_def)

lemma stays_observe: "live i w \<Longrightarrow> stays i w (fst (observe_sse_chunk i d w))"
proof (rule observe_keeps [of "stays i w"])
  show "stays i w w" if "live i w"
    using that by (auto simp: stays_def live_ses same_admission_def fun_upd_idem intro!: exI [of _ "ses w i"])
  show "stays i w (v\<lparr>sv_metrics := m\<rparr>)" if "stays i w v" "same_counters (sv_metrics v) m" for v m
    using that(1) by (auto simp: stays_def same_admission_def)
qed (auto intro: stays_comp [OF _ stays_upd] simp: admission_view_def)

lemma settles_upd: "admission_view (f (ses w i)) = admission_view (ses w i) \<Longrightarrow> settles i w (upd i f w)"
  by (simp add: settles_def stays_upd)

lemma settles_upstream:
  assumes "sound i w" "completes c a" "upstream_op a"
  shows "settles i w (on_completion i c w)"
proof -
  note fail = settles_fail [OF assms(1)] and finish = settles_finish [OF assms(1)]
  have alive: "sv_alive w" using assms(1) by (simp add: sound_def)
  have view [simp]: "admission_view (await x s) = admission_view s" if "upstream_op x" for x s
    using that by (cases x) (simp_all add: admission_view_def)
  have send [simp]: "admission_view (send_client m s) = admission_view s"
    "admission_view (s\<lparr>s_response_started := b\<rparr>) = admission_view s" "admission_view (s\<lparr>s_upstream_open := b\<rparr>) = admission_view s"
    "admission_view (s\<lparr>s_upstream := u\<rparr>) = admission_view s" for m s b u
    by (simp_all add: admission_view_def)
  have read: "settles i w (read_upstream_body i w)"
    using alive by (simp add: read_upstream_body_def settles_upd)
  have body: "settles i v (write_downstream_body i d b v)" if "sound i v" for v d b
    using settles_finish [OF that] by (simp add: write_downstream_body_def settles_upd)
  show ?thesis
  proof (cases c)
    case (Body_Read ec is_done bytes)
    obtain v stop where v: "observe_sse_chunk i bytes w = (v, stop)" by fastforce
    have s: "stays i w v" using stays_observe [of i w bytes] assms(1) v by (simp add: sound_def)
    have "settles i w (write_downstream_body i bytes stop v)"
      using settles_before [OF s body [OF stays_sound [OF s assms(1)]]] .
    then show ?thesis using fail read body [OF assms(1)] Body_Read v by simp
  qed (use assms(2,3) alive fail finish read in \<open>auto simp: connect_upstream_def write_upstream_request_def
      read_upstream_header_def write_downstream_sse_header_def settles_upd split: option.splits\<close>)
qed

lemma sound_ok:
  assumes "permits_ok 0 w" "live i w"
  shows "sound i w"
proof -
  have "current_inflight (sv_limiter w) \<noteq> 0" if "has_permit (ses w i)"
    using tally_pos [of w i has_permit] that assms by (auto simp: permits_ok_def)
  then show ?thesis using assms by (auto simp: sound_def permits_ok_def live_ses)
qed

text \<open>
  Only the queue timer takes a waiting session out of the queue, only a new request is counted, and
  only the request's own operations and its timer give its permit back.
\<close>

lemma leaves_on_timeout:
  assumes "session_ok e s" "sv_sessions w i = Some s" "a \<in> set (s_pending s)" "completes c a" "s_queued s"
    and "\<not> s_queued (ses (on_completion i c (upd i (completed a) w)) i)"
  shows "c = Queue_Timer_Done True"
proof -
  have "\<not> main_op a" using session_okD(1) [OF assms(1)] assms(3,5) by (auto simp: busy_def filter_empty_conv)
  moreover have "a \<noteq> Request_Timer b" for b
    using session_okD(1,2,3,10) [OF assms(1)] assms(3,5) by auto
  ultimately have "a = Write_Error \<or> (\<exists>b. a = Queue_Timer b)" by (cases a) (auto simp: main_op_def)
  then show ?thesis using assms(2,4-6) by (cases c) (auto simp: close_client_def ses_def split: if_splits)
qed

lemma counted_on_request:
  assumes "permits_ok 0 w" "sv_sessions w i = Some s" "completes c a" "\<not> s_queued s"
    and "\<not> s_request_counted s" "s_request_counted (ses (on_completion i c (upd i (completed a) w)) i)"
  shows "\<exists>r. c = Request_Read r"
proof -
  let ?w = "upd i (completed a) w"
  have s: "ses w i = s" "live i w" using assms(2) by (simp_all add: ses_def live_def)
  have sound: "sound i ?w" using sound_ok [OF assms(1) s(2)] s by (simp add: sound_def completed_def)
  have none: "\<not> s_request_counted (ses ?w i)" using s(1) assms(5) by (simp add: completed_def)
  have same: "\<not> s_request_counted (ses v i)" if "settles i ?w v" for v
    using that none by (auto simp: settles_def stays_def ends_def ses_def admission_view_def)
  have "\<not> upstream_op a" using same [OF settles_upstream [OF sound assms(3)]] assms(6) by blast
  moreover have "\<not> s_request_counted (ses (fail_with_status i n m ?w) i)" for n m using same [OF settles_fail [OF sound]] .
  ultimately show ?thesis using assms(3,4,6) none s
    by (cases c) (auto simp: close_client_def completed_def ses_def split: if_splits)
qed

lemma permit_released:
  assumes "session_ok e s" "sv_sessions w i = Some s" "a \<in> set (s_pending s)" "completes c a" "has_permit s"
    and "\<not> has_permit (ses (on_completion i c (upd i (completed a) w)) i)"
  shows "upstream_op a \<or> (\<exists>b. a = Request_Timer b)"
proof (rule ccontr)
  assume other: "\<not> ?thesis"
  have "list_ex upstream_op (busy s)" using session_okD(3) [OF assms(1)] assms(5) by blast
  then obtain x where x: "x \<in> set (busy s)" "upstream_op x" by (auto simp: list_ex_iff)
  have one: "length (busy s) \<le> 1" "\<not> s_queued s"
    using session_okD(1) [OF assms(1)] x(1) by (auto split: if_splits)
  have "\<not> main_op a"
  proof
    assume "main_op a"
    then have "a \<in> set (busy s)" using assms(3) by (simp add: busy_def)
    then have "a = x" using one(1) x(1) by (cases "busy s") auto
    then show False using x(2) other by simp
  qed
  then have "a = Write_Error \<or> (\<exists>b. a = Queue_Timer b)" using other by (cases a) (auto simp: main_op_def)
  then show False using assms(2,4-6) one(2) by (cases c) (auto simp: close_client_def ses_def completed_def)
qed

end
