(* ===== verification/ProxyGate.thy ===== *)
theory ProxyGate
  imports ProxySettle "HOL-Library.Sublist"
begin

text \<open>
  An abstract specification of the proxy's admission, and the proof that the proxy refines it: a gate
  that lets a bounded number of sessions in, keeps a bounded queue of waiting ones, and lets them in
  in the order of their arrival. The sessions of the gate are the numbers of the proxy's sessions.
\<close>

subsection \<open>The gate\<close>

record gate =
  g_open :: bool
  g_active :: "nat set"
  g_waiting :: "nat list"

text \<open>
  A new session enters at once if there is room, even if others wait, and it waits only if there is
  none; the first of the waiting sessions starts when there is room; a waiting session may give up,
  an active one finishes; closing turns the waiting sessions away. A step shows its label.
\<close>

datatype gate_label = Enters nat | Waits nat | Starts nat | Gives_Up nat | Finishes nat | Closes

inductive gate_step :: "nat \<Rightarrow> nat \<Rightarrow> gate \<Rightarrow> gate_label \<Rightarrow> gate \<Rightarrow> bool" for m q where
  enter: "g_open g \<Longrightarrow> i \<notin> g_active g \<Longrightarrow> i \<notin> set (g_waiting g) \<Longrightarrow> card (g_active g) < m \<Longrightarrow>
    gate_step m q g (Enters i) (g\<lparr>g_active := insert i (g_active g)\<rparr>)"
| wait: "g_open g \<Longrightarrow> i \<notin> g_active g \<Longrightarrow> i \<notin> set (g_waiting g) \<Longrightarrow> card (g_active g) = m \<Longrightarrow>
    length (g_waiting g) < q \<Longrightarrow> gate_step m q g (Waits i) (g\<lparr>g_waiting := g_waiting g @ [i]\<rparr>)"
| start: "g_open g \<Longrightarrow> g_waiting g = i # is \<Longrightarrow> card (g_active g) < m \<Longrightarrow>
    gate_step m q g (Starts i) (g\<lparr>g_active := insert i (g_active g), g_waiting := is\<rparr>)"
| give_up: "i \<in> set (g_waiting g) \<Longrightarrow>
    gate_step m q g (Gives_Up i) (g\<lparr>g_waiting := remove1 i (g_waiting g)\<rparr>)"
| finish: "i \<in> g_active g \<Longrightarrow> gate_step m q g (Finishes i) (g\<lparr>g_active := g_active g - {i}\<rparr>)"
| close: "gate_step m q g Closes (g\<lparr>g_open := False, g_waiting := []\<rparr>)"

inductive_cases gate_stepE: "gate_step m q g l g'"

inductive gate_run :: "nat \<Rightarrow> nat \<Rightarrow> gate \<Rightarrow> gate_label list \<Rightarrow> gate \<Rightarrow> bool" for m q where
  stop: "gate_run m q g [] g"
| more: "gate_step m q g l h \<Longrightarrow> gate_run m q h ls g' \<Longrightarrow> gate_run m q g (l # ls) g'"

inductive_simps gate_run_simps [simp]: "gate_run m q g [] g'" "gate_run m q g (l # ls) g'"

lemma gate_run_append: "gate_run m q g ls h \<Longrightarrow> gate_run m q h ms g' \<Longrightarrow> gate_run m q g (ls @ ms) g'"
  by (induction rule: gate_run.induct) (auto intro: gate_run.more)

definition empty_gate :: gate where
  "empty_gate = \<lparr>g_open = True, g_active = {}, g_waiting = []\<rparr>"

text \<open>What the gate guarantees.\<close>

definition gate_ok :: "nat \<Rightarrow> nat \<Rightarrow> gate \<Rightarrow> bool" where
  "gate_ok m q g \<longleftrightarrow> finite (g_active g) \<and> card (g_active g) \<le> m \<and> length (g_waiting g) \<le> q \<and>
     distinct (g_waiting g) \<and> g_active g \<inter> set (g_waiting g) = {}"

lemma gate_step_ok:
  assumes "gate_step m q g l g'" "gate_ok m q g"
  shows "gate_ok m q g'"
  using assms
proof (cases rule: gate_step.cases)
  case (finish i)
  then have "card (g_active g - {i}) \<le> card (g_active g)" using assms(2) by (intro card_mono) (auto simp: gate_ok_def)
  then show ?thesis using finish assms(2) by (auto simp: gate_ok_def)
next
  case (give_up i)
  then show ?thesis using assms(2) length_remove1 [of i "g_waiting g"] by (auto simp: gate_ok_def)
qed (auto simp: gate_ok_def)

lemma gate_run_ok: "gate_run m q g ls g' \<Longrightarrow> gate_ok m q g \<Longrightarrow> gate_ok m q g'"
  by (induction rule: gate_run.induct) (auto intro: gate_step_ok)

lemma empty_gate_ok: "gate_ok m q empty_gate"
  by (simp add: gate_ok_def empty_gate_def)

lemma closed_gate_run:
  "gate_run m q g ls g' \<Longrightarrow> \<not> g_open g \<Longrightarrow> \<not> g_open g' \<and> g_active g' \<subseteq> g_active g"
  by (induction rule: gate_run.induct) (auto elim!: gate_stepE)

text \<open>First in, first out: the sessions that start do so in the order in which they began to wait.\<close>

fun waited_ids :: "gate_label list \<Rightarrow> nat list" where
  "waited_ids [] = []"
| "waited_ids (Waits i # ls) = i # waited_ids ls"
| "waited_ids (_ # ls) = waited_ids ls"

fun started_ids :: "gate_label list \<Rightarrow> nat list" where
  "started_ids [] = []"
| "started_ids (Starts i # ls) = i # started_ids ls"
| "started_ids (_ # ls) = started_ids ls"

lemma subseq_remove1: "subseq (remove1 i xs) xs"
  by (induction xs) auto

lemma gate_run_fifo:
  assumes "gate_run m q g ls g'" "subseq (xs @ g_waiting g) ys"
  shows "subseq (xs @ started_ids ls @ g_waiting g') (ys @ waited_ids ls)"
  using assms
proof (induction arbitrary: xs ys rule: gate_run.induct)
  case (more g l h ls g')
  have step: "subseq ((xs @ started_ids [l]) @ g_waiting h) (ys @ waited_ids [l])"
    using more.hyps(1) more.prems
  proof (cases rule: gate_step.cases)
    case (give_up i)
    have "subseq (xs @ remove1 i (g_waiting g)) (xs @ g_waiting g)"
      by (intro list_emb_append_mono subseq_remove1 subseq_order.refl)
    then show ?thesis using give_up more.prems subseq_order.trans by fastforce
  next
    case close
    have "subseq xs (xs @ g_waiting g)" by (rule prefix_imp_subseq) simp
    then show ?thesis using close more.prems subseq_order.trans by fastforce
  next
    case (wait i)
    have "subseq ((xs @ g_waiting g) @ [i]) (ys @ [i])" using more.prems by (rule list_emb_append_mono) simp
    then show ?thesis using wait by simp
  qed auto
  have "started_ids (l # ls) = started_ids [l] @ started_ids ls" "waited_ids (l # ls) = waited_ids [l] @ waited_ids ls" by (cases l; simp)+
  then show ?case using more.IH [OF step] by simp
qed simp

lemma starts_in_order:
  assumes "g_open g" "finite (g_active g)" "distinct xs" "set xs \<inter> g_active g = {}"
    and "card (g_active g) + length xs \<le> m" "g_waiting g = xs @ ys"
  shows "gate_run m q g (map Starts xs) (g\<lparr>g_active := g_active g \<union> set xs, g_waiting := ys\<rparr>)"
  using assms
proof (induction xs arbitrary: g)
  case (Cons i xs)
  let ?g = "g\<lparr>g_active := insert i (g_active g), g_waiting := xs @ ys\<rparr>"
  have "gate_step m q g (Starts i) ?g" using Cons.prems by (intro gate_step.start) auto
  moreover have "gate_run m q ?g (map Starts xs) (?g\<lparr>g_active := g_active ?g \<union> set xs, g_waiting := ys\<rparr>)"
    using Cons.prems by (intro Cons.IH) auto
  ultimately show ?case by auto
next
  case Nil
  then have "g\<lparr>g_waiting := ys\<rparr> = g" by simp
  then show ?case by simp
qed

subsection \<open>The gate of the proxy\<close>

definition active_of :: "server \<Rightarrow> nat set" where
  "active_of w = {i. live i w \<and> has_permit (ses w i)}"

definition waiting_of :: "server \<Rightarrow> nat list" where
  "waiting_of w = (if sv_stopping w then []
     else waiting_in w (sv_queued_sessions w) @ posted_ids (sv_tasks w))"

definition gate_of :: "server \<Rightarrow> gate" where
  "gate_of w = \<lparr>g_open = \<not> sv_stopping w, g_active = active_of w, g_waiting = waiting_of w\<rparr>"

lemma gate_of_sel [simp]:
  "g_open (gate_of w) = (\<not> sv_stopping w)" "g_active (gate_of w) = active_of w" "g_waiting (gate_of w) = waiting_of w"
  by (simp_all add: gate_of_def)

text \<open>No session is listed or posted twice, and every one that is has been counted.\<close>

definition listed_ids :: "server \<Rightarrow> nat list" where
  "listed_ids w = sv_queued_sessions w @ posted_ids (sv_tasks w)"

definition fifo_ok :: "server \<Rightarrow> bool" where
  "fifo_ok w \<longleftrightarrow> sv_stopping w \<or> distinct (listed_ids w) \<and>
     (\<forall>i\<in>set (listed_ids w). i < sv_next w \<and> (live i w \<longrightarrow> s_request_counted (ses w i)))"

definition proxy_ok :: "server \<Rightarrow> bool" where
  "proxy_ok w \<longleftrightarrow> permits_ok 0 w \<and> protocol_ok w \<and> queue_ok w \<and> all_replies w \<and> fifo_ok w"

abbreviation inflight_limit :: "server \<Rightarrow> nat" where
  "inflight_limit w \<equiv> unat (max_inflight (sv_limiter w))"

abbreviation queue_limit :: "server \<Rightarrow> nat" where
  "queue_limit w \<equiv> unat (max_queue_size (sv_limiter w))"

abbreviation gates :: "server \<Rightarrow> gate \<Rightarrow> gate_label list \<Rightarrow> gate \<Rightarrow> bool" where
  "gates w \<equiv> gate_run (inflight_limit w) (queue_limit w)"

lemma one_step: "gate_step m q g l g' \<Longrightarrow> gate_run m q g [l] g'"
  by auto

text \<open>Counting.\<close>

lemma tally_card: "tally P w = card {i. i < sv_next w \<and> sat P (sv_sessions w) i}"
  by (simp add: tally_def distinct_length_filter) (intro arg_cong [of _ _ card], auto)

lemma tally_live: "numbered w \<Longrightarrow> tally P w = card {i. live i w \<and> P (ses w i)} \<and> finite {i. live i w \<and> P (ses w i)}"
proof -
  assume n: "numbered w"
  then have "{i. i < sv_next w \<and> sat P (sv_sessions w) i} = {i. live i w \<and> P (ses w i)}"
    by (auto simp: sat_def numbered_def live_def ses_def split: option.splits)
  moreover have "finite {i. i < sv_next w \<and> sat P (sv_sessions w) i}" by simp
  ultimately show ?thesis using tally_card [of P w] by simp
qed

lemma active_count:
  assumes "permits_ok 0 w"
  shows "card (active_of w) = unat (current_inflight (sv_limiter w))" "finite (active_of w)"
    "card (active_of w) \<le> inflight_limit w"
proof -
  have n: "numbered w" "unat (current_inflight (sv_limiter w)) = tally has_permit w"
    "current_inflight (sv_limiter w) \<le> max_inflight (sv_limiter w)"
    using assms by (auto simp: permits_ok_def limiter_ok_def)
  then show "card (active_of w) = unat (current_inflight (sv_limiter w))" "finite (active_of w)"
    using tally_live [OF n(1), of has_permit] by (simp_all add: active_of_def)
  then show "card (active_of w) \<le> inflight_limit w" using n(3) by (simp add: word_le_nat_alt)
qed

lemma waiting_count:
  assumes "proxy_ok w" "\<not> sv_stopping w"
  shows "length (waiting_of w) = unat (queued_requests (sv_limiter w))" "length (waiting_of w) \<le> queue_limit w"
proof -
  have n: "numbered w" "listed w" "distinct (sv_queued_sessions w)" "queued_of (sv_limiter w) = tally s_queued w + enqueues w"
    "queued_requests (sv_limiter w) \<le> max_queue_size (sv_limiter w)"
    using assms by (auto simp: proxy_ok_def permits_ok_def queue_ok_def fifo_ok_def listed_ids_def
        protocol_except_def limiter_ok_def)
  have "set (waiting_in w (sv_queued_sessions w)) = {i. live i w \<and> s_queued (ses w i)}"
    using n(2) by (auto simp: waiting_in_def listed_def live_ses)
  moreover have "distinct (waiting_in w (sv_queued_sessions w))" using n(3) by (simp add: waiting_in_def)
  ultimately have "length (waiting_in w (sv_queued_sessions w)) = tally s_queued w"
    using tally_live [OF n(1), of s_queued] by (metis distinct_card)
  moreover have "length (posted_ids ts) = length (filter is_enqueue ts)" for ts
    by (induction ts rule: posted_ids.induct) (auto simp: is_enqueue_def)
  ultimately show "length (waiting_of w) = unat (queued_requests (sv_limiter w))"
    using n(4) assms(2) by (simp add: waiting_of_def enqueues_def)
  then show "length (waiting_of w) \<le> queue_limit w" using n(5) by (simp add: word_le_nat_alt)
qed

subsection \<open>One handler\<close>

text \<open>A session that dies leaves no trace.\<close>

definition dies :: "nat \<Rightarrow> server \<Rightarrow> server \<Rightarrow> bool" where
  "dies i w w' \<longleftrightarrow> (sv_sessions w' = sv_sessions w \<or> sv_sessions w' = (sv_sessions w)(i := None) \<and>
     \<not> has_permit (ses w i) \<and> \<not> s_queued (ses w i)) \<and> same_queue w w'"

lemma dies_keeps:
  assumes "dies i w w'"
  shows "gate_of w' = gate_of w" "fifo_ok w \<Longrightarrow> fifo_ok w'"
    "(\<And>j s. sv_sessions w j = Some s \<Longrightarrow> j \<noteq> i \<or> sv_sessions w' i \<noteq> None \<Longrightarrow> reply_ok s) \<Longrightarrow> all_replies w'"
proof -
  have same: "live j w' \<and> ses w' j = ses w j \<or> \<not> live j w' \<and> (\<not> live j w \<or> \<not> has_permit (ses w j) \<and> \<not> s_queued (ses w j))"
    "live j w' \<Longrightarrow> live j w" for j
    using assms by (auto simp: dies_def live_def ses_def split: if_splits)
  have q: "sv_stopping w' = sv_stopping w" "sv_queued_sessions w' = sv_queued_sessions w" "sv_next w' = sv_next w"
    "posted_ids (sv_tasks w') = posted_ids (sv_tasks w)"
    using assms by (simp_all add: dies_def same_queue_def)
  have iff: "live j w' \<and> has_permit (ses w' j) \<longleftrightarrow> live j w \<and> has_permit (ses w j)"
    "live j w' \<and> s_queued (ses w' j) \<longleftrightarrow> live j w \<and> s_queued (ses w j)" for j
    using same(1) [of j] same(2) [of j] by auto
  then have "active_of w' = active_of w" by (simp add: active_of_def)
  moreover have "waiting_in w' ns = waiting_in w ns" for ns using iff(2) by (simp add: waiting_in_def)
  then have "waiting_of w' = waiting_of w" using q by (simp add: waiting_of_def)
  ultimately show "gate_of w' = gate_of w" using q by (simp add: gate_of_def)
  show "fifo_ok w'" if "fifo_ok w" using that same q unfolding fifo_ok_def listed_ids_def by metis
  show "all_replies w'" if "\<And>j s. sv_sessions w j = Some s \<Longrightarrow> j \<noteq> i \<or> sv_sessions w' i \<noteq> None \<Longrightarrow> reply_ok s"
  proof -
    have "sv_sessions w j = Some s \<and> (j \<noteq> i \<or> sv_sessions w' i \<noteq> None)" if "sv_sessions w' j = Some s" for j s
      using that assms by (cases "j = i") (auto simp: dies_def)
    then show ?thesis using that unfolding all_replies_def by blast
  qed
qed

lemma reap_idle:
  "sv_sessions w i = Some s \<Longrightarrow> s_pending s = [] \<Longrightarrow> Enqueue i \<notin> set (sv_tasks w) \<Longrightarrow> \<not> s_queued s \<Longrightarrow>
    \<not> has_permit s \<Longrightarrow> reap i w = w\<lparr>sv_sessions := (sv_sessions w)(i := None)\<rparr>"
  by (simp add: reap_def destroy_session_def reset_permit_def ses_def)

lemma reap_dies:
  assumes "protocol_ok w"
  shows "dies i w (reap i w)"
proof (cases "\<exists>s. sv_sessions w i = Some s \<and> s_pending s = [] \<and> Enqueue i \<notin> set (sv_tasks w)")
  case True
  then obtain s where s: "sv_sessions w i = Some s" "s_pending s = []" "Enqueue i \<notin> set (sv_tasks w)" by blast
  then have live: "ses w i = s" "posted i w = 0" by (simp_all add: ses_def posted_def)
  have "session_ok 0 s" using assms s(1) live(2) by (fastforce simp: protocol_except_def)
  note d = session_okD [OF this]
  have dead: "\<not> s_queued s" "\<not> has_permit s" using d(3,6) s(2) by (auto simp: busy_def)
  have "reap i w = w\<lparr>sv_sessions := (sv_sessions w)(i := None)\<rparr>" using s dead by (rule reap_idle)
  then show ?thesis using dead live(1) by (simp add: dies_def same_queue_def)
next
  case False
  then have "reap i w = w" by (auto simp: reap_def split: option.splits)
  then show ?thesis by (simp add: dies_def same_queue_def)
qed

text \<open>What changes at the gate when one session changes.\<close>

lemma one_session:
  assumes "sv_sessions w' = (sv_sessions w)(i \<mapsto> t)" "live i w"
  shows "active_of w' = (if has_permit t then insert i (active_of w) else active_of w - {i})"
    "waiting_in w' ns = filter (\<lambda>j. if j = i then s_queued t else live j w \<and> s_queued (ses w j)) ns"
  using assms by (auto simp: active_of_def waiting_in_def live_def ses_def intro!: filter_cong)

lemma session_counted:
  assumes "proxy_ok w" "sv_sessions w i = Some s" "\<not> sv_stopping w" "i \<in> set (waiting_of w) \<or> s_queued s"
  shows "s_request_counted s" "\<not> has_permit s"
proof -
  have ok: "session_ok (posted i w) s" using assms(1,2) by (simp add: proxy_ok_def protocol_except_def)
  have "posted i w \<noteq> 0 \<or> s_queued s"
    using assms(2-4) by (auto simp: waiting_of_def waiting_in_def set_posted_ids ses_def posted_def count_list_0_iff)
  then have "posted i w = 1 \<or> s_queued s" using session_okD(1) [OF ok] by (auto split: if_splits)
  then show "s_request_counted s" "\<not> has_permit s"
    using session_okD(1,3,5) [OF ok] by (auto split: if_splits)
qed

lemma leaves_queue:
  assumes "proxy_ok w" "\<not> sv_stopping w" "same_queue w w'" "sv_sessions w' = (sv_sessions w)(i \<mapsto> t)" "live i w"
    and "s_queued (ses w i)" "\<not> s_queued t"
  shows "waiting_of w' = remove1 i (waiting_of w)" "i \<in> set (waiting_of w)"
proof -
  have q: "sv_stopping w' = sv_stopping w" "sv_queued_sessions w' = sv_queued_sessions w"
    "posted_ids (sv_tasks w') = posted_ids (sv_tasks w)" using assms(3) by (simp_all add: same_queue_def)
  have d: "distinct (sv_queued_sessions w)" and l: "i \<in> set (sv_queued_sessions w)"
    using assms(1,2,5,6) by (auto simp: proxy_ok_def fifo_ok_def listed_ids_def queue_ok_def listed_def live_ses)
  have "waiting_in w' (sv_queued_sessions w) = filter (\<lambda>j. j \<noteq> i) (waiting_in w (sv_queued_sessions w))"
    unfolding one_session(2) [OF assms(4,5)] unfolding waiting_in_def filter_filter
    using assms(7) by (intro filter_cong) auto
  also have "\<dots> = remove1 i (waiting_in w (sv_queued_sessions w))"
    using d by (simp add: waiting_in_def distinct_remove1_removeAll removeAll_filter_not_eq eq_commute)
  finally show "waiting_of w' = remove1 i (waiting_of w)" "i \<in> set (waiting_of w)"
    using q assms(2,5,6) l by (simp_all add: waiting_of_def remove1_append waiting_in_def)
qed

lemma waiting_listed:
  "proxy_ok w \<Longrightarrow> sv_sessions w i = Some s \<Longrightarrow> s_queued s \<Longrightarrow> \<not> sv_stopping w \<Longrightarrow> i \<in> set (waiting_of w)"
  by (auto simp: proxy_ok_def queue_ok_def listed_def waiting_of_def waiting_in_def live_def ses_def)

lemma replies_gate:
  assumes "proxy_ok w" "live i w" "replies i w w'" "card (active_of w') \<le> inflight_limit w"
  shows "\<exists>ls. gates w (gate_of w) ls (gate_of w') \<and> (ls = [] \<or>
    ls = [Finishes i] \<and> has_permit (ses w i) \<and> \<not> has_permit (ses w' i) \<or>
    ls = [Gives_Up i] \<and> s_queued (ses w i) \<and> \<not> s_queued (ses w' i) \<or>
    ls = [Enters i] \<and> \<not> has_permit (ses w i) \<and> \<not> s_request_counted (ses w i) \<and> has_permit (ses w' i))"
proof -
  let ?s = "ses w i"
  have s: "sv_sessions w i = Some ?s" using assms(2) by (simp add: live_ses)
  obtain t where t: "sv_sessions w' = (sv_sessions w)(i \<mapsto> t)" "advances (closed (sv_limiter w)) ?s t" "same_queue w w'"
    using assms(3) by (auto simp: replies_def)
  note act = one_session(1) [OF t(1) assms(2)] and wait = one_session(2) [OF t(1) assms(2)]
  have t': "ses w' i = t" using t(1) by (simp add: ses_def)
  have q: "sv_stopping w' = sv_stopping w" "sv_queued_sessions w' = sv_queued_sessions w"
    "posted_ids (sv_tasks w') = posted_ids (sv_tasks w)" using t(3) by (simp_all add: same_queue_def)
  have fin: "finite (active_of w)" using active_count(2) assms(1) by (simp add: proxy_ok_def)
  have closed: "closed (sv_limiter w) = sv_stopping w" using assms(1) by (simp add: proxy_ok_def protocol_except_def)
  have i: "i \<in> active_of w \<longleftrightarrow> has_permit ?s" using assms(2) by (simp add: active_of_def)
  consider (leaves) "\<not> sv_stopping w" "s_queued ?s" "\<not> s_queued t"
    | (stays) "sv_stopping w \<or> s_queued ?s = s_queued t" using t(2) by (auto simp: advances_def)
  then show ?thesis
  proof cases
    case leaves
    note l = leaves_queue [OF assms(1) leaves(1) t(3,1) assms(2) leaves(2,3)]
    have "active_of w' = active_of w" using t(2) session_counted [OF assms(1) s leaves(1)] leaves(2) act i
      by (auto simp: advances_def)
    then have "gate_step (inflight_limit w) (queue_limit w) (gate_of w) (Gives_Up i) (gate_of w')"
      using gate_step.give_up [of i "gate_of w"] q(1) l by (simp add: gate_of_def)
    then show ?thesis using one_step leaves(2,3) t' by blast
  next
    case stays
    have "waiting_in w' (sv_queued_sessions w) = waiting_in w (sv_queued_sessions w)" if "\<not> sv_stopping w"
      unfolding wait unfolding waiting_in_def using stays that assms(2) by (intro filter_cong) auto
    then have same: "waiting_of w' = waiting_of w" using q by (simp add: waiting_of_def)
    consider (finishes) "has_permit ?s" "\<not> has_permit t" | (same) "has_permit ?s = has_permit t"
      | (enters) "\<not> has_permit ?s" "has_permit t" by blast
    then show ?thesis
    proof cases
      case finishes
      then have "gate_step (inflight_limit w) (queue_limit w) (gate_of w) (Finishes i) (gate_of w')"
        using gate_step.finish [of i "gate_of w"] q(1) i act same by (simp add: gate_of_def)
      then show ?thesis using one_step finishes t' by blast
    next
      case same
      then have "gate_of w' = gate_of w" using q(1) i act \<open>waiting_of w' = waiting_of w\<close>
        by (auto simp: gate_of_def insert_absorb)
      then show ?thesis by (intro exI [of _ "[]"]) simp
    next
      case enters
      then have open': "\<not> sv_stopping w" "\<not> s_request_counted ?s" using t(2) closed by (auto simp: advances_def)
      have "i \<notin> set (waiting_of w)" using session_counted(1) [OF assms(1) s open'(1)] open'(2) by blast
      moreover have "card (active_of w) < inflight_limit w" using assms(4) act enters i fin by simp
      ultimately have "gate_step (inflight_limit w) (queue_limit w) (gate_of w) (Enters i) (gate_of w')"
        using gate_step.enter [of "gate_of w" i] q(1) i act enters same open'(1) by (simp add: gate_of_def)
      then show ?thesis using one_step enters open'(2) t' by blast
    qed
  qed
qed

lemma enters_gate:
  assumes "proxy_ok w" "live i w" "enters i w w'" "length (waiting_of w') \<le> queue_limit w"
  shows "gates w (gate_of w) [Waits i] (gate_of w')"
proof -
  have s: "sv_sessions w i = Some (ses w i)" using assms(2) by (simp add: live_ses)
  obtain t where t: "sv_sessions w' = (sv_sessions w)(i \<mapsto> t)" "\<not> has_permit t" "\<not> s_queued t"
    and new: "\<not> s_request_counted (ses w i)" "\<not> closed (sv_limiter w)"
      "max_inflight (sv_limiter w) \<le> current_inflight (sv_limiter w)"
    and q: "sv_stopping w' = sv_stopping w" "sv_queued_sessions w' = sv_queued_sessions w"
      "posted_ids (sv_tasks w') = posted_ids (sv_tasks w) @ [i]"
    using assms(3) by (auto simp: enters_def)
  note act = one_session(1) [OF t(1) assms(2)] and wait = one_session(2) [OF t(1) assms(2)]
  have "closed (sv_limiter w) = sv_stopping w" using assms(1) by (simp add: proxy_ok_def protocol_except_def)
  then have running: "\<not> sv_stopping w" using new(2) by simp
  have ok: "session_ok (posted i w) (ses w i)" using assms(1) s by (simp add: proxy_ok_def protocol_except_def)
  have i: "i \<notin> set (waiting_of w)" "\<not> s_queued (ses w i)" "\<not> has_permit (ses w i)"
    using session_counted(1) [OF assms(1) s running] session_okD(5) [OF ok] new(1) by blast+
  have "waiting_in w' (sv_queued_sessions w) = waiting_in w (sv_queued_sessions w)"
    unfolding wait unfolding waiting_in_def using i(2) t(3) by (intro filter_cong) auto
  then have w: "waiting_of w' = waiting_of w @ [i]" using q running by (simp add: waiting_of_def)
  moreover have "active_of w' = active_of w" "i \<notin> active_of w" using act t(2) i(3) by (auto simp: active_of_def)
  moreover have "card (active_of w) = inflight_limit w"
    using active_count(1,3) [of w] assms(1) new(3) by (simp add: proxy_ok_def word_le_nat_alt)
  moreover have "length (waiting_of w) < queue_limit w" using assms(4) w by simp
  ultimately have "gate_step (inflight_limit w) (queue_limit w) (gate_of w) (Waits i) (gate_of w')"
    using gate_step.wait [of "gate_of w" i] running i(1) q(1) by (simp add: gate_of_def)
  then show ?thesis by (rule one_step)
qed

lemma handler_fifo:
  assumes "proxy_ok w" "live i w" "replies i w w' \<or> enters i w w'"
  shows "fifo_ok w'"
proof (cases "sv_stopping w")
  case True
  then show ?thesis using assms(3) by (auto simp: fifo_ok_def replies_def enters_def same_queue_def)
next
  case False
  have fifo: "distinct (listed_ids w)" "\<And>j. j \<in> set (listed_ids w) \<Longrightarrow> j < sv_next w \<and> (live j w \<longrightarrow> s_request_counted (ses w j))"
    using assms(1) False by (auto simp: proxy_ok_def fifo_ok_def)
  obtain t where t: "sv_sessions w' = (sv_sessions w)(i \<mapsto> t)" "s_request_counted (ses w i) \<Longrightarrow> s_request_counted t"
    using assms(3) unfolding replies_def enters_def advances_def by blast
  have counted: "live j w' \<Longrightarrow> s_request_counted (ses w' j)" if "j \<in> set (listed_ids w)" for j
    using fifo(2) [OF that] t assms(2) by (auto simp: live_def ses_def split: if_splits)
  have next': "sv_next w' = sv_next w" using assms(3) by (auto simp: replies_def enters_def same_queue_def)
  show ?thesis
  proof (cases "replies i w w'")
    case True
    then have "listed_ids w' = listed_ids w" by (auto simp: replies_def same_queue_def listed_ids_def)
    then show ?thesis using fifo counted next' by (simp add: fifo_ok_def)
  next
    case False
    then have e: "enters i w w'" using assms(3) by blast
    then have ids: "listed_ids w' = listed_ids w @ [i]" by (auto simp: enters_def listed_ids_def)
    have "i < sv_next w" using assms(1,2) by (simp add: proxy_ok_def permits_ok_def numbered_def)
    moreover have "i \<notin> set (listed_ids w)" using fifo(2) e assms(2) by (auto simp: enters_def)
    moreover have "s_request_counted (ses w' i)" using e by (auto simp: enters_def ses_def)
    ultimately show ?thesis using fifo counted next' by (auto simp: fifo_ok_def ids)
  qed
qed

subsection \<open>The other closures\<close>

text \<open>Only the parts of the state that the gate shows.\<close>

lemma same_gate:
  assumes "sv_sessions w' = sv_sessions w" "same_queue w w'"
  shows "gate_of w' = gate_of w" "fifo_ok w' = fifo_ok w" "all_replies w' = all_replies w"
proof -
  have "active_of w' = active_of w" "waiting_in w' ns = waiting_in w ns" for ns
    using sessions_cong [OF assms(1)] by (simp_all add: active_of_def waiting_in_def)
  then show "gate_of w' = gate_of w" using assms(2) by (simp add: gate_of_def waiting_of_def same_queue_def)
  show "fifo_ok w' = fifo_ok w" using assms(2) sessions_cong [OF assms(1)]
    by (simp add: fifo_ok_def listed_ids_def same_queue_def)
  show "all_replies w' = all_replies w" using assms(1) by (simp add: all_replies_def)
qed

lemma close_client_view:
  "live j (close_client i w) \<longleftrightarrow> j = i \<or> live j w" "s_queued (ses (close_client i w) j) = s_queued (ses w j)"
  "s_permit (ses (close_client i w) j) = s_permit (ses w j)"
  "s_request_counted (ses (close_client i w) j) = s_request_counted (ses w j)"
  by (auto simp: close_client_def live_def ses_def)

lemma close_client_replies: "all_replies w \<Longrightarrow> live i w \<Longrightarrow> all_replies (close_client i w)"
  using reply_ok_closed by (auto simp: all_replies_def close_client_def live_ses split: if_splits)

lemma close_clients_keeps:
  "all_replies w \<Longrightarrow> all_replies (close_clients q w) \<and> active_of (close_clients q w) = active_of w \<and>
    sv_stopping (close_clients q w) = sv_stopping w"
proof (induction q arbitrary: w)
  case (Cons i q)
  let ?v = "if sv_sessions w i = None then w else close_client i w"
  have "all_replies ?v" "active_of ?v = active_of w" "sv_stopping ?v = sv_stopping w"
    using Cons.prems close_client_replies [of w i]
    by (auto simp: active_of_def close_client_view live_def [of i]) (simp_all add: close_client_def)
  then show ?case using Cons.IH [of ?v] by simp
qed simp

lemma stop_keeps:
  assumes "all_replies w"
  shows "all_replies (stop_server w)" "fifo_ok (stop_server w)" "gate_of (stop_server w) = (gate_of w)\<lparr>g_open := False, g_waiting := []\<rparr>"
proof -
  define v where "v = w\<lparr>sv_stopping := True, sv_limiter := close_limiter (sv_limiter w)\<rparr>"
  have v: "all_replies v" "active_of v = active_of w" "sv_stopping v"
    using assms by (simp_all add: v_def all_replies_def active_of_def live_def ses_def)
  note c = close_clients_keeps [OF v(1), of "sv_queued_sessions v"]
  have eq: "stop_server w = (close_clients (sv_queued_sessions v) v)\<lparr>sv_queued_sessions := []\<rparr>"
    by (simp add: stop_server_def Let_def v_def)
  have "active_of (stop_server w) = active_of (close_clients (sv_queued_sessions v) v)"
    by (simp add: eq active_of_def live_def ses_def)
  then show "all_replies (stop_server w)" "fifo_ok (stop_server w)"
    "gate_of (stop_server w) = (gate_of w)\<lparr>g_open := False, g_waiting := []\<rparr>"
    using c v by (simp_all add: eq all_replies_def fifo_ok_def gate_of_def waiting_of_def)
qed

lemma accept_keeps:
  assumes "numbered w" "all_replies w" "fifo_ok w"
  shows "all_replies (on_accept ok w) \<and> fifo_ok (on_accept ok w) \<and> gate_of (on_accept ok w) = gate_of w"
proof -
  have "all_replies (start_session w) \<and> fifo_ok (start_session w) \<and> gate_of (start_session w) = gate_of w"
  proof (cases "new_parser (if sv_alive w then pc_max_sse_buffer_bytes (sv_config w) else 1024 * 1024)")
    case (Inl e)
    then have "sv_sessions (start_session w) = sv_sessions w \<and> same_queue w (start_session w)"
      by (simp add: start_session_def same_queue_def)
    then show ?thesis using same_gate [of "start_session w" w] assms by simp
  next
    case (Inr p)
    let ?s = "await Read_Request (new_session p)"
    have s: "reply_ok ?s" "\<not> has_permit ?s" "\<not> s_queued ?s"
      by (simp_all add: reply_ok_def new_session_def busy_def await_def main_op_def)
    have eq: "start_session w = w\<lparr>sv_sessions := (sv_sessions w)(sv_next w \<mapsto> ?s), sv_next := sv_next w + 1\<rparr>"
      using Inr by (simp add: start_session_def)
    have new: "\<not> live (sv_next w) w" using assms(1) by (auto simp: numbered_def)
    then have view: "live j (start_session w) \<and> P (ses (start_session w) j) \<longleftrightarrow>
        (if j = sv_next w then P ?s else live j w \<and> P (ses w j))" for j P
      by (auto simp: eq live_def ses_def)
    have "active_of (start_session w) = active_of w"
      using view [of _ has_permit] s(2) new by (auto simp: active_of_def)
    moreover have "waiting_in (start_session w) ns = waiting_in w ns" for ns
      using view [of _ s_queued] s(3) new unfolding waiting_in_def by (intro filter_cong) auto
    ultimately have "gate_of (start_session w) = gate_of w" by (simp add: gate_of_def waiting_of_def eq)
    moreover have "fifo_ok (start_session w)"
    proof (cases "sv_stopping w")
      case False
      then have "distinct (listed_ids w)"
        "\<forall>j\<in>set (listed_ids w). j < sv_next w \<and> (live j w \<longrightarrow> s_request_counted (ses w j))"
        using assms(3) by (auto simp: fifo_ok_def)
      moreover have "listed_ids (start_session w) = listed_ids w" "sv_next (start_session w) = sv_next w + 1"
        by (simp_all add: eq listed_ids_def)
      moreover have "live j (start_session w) = live j w \<and> ses (start_session w) j = ses w j" if "j < sv_next w" for j
        using that by (simp add: eq live_def ses_def)
      ultimately show ?thesis by (auto simp: fifo_ok_def)
    qed (simp add: fifo_ok_def eq)
    moreover have "all_replies (start_session w)" using assms(2) s(1) by (simp add: eq all_replies_def)
    ultimately show ?thesis by simp
  qed
  moreover have "gate_of (do_accept v) = gate_of v" "fifo_ok (do_accept v) = fifo_ok v"
    "all_replies (do_accept v) = all_replies v" for v
    using same_gate [of "do_accept v" v] by (simp_all add: do_accept_def same_queue_def)
  ultimately show ?thesis using assms by (simp add: on_accept_def Let_def)
qed

lemma enqueue_keeps:
  assumes "proxy_ok w" "sv_tasks w = Enqueue i # ts"
    and w': "w' = reap i (enqueue_session i (w\<lparr>sv_tasks := ts\<rparr>))"
  shows "all_replies w' \<and> fifo_ok w' \<and> gate_of w' = gate_of w"
proof -
  define w0 where "w0 = w\<lparr>sv_tasks := ts\<rparr>"
  have live: "live i w" and alive: "sv_alive w" using assms(1,2) by (auto simp: proxy_ok_def permits_ok_def)
  define s where "s = ses w i"
  have s: "sv_sessions w i = Some s" using live by (simp add: live_ses s_def)
  have ok: "session_ok (posted i w) s" using assms(1) s by (simp add: proxy_ok_def protocol_except_def)
  have "1 \<le> posted i w" using assms(2) by (simp add: posted_def)
  then have p: "posted i w = 1" using session_okD(1) [OF ok] by (simp split: if_splits)
  have idle: "\<not> s_queued s" "\<not> has_permit s" "s_pending s = []" "busy s = []" "s_request_counted s"
    using session_okD(1,3,5,9) [OF ok] p by (auto split: if_splits)
  have r: "all_replies w" "reply_ok s" using assms(1) s by (auto simp: proxy_ok_def all_replies_def)
  have ts: "Enqueue i \<notin> set ts" using p assms(2) by (simp add: posted_def count_list_0_iff)
  have view: "active_of w0 = active_of w" "all_replies w0" "ses w0 i = s"
    using r(1) by (simp_all add: w0_def active_of_def live_def ses_def all_replies_def s_def)
  show ?thesis
  proof (cases "sv_stopping w")
    case True
    have eq: "w' = w0\<lparr>sv_sessions := (sv_sessions w)(i := None)\<rparr>" using True ts idle alive s
      by (simp add: w' w0_def enqueue_session_def close_client_def reap_def destroy_session_def reset_permit_def
          upd_def ses_def)
    have "dies i w0 w'" using idle view(3) by (simp add: dies_def eq same_queue_def w0_def)
    note d = dies_keeps [OF this]
    have "gate_of w0 = gate_of w" using True view(1) by (simp add: gate_of_def waiting_of_def w0_def)
    moreover have "fifo_ok w0" using True by (simp add: fifo_ok_def w0_def)
    ultimately show ?thesis using d view(2) by (simp add: all_replies_def)
  next
    case False
    let ?g = "\<lambda>s. await (Queue_Timer False) (s\<lparr>s_queued := True\<rparr>)"
    have eq: "w' = upd i ?g (w0\<lparr>sv_queued_sessions := sv_queued_sessions w @ [i]\<rparr>)" using False alive
      by (simp add: w' w0_def enqueue_session_def start_queue_timer_def reap_def Let_def upd_def ses_def)
    have ss: "sv_sessions w' = (sv_sessions w)(i \<mapsto> ?g s)" by (simp add: eq w0_def ses_def s_def)
    have fifo: "distinct (listed_ids w)" "\<And>j. j \<in> set (listed_ids w) \<Longrightarrow> j < sv_next w \<and> (live j w \<longrightarrow> s_request_counted (ses w j))"
      using assms(1) False by (auto simp: proxy_ok_def fifo_ok_def)
    have ids: "listed_ids w' = listed_ids w" "sv_next w' = sv_next w" using assms(2)
      by (simp_all add: listed_ids_def eq w0_def)
    have i: "i \<notin> set (sv_queued_sessions w)" using fifo(1) assms(2) by (simp add: listed_ids_def)
    have act: "active_of w' = active_of w" using one_session(1) [OF ss live] idle(2) by (auto simp: active_of_def s_def)
    have "waiting_in w' (sv_queued_sessions w) = waiting_in w (sv_queued_sessions w)"
      using one_session(2) [OF ss live] i unfolding waiting_in_def by (auto intro!: filter_cong)
    moreover have "live i w'" "s_queued (ses w' i)" using ss by (simp_all add: live_def ses_def await_def)
    then have "waiting_in w' (ns @ [i]) = waiting_in w' ns @ [i]" for ns by (simp add: waiting_in_def)
    moreover have "sv_queued_sessions w' = sv_queued_sessions w @ [i]" "sv_tasks w' = ts" "sv_stopping w' = sv_stopping w"
      by (simp_all add: eq w0_def)
    ultimately have "waiting_of w' = waiting_of w" using False assms(2) by (simp add: waiting_of_def)
    with act have "gate_of w' = gate_of w" by (simp add: gate_of_def eq w0_def)
    moreover have "s_request_counted (ses w' j)" if "j \<in> set (listed_ids w)" "live j w'" for j
      using fifo(2) [OF that(1)] that(2) ss idle(5) by (auto simp: live_def ses_def await_def split: if_splits)
    then have "fifo_ok w'" using fifo ids by (simp add: fifo_ok_def)
    moreover have "reply_ok (?g s)" using r(2) reply_ok_cong [of "?g s" s] by (simp add: main_op_def)
    then have "all_replies w'" using r(1) ss by (auto simp: all_replies_def)
    ultimately show ?thesis by simp
  qed
qed

lemma promotes_sessions:
  assumes "promotes q xs w w'"
  shows "j \<notin> set xs \<Longrightarrow> live j w' = live j w \<and> ses w' j = ses w j"
    "j \<in> set xs \<Longrightarrow> live j w' \<and> has_permit (ses w' j) \<and> s_request_counted (ses w' j)"
    "j \<in> set xs \<Longrightarrow> live j w \<and> s_queued (ses w j)"
proof -
  have p: "j \<notin> set xs \<Longrightarrow> sv_sessions w' j = sv_sessions w j"
    "j \<in> set xs \<Longrightarrow> \<exists>t. sv_sessions w' j = Some t \<and> has_permit t \<and> s_request_counted t"
    "waiting_in w q = xs @ waiting_in w' (sv_queued_sessions w')"
    using assms unfolding promotes_def by blast+
  show "live j w' = live j w \<and> ses w' j = ses w j" if "j \<notin> set xs" using p(1) [OF that] by (simp add: live_def ses_def)
  show "live j w' \<and> has_permit (ses w' j) \<and> s_request_counted (ses w' j)" if "j \<in> set xs"
    using p(2) [OF that] by (auto simp: live_def ses_def)
  show "live j w \<and> s_queued (ses w j)" if "j \<in> set xs"
  proof -
    have "j \<in> set (waiting_in w q)" using that p(3) by simp
    then show ?thesis by (simp add: waiting_in_def)
  qed
qed

lemma promotes_gate:
  assumes p: "promotes (sv_queued_sessions w) xs w w'" and run: "\<not> sv_stopping w" and fin: "finite (active_of w)"
    and d: "distinct (sv_queued_sessions w)" and card: "card (active_of w') \<le> m"
    and excl: "\<And>j. live j w \<Longrightarrow> s_queued (ses w j) \<Longrightarrow> \<not> has_permit (ses w j)"
  shows "gate_run m q (gate_of w) (map Starts xs) (gate_of w')"
proof -
  have x: "waiting_in w (sv_queued_sessions w) = xs @ waiting_in w' (sv_queued_sessions w')"
    "sv_stopping w' = sv_stopping w" "posted_ids (sv_tasks w') = posted_ids (sv_tasks w)"
    using p unfolding promotes_def by blast+
  have "j \<in> active_of w' \<longleftrightarrow> j \<in> active_of w \<or> j \<in> set xs" for j
    using promotes_sessions(1,2) [OF p, of j] by (cases "j \<in> set xs") (simp_all add: active_of_def)
  then have act: "active_of w' = active_of w \<union> set xs" by blast
  have disj: "set xs \<inter> active_of w = {}"
    using promotes_sessions(3) [OF p] excl by (fastforce simp: active_of_def)
  have "distinct (waiting_in w (sv_queued_sessions w))" using d by (simp add: waiting_in_def)
  then have dx: "distinct xs" unfolding x(1) by simp
  have "card (active_of w \<union> set xs) = card (active_of w) + card (set xs)"
    using disj by (intro card_Un_disjoint fin) auto
  then have bound: "card (active_of w) + length xs \<le> m" using card act distinct_card [OF dx] by simp
  have wait: "waiting_of w = xs @ waiting_of w'" using x run by (simp add: waiting_of_def)
  have "(gate_of w)\<lparr>g_active := g_active (gate_of w) \<union> set xs, g_waiting := waiting_of w'\<rparr> = gate_of w'"
    using act x(2) by (simp add: gate_of_def)
  then show ?thesis
    using starts_in_order [of "gate_of w" xs m "waiting_of w'" q] run fin dx disj bound wait by simp
qed

lemma promotes_fifo:
  assumes p: "promotes (sv_queued_sessions w) xs w w'" and "fifo_ok w" "\<not> sv_stopping w"
  shows "fifo_ok w'"
proof -
  have fifo: "distinct (listed_ids w)" "\<And>j. j \<in> set (listed_ids w) \<Longrightarrow> j < sv_next w \<and> (live j w \<longrightarrow> s_request_counted (ses w j))"
    using assms(2,3) by (auto simp: fifo_ok_def)
  have x: "set (sv_queued_sessions w') \<subseteq> set (sv_queued_sessions w)" "sv_next w' = sv_next w"
    "distinct (sv_queued_sessions w) \<Longrightarrow> distinct (sv_queued_sessions w')" "posted_ids (sv_tasks w') = posted_ids (sv_tasks w)"
    using p unfolding promotes_def by blast+
  have sub: "set (listed_ids w') \<subseteq> set (listed_ids w)" using x(1,4) by (auto simp: listed_ids_def)
  have "distinct (listed_ids w')" using fifo(1) x(1,3,4) by (auto simp: listed_ids_def)
  moreover have "j < sv_next w' \<and> (live j w' \<longrightarrow> s_request_counted (ses w' j))" if "j \<in> set (listed_ids w')" for j
    using fifo(2) [of j] sub that promotes_sessions(1,2) [OF p, of j] x(2) by (cases "j \<in> set xs") auto
  ultimately show ?thesis by (simp add: fifo_ok_def)
qed

lemma promote_keeps:
  assumes "proxy_ok w" "sv_tasks w = Promote_Queued # ts" "w' = promote_queued_sessions (w\<lparr>sv_tasks := ts\<rparr>)"
    and "permits_ok 0 w'" "limits w' = limits w"
  shows "all_replies w' \<and> fifo_ok w' \<and> (\<exists>xs. gates w (gate_of w) (map Starts xs) (gate_of w'))"
proof -
  let ?w = "w\<lparr>sv_tasks := ts\<rparr>"
  have inv: "permits_ok 0 w" "protocol_ok w" "queue_ok w" "all_replies w" "fifo_ok w"
    using assms(1) by (simp_all add: proxy_ok_def)
  have same: "gate_of ?w = gate_of w" "fifo_ok ?w" "all_replies ?w"
    using same_gate [of ?w w] inv assms(2) by (simp_all add: same_queue_def)
  have w': "w' = promote_loop (sv_queued_sessions ?w) ?w" using assms(3) by (simp add: promote_queued_sessions_def)
  show ?thesis
  proof (cases "sv_stopping w")
    case True
    then have "closed (sv_limiter ?w)" using inv(2) by (simp add: protocol_except_def)
    note c = promote_closed [OF this, of "sv_queued_sessions ?w", folded w']
    then have "active_of w' = active_of w" "all_replies w'" using inv(4)
      by (simp_all add: active_of_def live_def ses_def all_replies_def)
    then show ?thesis using c True by (intro conjI exI [of _ "[]"]) (simp_all add: gate_of_def waiting_of_def fifo_ok_def)
  next
    case False
    have p: "permits_ok 0 ?w" "protocol_ok ?w" using inv(1,2) assms(2)
      by (auto intro: permits_ok_cong simp: protocol_except_def posted_def enqueues_def balance_def tally_def)
    have "wakeup w" "listed w" using inv(3) False by (auto simp: queue_ok_def)
    then have q: "listed_in (sv_queued_sessions ?w) ?w" "covered ?w"
      using wakeup_covered [OF inv(2) _ False] assms(2)
      by (auto simp: covered_def enqueues_def filter_empty_conv listed_def listed_in_def)
    have d: "distinct (sv_queued_sessions ?w)" using same(2) False by (simp add: fifo_ok_def listed_ids_def)
    have run: "\<not> sv_stopping ?w" using False by simp
    obtain xs where xs: "promotes (sv_queued_sessions ?w) xs ?w w'"
      using promote_shape [OF p same(3) run q d] w' by blast
    have excl: "\<not> has_permit (ses ?w j)" if "live j ?w" "s_queued (ses ?w j)" for j
    proof -
      have "session_ok (posted j ?w) (ses ?w j)" using p(2) that(1) by (simp add: protocol_except_def live_ses)
      from session_okD(1,3) [OF this] show ?thesis using that(2) by simp
    qed
    have "card (active_of w') \<le> inflight_limit w" using active_count(3) [OF assms(4)] assms(5) by (simp add: limits_def)
    note promotes_gate [OF xs run active_count(2) [OF p(1)] d this excl]
    then show ?thesis using promotes_fifo [OF xs same(2) run] promotes_replies [OF xs same(3)] same(1) by auto
  qed
qed

subsection \<open>One event\<close>

text \<open>
  The labels that an event may show: only the session whose request has been read enters or begins to
  wait, only an expired queue timer makes a session give up, and a closure of the strand closes the gate
  or starts waiting sessions.
\<close>

fun permitted :: "event \<Rightarrow> gate_label list \<Rightarrow> bool" where
  "permitted (Complete i _ c) ls = (ls = [] \<or> (case c of
     Request_Read _ \<Rightarrow> ls = [Enters i] \<or> ls = [Waits i]
   | Queue_Timer_Done expired \<Rightarrow> expired \<and> ls = [Gives_Up i]
   | _ \<Rightarrow> ls = [Finishes i]))"
| "permitted Run_Task ls = (ls = [Closes] \<or> ls = map Starts (started_ids ls))"
| "permitted _ ls = (ls = [])"

lemma started_ids_map [simp]: "started_ids (map Starts xs) = xs"
  by (induction xs) simp_all

definition shows_labels :: "event \<Rightarrow> server \<Rightarrow> server \<Rightarrow> bool" where
  "shows_labels e w w' \<longleftrightarrow> (\<exists>ls. permitted e ls \<and> gates w (gate_of w) ls (gate_of w'))"

lemma shows_nothing: "gate_of w' = gate_of w \<Longrightarrow> permitted e [] \<Longrightarrow> shows_labels e w w'"
  unfolding shows_labels_def by (intro exI [of _ "[]"]) simp

lemma task_keeps:
  assumes "proxy_ok w" "sv_tasks w = t # ts" "w' = run_task t (w\<lparr>sv_tasks := ts\<rparr>)"
    and "permits_ok 0 w'" "limits w' = limits w"
  shows "all_replies w' \<and> fifo_ok w' \<and> shows_labels Run_Task w w'"
proof -
  let ?w = "w\<lparr>sv_tasks := ts\<rparr>"
  have inv: "fifo_ok w" "all_replies w" using assms(1) by (simp_all add: proxy_ok_def)
  have same: "gate_of ?w = gate_of w" "fifo_ok ?w" "all_replies ?w" if "t = Stop_Server"
    using same_gate [of ?w w] inv assms(2) that by (simp_all add: same_queue_def)
  show ?thesis
  proof (cases t)
    case Do_Accept
    then have "sv_sessions w' = sv_sessions w \<and> same_queue w w'"
      using assms(2,3) by (simp add: do_accept_def same_queue_def)
    then show ?thesis using same_gate [of w' w] inv shows_nothing [of w' w Run_Task] by simp
  next
    case (Enqueue i)
    then show ?thesis using enqueue_keeps [OF assms(1), of i ts w'] shows_nothing [of w' w Run_Task] assms(2,3) by simp
  next
    case Promote_Queued
    then have "all_replies w' \<and> fifo_ok w' \<and> (\<exists>xs. gates w (gate_of w) (map Starts xs) (gate_of w'))"
      using promote_keeps [OF assms(1), of ts w'] assms(2-5) by simp
    moreover have "permitted Run_Task (map Starts xs)" for xs by simp
    ultimately show ?thesis unfolding shows_labels_def by blast
  next
    case Stop_Server
    note k = stop_keeps [OF same(3) [OF Stop_Server]]
    have "gate_step (inflight_limit w) (queue_limit w) (gate_of w) Closes (gate_of w')"
      using k(3) same(1) [OF Stop_Server] gate_step.close [of _ _ "gate_of w"] assms(3) Stop_Server by simp
    then have "shows_labels Run_Task w w'"
      unfolding shows_labels_def by (intro exI [of _ "[Closes]"]) (simp add: one_step)
    then show ?thesis using k(1,2) assms(3) Stop_Server by simp
  qed
qed

text \<open>A request that could not be read: its session dies at once.\<close>

lemma failed_read_dies:
  assumes "protocol_ok w" "sv_sessions w i = Some s" "Read_Request \<in> set (s_pending s)"
    and w': "w' = reap i (on_completion i (Request_Read None) (upd i (completed Read_Request) w))"
  shows "dies i w w'"
proof -
  let ?w = "on_completion i (Request_Read None) (upd i (completed Read_Request) w)"
  have m: "main_op Read_Request" by (simp add: main_op_def)
  have ok: "session_ok (posted i w) s" using assms(1,2) by (simp add: protocol_except_def)
  note b = busy_single [OF ok assms(3) m] and d = session_okD [OF ok]
  have idle: "\<not> s_queued s" "\<not> has_permit s" using b d(3) by (simp_all add: list_ex_iff)
  have p: "remove1 Read_Request (s_pending s) = []" "Enqueue i \<notin> set (sv_tasks w)"
    using d(8) b by (simp_all add: posted_def count_list_0_iff)
  let ?t = "completed Read_Request s\<lparr>s_finished := True\<rparr>"
  have eq: "?w = w\<lparr>sv_sessions := (sv_sessions w)(i \<mapsto> ?t)\<rparr>" using assms(2) by (simp add: ses_def upd_def)
  have "w' = w\<lparr>sv_sessions := (sv_sessions w)(i := None)\<rparr>"
    unfolding w' eq using idle p reap_idle [of "w\<lparr>sv_sessions := (sv_sessions w)(i \<mapsto> ?t)\<rparr>" i ?t]
    by (simp add: completed_def)
  then show ?thesis using idle assms(2) by (simp add: dies_def ses_def same_queue_def)
qed

lemma completion_keeps:
  assumes ok: "proxy_ok w" and s: "sv_sessions w i = Some s" "a \<in> set (s_pending s)" "completes c a"
    and w': "w' = reap i (on_completion i c (upd i (completed a) w))"
  shows "all_replies w' \<and> fifo_ok w' \<and> shows_labels (Complete i a c) w w'"
proof -
  have inv: "permits_ok 0 w" "protocol_ok w" "queue_ok w" "all_replies w" "fifo_ok w"
    using ok by (simp_all add: proxy_ok_def)
  have live: "live i w" using s(1) by (simp add: live_def)
  show ?thesis
  proof (cases "c = Request_Read None")
    case True
    then have "dies i w w'" using failed_read_dies [OF inv(2) s(1), of w'] s(2,3) w' by simp
    note k = dies_keeps [OF this]
    have "shows_labels (Complete i a c) w w'" using k(1) by (intro shows_nothing) simp_all
    then show ?thesis using k(2,3) inv(4,5) by (auto simp: all_replies_def)
  next
    case False
    define v where "v = on_completion i c (upd i (completed a) w)"
    have reply: "reply_ok s" using inv(4) s(1) by (simp add: all_replies_def)
    have v: "permits_ok 0 v" "protocol_ok v" "queue_ok v" "limits v = limits w"
      using permits_on_completion [OF permits_upd [OF inv(1) live, of "completed a"]] completion_step [OF inv(1,2) s] inv(3)
      by (simp_all add: v_def completed_def)
    have c: "replies i w v \<or> enters i w v" using completion_replies [OF inv(1,2) s reply False] by (simp add: v_def)
    then have "all_replies v" using inv(4) by (auto simp: all_replies_def replies_def enters_def split: if_splits)
    have fifo: "fifo_ok v" by (rule handler_fifo [OF ok live c])
    have "proxy_ok v" using v \<open>all_replies v\<close> fifo by (simp add: proxy_ok_def)
    have lim: "inflight_limit v = inflight_limit w" "queue_limit v = queue_limit w" using v(4) by (simp_all add: limits_def)
    have v_fold: "v = on_completion i c (upd i (completed a) w)" by (simp add: v_def)
    have so: "session_ok (posted i w) s" using inv(2) s(1) by (simp add: protocol_except_def)
    have ses: "ses w i = s" using s(1) by (simp add: ses_def)
    have "live i v" using c by (auto simp: replies_def enters_def live_def)
    then have "session_ok (posted i v) (ses v i)" using v(2) by (simp add: protocol_except_def live_ses)
    then have counted: "\<exists>r. c = Request_Read r"
      if "\<not> s_request_counted s" "s_request_counted (ses v i) \<or> has_permit (ses v i)"
      using counted_on_request [OF inv(1) s(1,3) _ that(1)] that session_okD(5) [OF so] session_okD(5) unfolding v_fold by blast
    have "\<exists>ls. permitted (Complete i a c) ls \<and> gates w (gate_of w) ls (gate_of v)"
      using c
    proof
      assume r: "replies i w v"
      have "card (active_of v) \<le> inflight_limit w" using active_count(3) [OF v(1)] lim(1) by simp
      from replies_gate [OF ok live r this] obtain ls where run: "gates w (gate_of w) ls (gate_of v)" and ls: "ls = [] \<or>
          ls = [Finishes i] \<and> has_permit s \<and> \<not> has_permit (ses v i) \<or> ls = [Gives_Up i] \<and> s_queued s \<and> \<not> s_queued (ses v i) \<or>
          ls = [Enters i] \<and> \<not> has_permit s \<and> \<not> s_request_counted s \<and> has_permit (ses v i)"
        unfolding ses by blast
      have "permitted (Complete i a c) ls"
        using ls leaves_on_timeout [OF so s] counted permit_released [OF so s] s(3)
        unfolding v_fold by (cases c) auto
      then show ?thesis using run by blast
    next
      assume e: "enters i w v"
      then have "\<not> sv_stopping v" using ok by (auto simp: enters_def proxy_ok_def protocol_except_def)
      then have "gates w (gate_of w) [Waits i] (gate_of v)"
        using enters_gate [OF ok live e] waiting_count(2) [OF \<open>proxy_ok v\<close>] lim by simp
      moreover have "permitted (Complete i a c) [Waits i]"
        using counted e ses by (auto simp: enters_def ses_def)
      ultimately show ?thesis by blast
    qed
    then have "shows_labels (Complete i a c) w w'"
      using dies_keeps(1) [OF reap_dies [OF v(2), of i]] w' by (simp add: shows_labels_def v_def)
    then show ?thesis using dies_keeps [OF reap_dies [OF v(2), of i]] fifo \<open>all_replies v\<close> w'
      by (auto simp: v_def all_replies_def)
  qed
qed

lemma event_gate:
  assumes "proxy_ok w" "exec_event e w = Some w'"
  shows "proxy_ok w'" "shows_labels e w w'"
proof -
  have inv: "permits_ok 0 w" "protocol_ok w" "queue_ok w" "all_replies w" "fifo_ok w"
    using assms(1) by (simp_all add: proxy_ok_def)
  have next': "permits_ok 0 w'" "protocol_ok w'" "queue_ok w'" "limits w' = limits w"
    using permits_event [OF inv(1) assms(2)] event_step [OF inv(1-3) assms(2)] limits_event [OF assms(2)] by blast+
  have still: "all_replies w' \<and> fifo_ok w' \<and> shows_labels e w w'"
    if "sv_sessions w' = sv_sessions w" "same_queue w w'" "permitted e []"
    using same_gate [OF that(1,2)] shows_nothing [of w' w e] that(3) inv(4,5) by simp
  have "all_replies w' \<and> fifo_ok w' \<and> shows_labels e w w'"
  proof (cases e)
    case (Complete i a c)
    then obtain s where "sv_sessions w i = Some s" "a \<in> set (s_pending s)" "completes c a"
      "w' = reap i (on_completion i c (upd i (completed a) w))"
      using assms(2) by (auto simp: completed_def [abs_def] split: option.splits if_splits)
    then show ?thesis unfolding Complete by (rule completion_keeps [OF assms(1)])
  next
    case Run_Task
    then obtain t ts where "sv_tasks w = t # ts" "w' = run_task t (w\<lparr>sv_tasks := ts\<rparr>)"
      using assms(2) by (auto split: list.splits)
    then show ?thesis unfolding Run_Task using task_keeps [OF assms(1)] next'(1,4) by simp
  next
    case (Accepted ok)
    let ?w = "w\<lparr>sv_accepting := False\<rparr>"
    have "gate_of ?w = gate_of w" "fifo_ok ?w" "all_replies ?w"
      using same_gate [of ?w w] inv(4,5) by (simp_all add: same_queue_def)
    moreover have "numbered ?w" using inv(1) by (simp add: permits_ok_def numbered_def live_def)
    ultimately show ?thesis using accept_keeps [of ?w ok] shows_nothing [of w' w e] assms(2) Accepted
      by (auto split: if_splits)
  next
    case (Tick d)
    then show ?thesis using assms(2) by (intro still) (auto simp: same_queue_def)
  next
    case Stop_Call
    then show ?thesis using assms(2) by (intro still) (auto simp: same_queue_def post_def)
  next
    case Signal
    then show ?thesis using assms(2) by (intro still) (auto simp: same_queue_def post_def)
  qed
  then show "proxy_ok w'" "shows_labels e w w'" using next' by (simp_all add: proxy_ok_def)
qed

subsection \<open>The refinement\<close>

text \<open>The gate with the limits of the configuration.\<close>

abbreviation config_gates :: "proxy_config \<Rightarrow> gate \<Rightarrow> gate_label list \<Rightarrow> gate \<Rightarrow> bool" where
  "config_gates c \<equiv> gate_run (unat (pc_max_inflight c)) (unat (pc_max_queue_size c))"

lemma started_gate:
  assumes "make_server config = Inr w" "start_server True w = Some w'"
  shows "all_replies w'" "fifo_ok w'" "gate_of w' = empty_gate"
proof -
  have w: "sv_sessions w = Map.empty" "sv_queued_sessions w = []" "sv_tasks w = []" "\<not> sv_stopping w"
    using assms(1) by (auto simp: make_server_def set_on_release_def split: sum.splits)
  then have "sv_sessions w' = Map.empty" "sv_queued_sessions w' = []" "posted_ids (sv_tasks w') = []" "\<not> sv_stopping w'"
    using assms(2) by (auto simp: start_server_def post_def split: if_splits)
  then show "all_replies w'" "fifo_ok w'" "gate_of w' = empty_gate"
    by (simp_all add: all_replies_def fifo_ok_def listed_ids_def gate_of_def active_of_def waiting_of_def waiting_in_def
        live_def empty_gate_def)
qed

lemma reachable_proxy_ok: "reachable config w \<Longrightarrow> proxy_ok w"
proof (induction rule: reachable.induct)
  case (start w w')
  have "permits_ok 0 w' \<and> protocol_ok w' \<and> queue_ok w'" by (rule reachable_ok [OF reachable.start [OF start]])
  then show ?case using started_gate [OF start] by (simp add: proxy_ok_def)
next
  case (step w e w')
  then show ?case using event_gate(1) by (blast elim: server_stepE)
qed

lemma step_gate:
  assumes "reachable config w" "server_step w e w'"
  shows "\<exists>ls. permitted e ls \<and> config_gates config (gate_of w) ls (gate_of w')"
proof -
  have "exec_event e w = Some w'" using assms(2) by (blast elim: server_stepE)
  note event_gate(2) [OF reachable_proxy_ok [OF assms(1)] this]
  then show ?thesis using reachable_limits [OF assms(1)] by (simp add: shows_labels_def limits_def)
qed

lemma run_gate:
  "reachable config w \<Longrightarrow> run_events es w = Some w' \<Longrightarrow> reachable config w' \<and>
    (\<exists>lss. list_all2 permitted es lss \<and> config_gates config (gate_of w) (concat lss) (gate_of w'))"
proof (induction es arbitrary: w)
  case (Cons e es)
  obtain v where v: "exec_event e w = Some v" "run_events es v = Some w'" "sv_running w" "sv_crash w = None"
    using Cons.prems(2) by (cases "exec_event e w") (simp_all split: if_splits)
  have step: "server_step w e v" by (rule server_step.step [OF v(3,4,1)])
  obtain ls where ls: "permitted e ls" "config_gates config (gate_of w) ls (gate_of v)"
    using step_gate [OF Cons.prems(1) step] by blast
  obtain lss where "reachable config w'" "list_all2 permitted es lss" "config_gates config (gate_of v) (concat lss) (gate_of w')"
    using Cons.IH [OF reachable.step [OF Cons.prems(1) step] v(2)] by blast
  then show ?case using ls gate_run_append by (intro conjI exI [of _ "ls # lss"]) auto
qed (intro conjI exI [of _ "[]"], simp_all)

subsection \<open>Timeouts\<close>

text \<open>The expiry of the timer of a waiting session or of one with a permit ends its request.\<close>

definition timeout_of :: "session \<Rightarrow> async \<times> completion" where
  "timeout_of s = (if s_queued s then (Queue_Timer False, Queue_Timer_Done True)
     else (Request_Timer False, Request_Timer_Done True))"

lemma timeout_pending:
  assumes "session_ok e s" "s_queued s \<or> has_permit s" "timeout_of s = (a, c)"
  shows "a \<in> set (s_pending s)" "completes c a" "\<not> s_finished s" "c \<noteq> Request_Read None"
  using session_okD(2,3,6,11) [OF assms(1)] assms(2,3) by (auto simp: timeout_of_def split: if_splits)

lemma timeout_finishes:
  assumes "ready w" "live i w" "s_queued (ses w i) \<or> has_permit (ses w i)" "\<not> s_finished (ses w i)"
    and "timeout_of (ses w i) = (a, c)"
  shows "s_finished (ses (on_completion i c (upd i (completed a) w)) i)"
proof -
  have fail: "s_finished (ses (fail_with_status i st e v) i)" if "ready v" "live i v" for v st e
    using on_session_fail [OF that, of st e] by (simp add: on_session_def ses_def fail_session_def Let_def)
  show ?thesis
  proof (cases "s_queued (ses w i)")
    case True
    then have ac: "a = Queue_Timer False" "c = Queue_Timer_Done True" using assms(5) by (simp_all add: timeout_of_def)
    define v where "v = upd i (\<lambda>s. s\<lparr>s_queued := False\<rparr>)
      ((upd i (completed a) w)\<lparr>sv_limiter := snd (cancel_queued (sv_limiter w))\<rparr>)"
    have "ready v" "live i v" using assms(1) by (simp_all add: v_def ready_def cancel_queued_def)
    then have "s_finished (ses (send_json_error i 429 ''queue timeout'' v) i)" using fail by (simp add: send_json_error_def)
    then show ?thesis using assms(1,2) True by (simp add: ac v_def ready_def)
  next
    case False
    then have ac: "a = Request_Timer False" "c = Request_Timer_Done True" using assms(5) by (simp_all add: timeout_of_def)
    have "ready (upd i (completed a) w)" "live i (upd i (completed a) w)" using assms(1) by (simp_all add: ready_def)
    then show ?thesis using fail assms(2,4) by (simp add: ac)
  qed
qed

lemma timeout_event:
  assumes ok: "proxy_ok w" and s: "sv_sessions w i = Some s" and busy: "s_queued s \<or> has_permit s"
    and ac: "timeout_of s = (a, c)" and w': "exec_event (Complete i a c) w = Some w'"
  shows "sv_sessions w' i = Some s' \<Longrightarrow> s_finished s'" "active_of w' = active_of w - {i}"
    "\<not> sv_stopping w \<Longrightarrow> waiting_of w' = (if s_queued s then remove1 i (waiting_of w) else waiting_of w)"
    "sv_stopping w' = sv_stopping w"
proof -
  have inv: "permits_ok 0 w" "protocol_ok w" "all_replies w" using ok by (simp_all add: proxy_ok_def)
  have live: "live i w" "ses w i = s" using s by (simp_all add: live_def ses_def)
  have so: "session_ok (posted i w) s" using inv(2) s by (simp add: protocol_except_def)
  note t = timeout_pending [OF so busy ac]
  define v where "v = on_completion i c (upd i (completed a) w)"
  have v: "protocol_ok v" "w' = reap i v"
    using completion_step(1) [OF inv(1,2) s t(1,2)] w' s t(1,2) by (simp_all add: v_def completed_def [abs_def])
  have "reply_ok s" using inv(3) s by (simp add: all_replies_def)
  moreover have "s_request_counted s" using session_okD(5) [OF so] busy by blast
  ultimately have "replies i w v"
    using completion_replies [OF inv(1,2) s t(1,2) _ t(4)] live(2) by (auto simp: v_def enters_def)
  then obtain u where u: "sv_sessions v = (sv_sessions w)(i \<mapsto> u)" "same_queue w v" "advances (closed (sv_limiter w)) s u"
    using live(2) by (auto simp: replies_def)
  have "ready w" using inv(1) by (simp add: permits_ok_def ready_def)
  then have "s_finished (ses v i)" using timeout_finishes [of w i a c] live busy t(3) ac by (simp add: v_def)
  then have fin: "s_finished u" using u(1) by (simp add: ses_def)
  have "session_ok (posted i v) u" using v(1) u(1) by (simp add: protocol_except_def)
  then have dead: "\<not> s_queued u" "\<not> has_permit u" using session_okD(2,3) fin by blast+
  note d = reap_dies [OF v(1), of i]
  have gate: "active_of w' = active_of v" "waiting_of w' = waiting_of v" "sv_stopping w' = sv_stopping v"
    using dies_keeps(1) [OF d] v(2) by (simp_all add: gate_of_def)
  show "s_finished s'" if "sv_sessions w' i = Some s'" using that d v(2) u(1) fin by (auto simp: dies_def)
  show "active_of w' = active_of w - {i}" using gate one_session(1) [OF u(1) live(1)] dead by simp
  show "sv_stopping w' = sv_stopping w" using gate u(2) by (simp add: same_queue_def)
  show "waiting_of w' = (if s_queued s then remove1 i (waiting_of w) else waiting_of w)" if run: "\<not> sv_stopping w"
  proof (cases "s_queued s")
    case True
    then show ?thesis using leaves_queue(1) [OF ok run u(2,1) live(1)] dead gate live(2) by simp
  next
    case False
    then have "waiting_in v ns = waiting_in w ns" for ns
      using one_session(2) [OF u(1) live(1)] dead live unfolding waiting_in_def by (auto intro!: filter_cong)
    then show ?thesis using False gate u(2) run by (simp add: waiting_of_def same_queue_def)
  qed
qed

end
