(* ===== verification/ProxyBytes.thy ===== *)
theory ProxyBytes
  imports ProxyStream ProxyReplies "HOL-Library.Sublist"
begin

text \<open>
  The bytes of a stream: what a client has been sent of the body, against what its session has read from
  the upstream, over every run of the event loop. Each operation leaves both alone (\<open>hush\<close>), but for the
  one that reads a piece.
\<close>

subsection \<open>The bytes sent and the bytes read\<close>

fun chunk_bytes :: "client_message \<Rightarrow> string" where
  "chunk_bytes (Sse_Chunk d) = d"
| "chunk_bytes _ = []"

definition sent_bytes :: "session \<Rightarrow> string" where
  "sent_bytes s = concat (map chunk_bytes (s_out s))"

text \<open>
  A read of the body that succeeds and is not the last one. The bytes of the other reads are not
  looked at (\<open>body_bytes_ignored\<close>).
\<close>

fun event_bytes :: "nat \<Rightarrow> event \<Rightarrow> string" where
  "event_bytes i (Complete j _ (Body_Read No_Error False d)) = (if j = i then d else [])"
| "event_bytes i _ = []"

definition read_bytes :: "nat \<Rightarrow> event list \<Rightarrow> string" where
  "read_bytes i es = concat (map (event_bytes i) es)"

lemma sent_simps [simp]:
  "sent_bytes (await a s) = sent_bytes s"
  "sent_bytes (send_client m s) = (if s_client_open s then sent_bytes s @ chunk_bytes m else sent_bytes s)"
  "sent_bytes (cancel_queue_timer s) = sent_bytes s" "sent_bytes (cancel_request_timer s) = sent_bytes s"
  "s_client_open (cancel_queue_timer s) = s_client_open s" "s_client_open (cancel_request_timer s) = s_client_open s"
  "sent_bytes (completed a s) = sent_bytes s" "s_client_open (completed a s) = s_client_open s"
  by (simp_all add: sent_bytes_def cancel_queue_timer_def cancel_request_timer_def completed_def)

lemma sent_updates [simp]:
  "sent_bytes (s\<lparr>s_client_open := b\<rparr>) = sent_bytes s" "sent_bytes (s\<lparr>s_upstream_open := b\<rparr>) = sent_bytes s"
  "sent_bytes (s\<lparr>s_permit := p\<rparr>) = sent_bytes s" "sent_bytes (s\<lparr>s_finished := b\<rparr>) = sent_bytes s"
  "sent_bytes (s\<lparr>s_queued := b\<rparr>) = sent_bytes s" "sent_bytes (s\<lparr>s_request_start := t\<rparr>) = sent_bytes s"
  "sent_bytes (s\<lparr>s_response_started := b\<rparr>) = sent_bytes s" "sent_bytes (s\<lparr>s_upstream := u\<rparr>) = sent_bytes s"
  "sent_bytes (s\<lparr>s_request := r\<rparr>) = sent_bytes s" "sent_bytes (s\<lparr>s_sse_parser := q\<rparr>) = sent_bytes s"
  "sent_bytes (s\<lparr>s_first_data_seen := b\<rparr>) = sent_bytes s" "sent_bytes (s\<lparr>s_request_counted := b\<rparr>) = sent_bytes s"
  by (simp_all add: sent_bytes_def)

subsection \<open>The operations that send nothing of a body\<close>

definition hush :: "server \<Rightarrow> server \<Rightarrow> bool" where
  "hush w v \<longleftrightarrow> sv_next v = sv_next w \<and> (\<forall>j. live j v = live j w \<and>
     sent_bytes (ses v j) = sent_bytes (ses w j) \<and> (s_client_open (ses v j) \<longrightarrow> s_client_open (ses w j)))"

named_theorems hush_rules

lemma hush_refl [hush_rules]: "hush w w"
  by (simp add: hush_def)

lemma hush_trans: "hush u v \<Longrightarrow> hush v w \<Longrightarrow> hush u w"
  by (auto simp: hush_def)

lemma hush_upd [hush_rules]:
  "hush w v \<Longrightarrow> live i w \<Longrightarrow> sent_bytes (f (ses v i)) = sent_bytes (ses v i) \<Longrightarrow>
    (s_client_open (f (ses v i)) \<Longrightarrow> s_client_open (ses v i)) \<Longrightarrow> hush w (upd i f v)"
  by (auto simp: hush_def)

lemma hush_cong: "hush w v \<Longrightarrow> sv_sessions v' = sv_sessions v \<Longrightarrow> sv_next v' = sv_next v \<Longrightarrow> hush w v'"
  using sessions_cong [of v' v] by (simp add: hush_def)

lemma hush_fields [hush_rules]:
  "hush w v \<Longrightarrow> hush w (v\<lparr>sv_limiter := l\<rparr>)" "hush w v \<Longrightarrow> hush w (v\<lparr>sv_queued_sessions := q\<rparr>)"
  "hush w v \<Longrightarrow> hush w (v\<lparr>sv_metrics := m\<rparr>)" "hush w v \<Longrightarrow> hush w (v\<lparr>sv_crash := e\<rparr>)"
  "hush w v \<Longrightarrow> hush w (with_metrics g v)" "hush w v \<Longrightarrow> hush w (post t v)"
  "hush w v \<Longrightarrow> hush w (v\<lparr>sv_stopping := b\<rparr>)" "hush w v \<Longrightarrow> hush w (do_accept v)"
  by (auto elim!: hush_cong simp: with_metrics_def post_def do_accept_def)

lemma hush_callback [hush_rules]: "hush w v \<Longrightarrow> hush w (run_callback cb (put_limiter h v))"
  by (auto simp: run_callback_def put_limiter_def intro: hush_rules split: option.splits)

lemma hush_drop [hush_rules]: "hush w v \<Longrightarrow> hush w (drop_permit p v)"
  by (auto simp: drop_permit_def intro: hush_rules split: prod.splits)

lemma hush_reset [hush_rules]: "hush w v \<Longrightarrow> live i w \<Longrightarrow> hush w (reset_permit i v)"
  by (auto simp: reset_permit_def intro!: hush_rules split: option.splits)

lemma hush_set [hush_rules]:
  assumes "hush w v" "live i w"
  shows "hush w (set_permit i p v)"
proof (cases "s_permit (ses v i)")
  case None
  then show ?thesis using assms by (auto simp: set_permit_def intro!: hush_rules)
next
  case (Some old)
  obtain q x h cb where a: "assign_permit old p (limiter_heap v) = (q, x, h, cb)" by (metis prod_cases4)
  have "run_callback cb (upd i f (put_limiter h v)) = upd i f (run_callback cb (put_limiter h v))" for f
    by (simp add: run_callback_def put_limiter_def upd_def post_def ses_def split: option.splits)
  then show ?thesis using assms Some a by (auto simp: set_permit_def intro!: hush_rules)
qed

lemma hush_close [hush_rules]:
  "hush w v \<Longrightarrow> live i w \<Longrightarrow> hush w (close_client i v)" "hush w v \<Longrightarrow> live i w \<Longrightarrow> hush w (close_upstream i v)"
  "hush w v \<Longrightarrow> live i w \<Longrightarrow> hush w (cancel_timers i v)"
  by (auto simp: close_client_def close_upstream_def cancel_timers_def intro!: hush_rules)

lemma hush_settle [hush_rules]: "hush w v \<Longrightarrow> live i w \<Longrightarrow> hush w (settle i f v)"
  by (auto simp: settle_def Let_def intro!: hush_rules)

lemma hush_end [hush_rules]:
  "hush w v \<Longrightarrow> live i w \<Longrightarrow> hush w (finish_request i v)"
  "hush w v \<Longrightarrow> live i w \<Longrightarrow> hush w (fail_with_status i c e v)"
  "hush w v \<Longrightarrow> live i w \<Longrightarrow> hush w (send_json_error i c e v)"
  by (auto simp: settle_folds send_json_error_def Let_def intro!: hush_rules)

lemma hush_steps [hush_rules]:
  assumes "hush w v" "live i w"
  shows "hush w (send_text_response i c b v)" "hush w (start_request_timer i v)" "hush w (resolve_upstream i v)"
    "hush w (connect_upstream i v)" "hush w (write_upstream_request i v)" "hush w (read_upstream_header i v)"
    "hush w (write_downstream_sse_header i v)" "hush w (read_upstream_body i v)" "hush w (start_queue_timer i v)"
  using assms
  by (auto simp: send_text_response_def start_request_timer_def resolve_upstream_def connect_upstream_def
      write_upstream_request_def read_upstream_header_def write_downstream_sse_header_def read_upstream_body_def
      start_queue_timer_def Let_def simp del: upd_upd intro!: hush_rules split: if_splits)

lemma hush_health [hush_rules]: "hush w v \<Longrightarrow> live i w \<Longrightarrow> hush w (send_health i v)"
  by (auto simp: send_health_def intro!: hush_rules split: sum.splits)

lemma hush_start [hush_rules]: "hush w v \<Longrightarrow> live i w \<Longrightarrow> hush w (start_proxy_request i p v)"
  by (auto simp: start_proxy_request_def Let_def intro!: hush_rules)

lemma hush_handle_request [hush_rules]: "hush w v \<Longrightarrow> live i w \<Longrightarrow> hush w (handle_request i v)"
  by (auto simp: handle_request_def Let_def intro!: hush_rules split: prod.splits inflight_decision.splits)

lemma hush_try_start: "hush w v \<Longrightarrow> live i w \<Longrightarrow> hush w (fst (try_start_from_queue i p v))"
  by (auto simp: try_start_from_queue_def intro!: hush_rules)

lemma hush_promote: "hush w v \<Longrightarrow> hush w (promote_loop q v)"
proof (induction q arbitrary: v)
  case (Cons i q)
  show ?case
  proof (cases "sv_sessions v i = None \<or> \<not> is_queued i v")
    case False
    then have live: "live i w" using Cons.prems by (auto simp: hush_def live_def)
    obtain p l where l: "try_promote_queued 0 (sv_limiter v) = (p, l)" by fastforce
    let ?v = "v\<lparr>sv_limiter := l\<rparr>"
    have v: "hush w ?v" using Cons.prems by (rule hush_rules)
    obtain v2 b where t: "try_start_from_queue i p ?v = (v2, b)" by fastforce
    then have "hush w v2" using hush_try_start [OF v live, of p] by simp
    then have "hush w (promote_loop q v2)" "hush w (promote_loop q (drop_permit p v2))" "hush w (promote_loop q ?v)"
      using Cons.IH v by (auto intro: hush_rules)
    moreover have "hush w (?v\<lparr>sv_queued_sessions := i # q\<rparr>)" using v by (rule hush_rules)
    ultimately show ?thesis using False l t by (cases b) (auto simp: Let_def)
  qed (use Cons in auto)
qed (auto intro: hush_rules)

lemma hush_close_clients: "hush w v \<Longrightarrow> hush w (close_clients q v)"
proof (induction q arbitrary: v)
  case (Cons i q)
  have "hush w (close_client i v)" if "sv_sessions v i \<noteq> None"
    using Cons.prems that by (intro hush_rules) (auto simp: hush_def live_def)
  then show ?case using Cons by simp
qed simp

subsection \<open>One event\<close>

text \<open>What an event does to the bytes sent: the session that reads a piece sends it, if its client is there.\<close>

definition passes :: "(nat \<Rightarrow> string) \<Rightarrow> server \<Rightarrow> server \<Rightarrow> bool" where
  "passes d w v \<longleftrightarrow> sv_next w \<le> sv_next v \<and> (\<forall>j. live j v \<longrightarrow>
     (if live j w then (s_client_open (ses v j) \<longrightarrow> s_client_open (ses w j)) \<and>
        sent_bytes (ses v j) = sent_bytes (ses w j) @ (if s_client_open (ses w j) then d j else [])
      else sv_next w \<le> j \<and> sent_bytes (ses v j) = []))"

lemma hush_passes: "hush w v \<Longrightarrow> passes (\<lambda>_. []) w v"
  by (simp add: hush_def passes_def)

lemma passes_before:
  "passes d u v \<Longrightarrow> sv_next u = sv_next w \<Longrightarrow> (\<And>j. live j u = live j w \<and>
    sent_bytes (ses u j) = sent_bytes (ses w j) \<and> s_client_open (ses u j) = s_client_open (ses w j)) \<Longrightarrow> passes d w v"
  unfolding passes_def by metis

lemma passes_after:
  assumes "passes d w v" "hush v u"
  shows "passes d w u"
  using assms unfolding passes_def hush_def by metis

lemma passes_reap:
  assumes "passes d w v"
  shows "passes d w (reap i v)"
proof (cases "live i v \<and> s_pending (ses v i) = [] \<and> Enqueue i \<notin> set (sv_tasks v)")
  case True
  define u where "u = reset_permit i (if s_queued (ses v i) \<and> sv_alive v
    then v\<lparr>sv_limiter := snd (cancel_queued (sv_limiter v))\<rparr> else v)"
  have "hush v u" unfolding u_def using True by (auto intro!: hush_rules)
  then have u: "passes d w u" using passes_after [OF assms] by blast
  have "reap i v = u\<lparr>sv_sessions := (sv_sessions u)(i := None)\<rparr>"
    using True by (simp add: reap_def destroy_session_def live_ses Let_def u_def)
  then have "sv_next (reap i v) = sv_next u" "live j (reap i v) \<longleftrightarrow> j \<noteq> i \<and> live j u"
    "j \<noteq> i \<Longrightarrow> ses (reap i v) j = ses u j" for j
    by (auto simp: live_def ses_def)
  then show ?thesis using u unfolding passes_def by metis
next
  case False
  then have "reap i v = v" by (auto simp: reap_def live_def ses_def split: option.splits)
  then show ?thesis using assms by simp
qed

lemma body_passes:
  assumes "live i w"
  shows "passes (\<lambda>j. if i = j then d else []) w (on_completion i (Body_Read No_Error False d) w)"
proof -
  define Q where "Q v \<longleftrightarrow> hush w v \<and> s_client_open (ses v i) = s_client_open (ses w i)" for v
  have "Q (fst (observe_sse_chunk i d w))"
    by (rule observe_keeps) (use assms in \<open>auto simp: Q_def ses_def [of "_\<lparr>sv_metrics := _\<rparr>"] ses_def [symmetric] intro!: hush_rules\<close>)
  then obtain v stop where v: "observe_sse_chunk i d w = (v, stop)" "hush w v"
    "s_client_open (ses v i) = s_client_open (ses w i)" by (cases "observe_sse_chunk i d w") (auto simp: Q_def)
  have "passes (\<lambda>j. if i = j then d else []) w (write_downstream_body i d stop v)"
  proof (cases "d = [] \<and> stop")
    case True
    then have "hush w (write_downstream_body i d stop v)"
      using v(2) assms by (auto simp: write_downstream_body_def intro!: hush_rules)
    moreover have "(\<lambda>j. if i = j then d else []) = (\<lambda>_. [])" using True by auto
    ultimately show ?thesis using hush_passes by simp
  next
    case False
    then have "write_downstream_body i d stop v = upd i (\<lambda>s. await (Write_Body stop) (send_client (Sse_Chunk d) s)) v"
      by (auto simp: write_downstream_body_def)
    then show ?thesis using v(2,3) assms by (auto simp: passes_def hush_def)
  qed
  then show ?thesis using v(1) by simp
qed

lemma completion_passes:
  assumes "live i w"
  shows "passes (\<lambda>j. event_bytes j (Complete i a c)) w (on_completion i c w)"
proof (cases "\<exists>d. c = Body_Read No_Error False d")
  case True
  then show ?thesis using body_passes [OF assms] by (auto simp del: on_completion.simps)
next
  case False
  then have none: "event_bytes j (Complete i a c) = []" for j
    by (cases "(j, Complete i a c)" rule: event_bytes.cases) auto
  have "hush w (on_completion i c w)"
  proof (cases c)
    case (Body_Read ec last d)
    then show ?thesis using assms False
      by (cases ec; cases last) (auto simp: write_downstream_body_def intro!: hush_rules)
  qed (use assms in \<open>auto simp del: upd_upd intro!: hush_rules split: option.splits\<close>)
  then show ?thesis using hush_passes none by simp
qed

lemma event_passes:
  assumes "exec_event e w = Some w'" "permits_ok 0 w"
  shows "passes (\<lambda>j. event_bytes j e) w w'"
proof (cases e)
  case (Complete i a c)
  let ?w = "upd i (completed a) w"
  have live: "live i w" and w': "w' = reap i (on_completion i c ?w)"
    using assms(1) Complete by (auto simp: live_def completed_def [abs_def] split: option.splits if_splits)
  have "passes (\<lambda>j. event_bytes j e) ?w (on_completion i c ?w)"
    unfolding Complete using completion_passes [of i ?w] by simp
  then have "passes (\<lambda>j. event_bytes j e) w (on_completion i c ?w)"
    by (rule passes_before) (use live in auto)
  then show ?thesis unfolding w' by (rule passes_reap)
next
  case Run_Task
  then obtain t ts where t: "sv_tasks w = t # ts" "w' = run_task t (w\<lparr>sv_tasks := ts\<rparr>)"
    using assms(1) by (auto split: list.splits)
  let ?w = "w\<lparr>sv_tasks := ts\<rparr>"
  have w: "hush w ?w" by (rule hush_cong [OF hush_refl]) simp_all
  have "passes (\<lambda>_. []) w (run_task t ?w)"
  proof (cases t)
    case (Enqueue i)
    have "live i w" using assms(2) t(1) Enqueue by (auto simp: permits_ok_def)
    then have "hush w (enqueue_session i ?w)" using w by (auto simp: enqueue_session_def intro!: hush_rules)
    then show ?thesis using Enqueue passes_reap hush_passes by simp
  next
    case Stop_Server
    have "hush w (close_clients q (?w\<lparr>sv_stopping := True, sv_limiter := l\<rparr>))" for q l
      by (intro hush_close_clients hush_rules w)
    then have "hush w (stop_server ?w)" by (auto simp: stop_server_def Let_def intro!: hush_rules)
    then show ?thesis using Stop_Server hush_passes by simp
  qed (auto simp: promote_queued_sessions_def intro!: hush_passes hush_promote hush_rules w)
  then show ?thesis using t(2) Run_Task by simp
next
  case (Accepted ok)
  let ?w = "w\<lparr>sv_accepting := False\<rparr>"
  have w': "w' = on_accept ok ?w" using assms(1) Accepted by (auto split: if_splits)
  have none: "\<not> live (sv_next w) w" using assms(2) by (auto simp: permits_ok_def numbered_def)
  have "passes (\<lambda>_. []) w (start_session ?w)"
    using none by (auto simp: start_session_def passes_def live_def ses_def sent_bytes_def new_session_def await_def
        split: sum.splits)
  moreover have "passes (\<lambda>_. []) w ?w" by (rule hush_passes, rule hush_cong [OF hush_refl]) simp_all
  moreover have "passes (\<lambda>_. []) w (do_accept v) = passes (\<lambda>_. []) w v" for v
    by (simp add: do_accept_def passes_def live_def ses_def)
  ultimately show ?thesis unfolding w' using Accepted by (simp add: on_accept_def Let_def)
next
  case (Tick k)
  then have "hush w w'" using assms(1) by (intro hush_cong [OF hush_refl]) auto
  then show ?thesis using Tick hush_passes by simp
next
  case Stop_Call
  then have "hush w w'" using assms(1) by (intro hush_cong [OF hush_refl]) (auto simp: post_def)
  then show ?thesis using Stop_Call hush_passes by simp
next
  case Signal
  then have "hush w w'" using assms(1) by (intro hush_cong [OF hush_refl]) (auto simp: post_def)
  then show ?thesis using Signal hush_passes by simp
qed

subsection \<open>Runs\<close>

text \<open>\<open>b i\<close>: the bytes that session \<open>i\<close> has read so far.\<close>

definition relayed :: "(nat \<Rightarrow> string) \<Rightarrow> server \<Rightarrow> bool" where
  "relayed b w \<longleftrightarrow> (\<forall>i. sv_next w \<le> i \<longrightarrow> b i = []) \<and> (\<forall>i. live i w \<longrightarrow>
     prefix (sent_bytes (ses w i)) (b i) \<and> (s_client_open (ses w i) \<longrightarrow> sent_bytes (ses w i) = b i))"

lemma event_of_live: "exec_event e w = Some w' \<Longrightarrow> event_bytes i e \<noteq> [] \<Longrightarrow> live i w"
  by (cases "(i, e)" rule: event_bytes.cases) (auto simp: live_def split: option.splits if_splits)

lemma relayed_event:
  assumes "exec_event e w = Some w'" "permits_ok 0 w" "relayed b w"
  shows "relayed (\<lambda>i. b i @ event_bytes i e) w'"
proof -
  note p = event_passes [OF assms(1,2)]
  have new: "b i @ event_bytes i e = []" if "sv_next w \<le> i" for i
  proof -
    have "\<not> live i w" using that assms(2) by (auto simp: permits_ok_def numbered_def)
    then show ?thesis using event_of_live [OF assms(1)] that assms(3) by (auto simp: relayed_def)
  qed
  have "prefix (sent_bytes (ses w' i)) (b i @ event_bytes i e) \<and>
      (s_client_open (ses w' i) \<longrightarrow> sent_bytes (ses w' i) = b i @ event_bytes i e)" if "live i w'" for i
  proof (cases "live i w")
    case True
    then have "s_client_open (ses w' i) \<longrightarrow> s_client_open (ses w i)"
      "sent_bytes (ses w' i) = sent_bytes (ses w i) @ (if s_client_open (ses w i) then event_bytes i e else [])"
      using p that by (simp_all add: passes_def)
    moreover have "prefix (sent_bytes (ses w i)) (b i)" "s_client_open (ses w i) \<longrightarrow> sent_bytes (ses w i) = b i"
      using assms(3) True by (simp_all add: relayed_def)
    ultimately show ?thesis by (cases "s_client_open (ses w i)") (simp_all add: prefix_prefix)
  next
    case False
    then show ?thesis using p that new by (simp add: passes_def)
  qed
  moreover have "sv_next w \<le> sv_next w'" using p by (simp add: passes_def)
  ultimately show ?thesis using new by (auto simp: relayed_def)
qed

lemma relayed_run:
  "run_events es w = Some w' \<Longrightarrow> permits_ok 0 w \<Longrightarrow> relayed b w \<Longrightarrow> relayed (\<lambda>i. b i @ read_bytes i es) w'"
proof (induction es arbitrary: w b)
  case (Cons e es)
  obtain v where v: "exec_event e w = Some v" "run_events es v = Some w'"
    using Cons.prems(1) by (cases "exec_event e w") (simp_all split: if_splits)
  from Cons.IH [OF v(2) permits_event [OF Cons.prems(2) v(1)] relayed_event [OF v(1) Cons.prems(2,3)]]
  show ?case by (simp add: read_bytes_def)
qed (simp add: read_bytes_def)

lemma proxy_run_relayed:
  assumes "proxy_run config es = Some w"
  shows "relayed (\<lambda>i. read_bytes i es) w"
proof -
  obtain w0 w1 where w0: "make_server config = Inr w0" "start_server True w0 = Some w1" "run_events es w1 = Some w"
    using assms by (auto simp: proxy_run_def split: sum.splits bind_splits)
  have "sv_sessions w0 = Map.empty"
    using w0(1) by (auto simp: make_server_def split: sum.splits)
  then have "sv_sessions w1 = Map.empty"
    using w0(2) by (auto simp: start_server_def post_def split: if_splits)
  then have "relayed (\<lambda>_. []) w1" by (simp add: relayed_def live_def)
  moreover have "permits_ok 0 w1" using reachable_ok [OF reachable.start [OF w0(1,2)]] by blast
  ultimately show ?thesis using relayed_run [OF w0(3), of "\<lambda>_. []"] by simp
qed

end
