(* ===== verification/ProxyThreads.thy ===== *)
theory ProxyThreads
  imports ProxyServer
begin

text \<open>
  The admission of the proxy with several worker threads. Every session has a strand of its own, the
  server has one, and closures on different strands run at the same time. A step is one action that
  another strand can see: a load or store of an \<open>std::atomic\<close> flag, a call of the limiter (which holds
  its mutex), a posted closure, an access to a permit; what a closure does between two such actions is
  part of the step before. The steps of all strands interleave freely.
\<close>

subsection \<open>The strands\<close>

text \<open>
  Where a session's strand stands: before its request is read, with a request that the limiter has
  queued, after posting it, between closures, in the four steps of the queue timer's handler, in the two
  steps that give a permit back, and after its end.
\<close>

datatype session_at =
    Unborn | Reading | Decided | Handed_Over | Idle
  | Expiring | Given_Back | Cleared
  | Releasing | Notifying | Gone

record tsession =
  ts_at :: session_at
  ts_queued :: bool
  ts_finished :: bool
  ts_permit :: bool
  ts_started :: bool
  ts_timed_out :: bool
  ts_timer :: bool
  ts_dead :: bool

definition unborn :: tsession where
  "unborn = \<lparr>ts_at = Unborn, ts_queued = False, ts_finished = False, ts_permit = False,
     ts_started = False, ts_timed_out = False, ts_timer = False, ts_dead = False\<rparr>"

text \<open>Where the server's strand stands in \<open>promote_queued_sessions\<close>; the number is the session it holds.\<close>

datatype server_at =
    Free | Looking | Seen nat | Refused nat | Got nat | Checked nat | Starting nat | Giving nat
  | Dropping nat | Posting nat

fun held_session :: "server_at \<Rightarrow> nat option" where
  "held_session Free = None"
| "held_session Looking = None"
| "held_session (Seen i) = Some i"
| "held_session (Refused i) = Some i"
| "held_session (Got i) = Some i"
| "held_session (Checked i) = Some i"
| "held_session (Starting i) = Some i"
| "held_session (Giving i) = Some i"
| "held_session (Dropping i) = Some i"
| "held_session (Posting i) = Some i"

record threads =
  th_limiter :: "unit limiter"
  th_ses :: "nat \<Rightarrow> tsession"
  th_next :: nat
  th_list :: "nat list"
  th_tasks :: "task list"
  th_server :: server_at
  th_stopping :: bool

definition th_upd :: "nat \<Rightarrow> (tsession \<Rightarrow> tsession) \<Rightarrow> threads \<Rightarrow> threads" where
  "th_upd i f w = w\<lparr>th_ses := (th_ses w)(i := f (th_ses w i))\<rparr>"

definition th_post :: "task \<Rightarrow> threads \<Rightarrow> threads" where
  "th_post t w = w\<lparr>th_tasks := th_tasks w @ [t]\<rparr>"

subsection \<open>The session's strand\<close>

text \<open>A request for a completion: what the limiter decides.\<close>

definition handle_chat :: "nat \<Rightarrow> threads \<Rightarrow> threads" where
  "handle_chat i w = (case try_acquire_or_queue 0 (th_limiter w) of ((d, p, _), l) \<Rightarrow>
     let w1 = w\<lparr>th_limiter := l\<rparr>
     in if d = Admit then th_upd i (\<lambda>s. s\<lparr>ts_at := Idle, ts_permit := valid p, ts_started := True\<rparr>) w1
        else if d = Queue then th_upd i (\<lambda>s. s\<lparr>ts_at := Decided\<rparr>) w1
        else th_upd i (\<lambda>s. s\<lparr>ts_at := Idle, ts_finished := True\<rparr>) w1)"

definition post_enqueue :: "nat \<Rightarrow> threads \<Rightarrow> threads" where
  "post_enqueue i w = th_post (Enqueue i) (th_upd i (\<lambda>s. s\<lparr>ts_at := Handed_Over\<rparr>) w)"

text \<open>The handler of the queue timer: load, \<open>cancel_queued\<close>, store, \<open>send_json_error\<close>.\<close>

definition timer_load :: "nat \<Rightarrow> threads \<Rightarrow> threads" where
  "timer_load i = th_upd i (\<lambda>s. if ts_queued s then s\<lparr>ts_timer := False, ts_at := Expiring\<rparr> else s\<lparr>ts_timer := False\<rparr>)"

definition timer_cancel :: "nat \<Rightarrow> threads \<Rightarrow> threads" where
  "timer_cancel i w = th_upd i (\<lambda>s. s\<lparr>ts_at := Given_Back\<rparr>)
     (w\<lparr>th_limiter := snd (cancel_queued (th_limiter w))\<rparr>)"

definition timer_store :: "nat \<Rightarrow> threads \<Rightarrow> threads" where
  "timer_store i = th_upd i (\<lambda>s. s\<lparr>ts_queued := False, ts_at := Cleared\<rparr>)"

definition timer_fail :: "nat \<Rightarrow> threads \<Rightarrow> threads" where
  "timer_fail i = th_upd i (\<lambda>s. if ts_finished s then s\<lparr>ts_at := Idle\<rparr>
     else s\<lparr>ts_finished := True, ts_timed_out := True, ts_at := Releasing\<rparr>)"

text \<open>
  \<open>finish_request\<close> or \<open>fail_with_status\<close>, called by a completion of a started request: the flag, then
  the permit, whose release calls the limiter and then its callback.
\<close>

definition end_begin :: "nat \<Rightarrow> threads \<Rightarrow> threads" where
  "end_begin i = th_upd i (\<lambda>s. if ts_finished s then s else s\<lparr>ts_finished := True, ts_at := Releasing\<rparr>)"

abbreviation at_rest :: "tsession \<Rightarrow> session_at" where
  "at_rest s \<equiv> if ts_dead s then Gone else Idle"

definition end_release :: "nat \<Rightarrow> threads \<Rightarrow> threads" where
  "end_release i w = (if \<not> ts_permit (th_ses w i) then th_upd i (\<lambda>s. s\<lparr>ts_at := at_rest s\<rparr>) w
     else case release_slot (th_limiter w) of (cb, l) \<Rightarrow>
       th_upd i (\<lambda>s. s\<lparr>ts_permit := False, ts_at := if cb = None then at_rest s else Notifying\<rparr>)
         (w\<lparr>th_limiter := l\<rparr>))"

definition end_notify :: "nat \<Rightarrow> threads \<Rightarrow> threads" where
  "end_notify i w = th_post Promote_Queued (th_upd i (\<lambda>s. s\<lparr>ts_at := at_rest s\<rparr>) w)"

text \<open>The destructor; the members, with the permit, are destroyed after its body.\<close>

definition destroy_begin :: "nat \<Rightarrow> threads \<Rightarrow> threads" where
  "destroy_begin i w = th_upd i (\<lambda>s. s\<lparr>ts_queued := False, ts_dead := True, ts_at := Releasing\<rparr>)
     (if ts_queued (th_ses w i) then w\<lparr>th_limiter := snd (cancel_queued (th_limiter w))\<rparr> else w)"

subsection \<open>The server's strand\<close>

fun strand_task :: "task \<Rightarrow> threads \<Rightarrow> threads" where
  "strand_task Do_Accept w = w"
| "strand_task (Enqueue i) w = (if th_stopping w then th_upd i (\<lambda>s. s\<lparr>ts_at := Idle\<rparr>) w
     else th_upd i (\<lambda>s. s\<lparr>ts_at := Idle, ts_queued := True, ts_timer := True\<rparr>)
            (w\<lparr>th_list := th_list w @ [i]\<rparr>))"
| "strand_task Promote_Queued w = w\<lparr>th_server := Looking\<rparr>"
| "strand_task Stop_Server w = w\<lparr>th_stopping := True, th_limiter := close_limiter (th_limiter w), th_list := []\<rparr>"

text \<open>The loop of \<open>promote_queued_sessions\<close> and, from \<open>Got\<close> on, \<open>try_start_from_queue\<close>.\<close>

definition promote_look :: "threads \<Rightarrow> threads" where
  "promote_look w = (case th_list w of [] \<Rightarrow> w\<lparr>th_server := Free\<rparr>
     | i # is \<Rightarrow> (let s = th_ses w i in
         w\<lparr>th_list := is, th_server := if ts_dead s \<or> \<not> ts_queued s then Looking else Seen i\<rparr>))"

definition promote_try :: "nat \<Rightarrow> threads \<Rightarrow> threads" where
  "promote_try i w = (case try_promote_queued 0 (th_limiter w) of (p, l) \<Rightarrow>
     w\<lparr>th_limiter := l, th_server := if valid p then Got i else Refused i\<rparr>)"

definition promote_refused :: "nat \<Rightarrow> threads \<Rightarrow> threads" where
  "promote_refused i w = (if is_queued_requests (snapshot (th_limiter w)) = 0 then w\<lparr>th_server := Looking\<rparr>
     else w\<lparr>th_list := i # th_list w, th_server := Free\<rparr>)"

definition start_check_queued :: "nat \<Rightarrow> threads \<Rightarrow> threads" where
  "start_check_queued i w = w\<lparr>th_server := if ts_queued (th_ses w i) then Checked i else Dropping i\<rparr>"

definition start_check_finished :: "nat \<Rightarrow> threads \<Rightarrow> threads" where
  "start_check_finished i w = w\<lparr>th_server := if ts_finished (th_ses w i) then Dropping i else Starting i\<rparr>"

definition start_store :: "nat \<Rightarrow> threads \<Rightarrow> threads" where
  "start_store i w = th_upd i (\<lambda>s. s\<lparr>ts_queued := False\<rparr>) (w\<lparr>th_server := Giving i\<rparr>)"

text \<open>The assignment releases a permit that the session already has.\<close>

definition start_give :: "nat \<Rightarrow> threads \<Rightarrow> threads" where
  "start_give i w =
     (let w1 = (if \<not> ts_permit (th_ses w i) then w else case release_slot (th_limiter w) of (cb, l) \<Rightarrow>
        (if cb = None then id else th_post Promote_Queued) (w\<lparr>th_limiter := l\<rparr>))
      in th_upd i (\<lambda>s. s\<lparr>ts_permit := True, ts_started := True\<rparr>) (w1\<lparr>th_server := Looking\<rparr>))"

text \<open>A permit that is not taken is released at the end of \<open>try_start_from_queue\<close>.\<close>

definition drop_release :: "nat \<Rightarrow> threads \<Rightarrow> threads" where
  "drop_release i w = (case release_slot (th_limiter w) of (cb, l) \<Rightarrow>
     w\<lparr>th_limiter := l, th_server := if cb = None then Looking else Posting i\<rparr>)"

definition drop_notify :: "threads \<Rightarrow> threads" where
  "drop_notify w = th_post Promote_Queued (w\<lparr>th_server := Looking\<rparr>)"

fun strand_step :: "threads \<Rightarrow> threads option" where
  "strand_step w = (case th_server w of
     Free \<Rightarrow> (case th_tasks w of [] \<Rightarrow> None | t # ts \<Rightarrow> Some (strand_task t (w\<lparr>th_tasks := ts\<rparr>)))
   | Looking \<Rightarrow> Some (promote_look w)
   | Seen i \<Rightarrow> Some (promote_try i w)
   | Refused i \<Rightarrow> Some (promote_refused i w)
   | Got i \<Rightarrow> Some (start_check_queued i w)
   | Checked i \<Rightarrow> Some (start_check_finished i w)
   | Starting i \<Rightarrow> Some (start_store i w)
   | Giving i \<Rightarrow> Some (start_give i w)
   | Dropping i \<Rightarrow> Some (drop_release i w)
   | Posting i \<Rightarrow> Some (drop_notify w))"

subsection \<open>All strands\<close>

text \<open>
  The environment chooses the strand that moves. \<open>Timer_Off\<close> is the handler of a cancelled timer, which
  does nothing; a cancelled timer that had expired before still calls its handler as an expired one.
  A session dies when no closure holds it.
\<close>

datatype move =
    Connect_New | Handle nat | Post_Enqueue nat
  | Timer_Load nat | Timer_Off nat | Timer_Cancel nat | Timer_Store nat | Timer_Fail nat
  | End_Begin nat | End_Release nat | End_Notify nat | Destroy nat
  | Stop_Request | Strand

definition connect_new :: "threads \<Rightarrow> threads" where
  "connect_new w = th_upd (th_next w) (\<lambda>_. unborn\<lparr>ts_at := Reading\<rparr>) (w\<lparr>th_next := th_next w + 1\<rparr>)"

definition at_idle :: "nat \<Rightarrow> threads \<Rightarrow> bool" where
  "at_idle i w \<longleftrightarrow> i < th_next w \<and> ts_at (th_ses w i) = Idle"

fun move_exec :: "move \<Rightarrow> threads \<Rightarrow> threads option" where
  "move_exec Connect_New w = Some (connect_new w)"
| "move_exec (Handle i) w = (if i < th_next w \<and> ts_at (th_ses w i) = Reading then Some (handle_chat i w) else None)"
| "move_exec (Post_Enqueue i) w =
     (if i < th_next w \<and> ts_at (th_ses w i) = Decided then Some (post_enqueue i w) else None)"
| "move_exec (Timer_Load i) w = (if at_idle i w \<and> ts_timer (th_ses w i) then Some (timer_load i w) else None)"
| "move_exec (Timer_Off i) w =
     (if at_idle i w \<and> ts_timer (th_ses w i) \<and> (ts_finished (th_ses w i) \<or> \<not> ts_queued (th_ses w i))
      then Some (th_upd i (\<lambda>s. s\<lparr>ts_timer := False\<rparr>) w) else None)"
| "move_exec (Timer_Cancel i) w =
     (if i < th_next w \<and> ts_at (th_ses w i) = Expiring then Some (timer_cancel i w) else None)"
| "move_exec (Timer_Store i) w =
     (if i < th_next w \<and> ts_at (th_ses w i) = Given_Back then Some (timer_store i w) else None)"
| "move_exec (Timer_Fail i) w =
     (if i < th_next w \<and> ts_at (th_ses w i) = Cleared then Some (timer_fail i w) else None)"
| "move_exec (End_Begin i) w = (if at_idle i w \<and> ts_started (th_ses w i) then Some (end_begin i w) else None)"
| "move_exec (End_Release i) w =
     (if i < th_next w \<and> ts_at (th_ses w i) = Releasing then Some (end_release i w) else None)"
| "move_exec (End_Notify i) w =
     (if i < th_next w \<and> ts_at (th_ses w i) = Notifying then Some (end_notify i w) else None)"
| "move_exec (Destroy i) w =
     (if (at_idle i w \<or> i < th_next w \<and> ts_at (th_ses w i) = Reading) \<and> \<not> ts_timer (th_ses w i) \<and>
         Enqueue i \<notin> set (th_tasks w) \<and> held_session (th_server w) \<noteq> Some i
      then Some (destroy_begin i w) else None)"
| "move_exec Stop_Request w = Some (th_post Stop_Server w)"
| "move_exec Strand w = strand_step w"

fun run_moves :: "move list \<Rightarrow> threads \<Rightarrow> threads option" where
  "run_moves [] w = Some w"
| "run_moves (m # ms) w = (case move_exec m w of None \<Rightarrow> None | Some w' \<Rightarrow> run_moves ms w')"

definition start_threads :: "size_t \<Rightarrow> size_t \<Rightarrow> threads result" where
  "start_threads m q = (case new_limiter m q of Inl e \<Rightarrow> Inl e
     | Inr l \<Rightarrow> Inr \<lparr>th_limiter = set_on_release (Some ()) l, th_ses = \<lambda>_. unborn, th_next = 0, th_list = [],
         th_tasks = [], th_server = Free, th_stopping = False\<rparr>)"

inductive interleaves :: "size_t \<Rightarrow> size_t \<Rightarrow> threads \<Rightarrow> bool" for m q where
  start: "start_threads m q = Inr w \<Longrightarrow> interleaves m q w"
| move: "interleaves m q w \<Longrightarrow> move_exec x w = Some w' \<Longrightarrow> interleaves m q w'"

subsection \<open>What holds in every interleaving\<close>

text \<open>A session that occupies a place in the queue, as far as its own strand and its flag tell.\<close>

definition waits :: "tsession \<Rightarrow> bool" where
  "waits s \<longleftrightarrow> ts_at s = Decided \<or> ts_at s = Handed_Over \<or> ts_queued s \<and> ts_at s \<noteq> Given_Back"

definition early :: "tsession \<Rightarrow> bool" where
  "early s \<longleftrightarrow> ts_at s = Unborn \<or> ts_at s = Reading \<or> ts_at s = Decided \<or> ts_at s = Handed_Over"

text \<open>A session whose place the promotion has taken, and a permit on its way to a session.\<close>

definition promoting :: "threads \<Rightarrow> nat \<Rightarrow> bool" where
  "promoting w i \<longleftrightarrow> th_server w = Got i \<or> th_server w = Checked i \<or> th_server w = Starting i"

fun in_hand :: "server_at \<Rightarrow> nat" where
  "in_hand (Got i) = 1"
| "in_hand (Checked i) = 1"
| "in_hand (Starting i) = 1"
| "in_hand (Giving i) = 1"
| "in_hand (Dropping i) = 1"
| "in_hand _ = 0"

definition permits_held :: "threads \<Rightarrow> nat" where
  "permits_held w = card {i. i < th_next w \<and> ts_permit (th_ses w i)}"

definition places :: "threads \<Rightarrow> nat" where
  "places w = card {i. i < th_next w \<and> waits (th_ses w i) \<and> \<not> promoting w i}"

definition known :: "threads \<Rightarrow> nat \<Rightarrow> bool" where
  "known w i \<longleftrightarrow> i \<in> set (th_list w) \<or> held_session (th_server w) = Some i"

definition threads_ok :: "threads \<Rightarrow> bool" where
  "threads_ok w \<longleftrightarrow> limiter_ok (th_limiter w) \<and> (th_stopping w \<longrightarrow> closed (th_limiter w)) \<and>
     (\<forall>i. early (th_ses w i) \<longrightarrow> \<not> ts_queued (th_ses w i) \<and> \<not> ts_permit (th_ses w i) \<and> \<not> known w i) \<and>
     (\<forall>i\<ge>th_next w. th_ses w i = unborn) \<and> (\<forall>i. Enqueue i \<in> set (th_tasks w) \<longrightarrow> i < th_next w) \<and>
     unat (current_inflight (th_limiter w)) = permits_held w + in_hand (th_server w) \<and>
     unat (queued_requests (th_limiter w)) \<le> places w"

text \<open>Counting after one member changes.\<close>

lemma card_change:
  assumes "i < (n :: nat)" "\<And>j. j \<noteq> i \<Longrightarrow> P' j = P j"
  shows "card {j. j < n \<and> P' j} + of_bool (P i) = card {j. j < n \<and> P j} + of_bool (P' i)"
proof -
  let ?A = "{j. j < n \<and> P j} - {i}"
  have split: "card {j. j < n \<and> Q j} = card ({j. j < n \<and> Q j} - {i}) + of_bool (Q i)" for Q
    using assms(1) card_Suc_Diff1 [of "{j. j < n \<and> Q j}" i] by (cases "Q i") simp_all
  have "{j. j < n \<and> P' j} - {i} = ?A" using assms(2) by auto
  then show ?thesis using split [of P] split [of P'] by simp
qed

lemma known_below: "threads_ok w \<Longrightarrow> known w i \<Longrightarrow> i < th_next w"
proof (rule ccontr)
  assume "threads_ok w" "known w i" "\<not> i < th_next w"
  moreover from this have "early (th_ses w i)" by (simp add: threads_ok_def early_def unborn_def)
  ultimately show False by (simp add: threads_ok_def)
qed

text \<open>A step that changes one session at most.\<close>

lemma threads_ok_change:
  assumes ok: "threads_ok w" and i: "i < th_next w"
    and w': "th_ses w' = (th_ses w)(i := t)" "th_next w' = th_next w"
    and lim: "limiter_ok (th_limiter w')" "th_stopping w' \<Longrightarrow> closed (th_limiter w')"
    and tasks: "\<And>j. Enqueue j \<in> set (th_tasks w') \<Longrightarrow> j < th_next w"
    and known: "\<And>j. known w' j \<Longrightarrow> known w j \<or> j = i \<and> \<not> early t"
    and early: "early t \<Longrightarrow> early (th_ses w i) \<and> \<not> ts_queued t \<and> \<not> ts_permit t"
    and others: "\<And>j. j \<noteq> i \<Longrightarrow> promoting w' j = promoting w j"
    and inflight: "unat (current_inflight (th_limiter w')) + of_bool (ts_permit (th_ses w i)) + in_hand (th_server w) =
      unat (current_inflight (th_limiter w)) + of_bool (ts_permit t) + in_hand (th_server w')"
    and queue: "unat (queued_requests (th_limiter w')) = 0 \<or>
      unat (queued_requests (th_limiter w')) + of_bool (waits (th_ses w i) \<and> \<not> promoting w i) \<le>
      unat (queued_requests (th_limiter w)) + of_bool (waits t \<and> \<not> promoting w' i)"
  shows "threads_ok w'"
proof -
  have inv: "limiter_ok (th_limiter w)"
    "\<And>j. early (th_ses w j) \<Longrightarrow> \<not> ts_queued (th_ses w j) \<and> \<not> ts_permit (th_ses w j) \<and> \<not> known w j"
    "\<And>j. th_next w \<le> j \<Longrightarrow> th_ses w j = unborn"
    "unat (current_inflight (th_limiter w)) = permits_held w + in_hand (th_server w)"
    "unat (queued_requests (th_limiter w)) \<le> places w"
    using ok by (simp_all add: threads_ok_def)
  have "permits_held w' + of_bool (ts_permit (th_ses w i)) = permits_held w + of_bool (ts_permit t)"
    using card_change [OF i, of "\<lambda>j. ts_permit (th_ses w' j)" "\<lambda>j. ts_permit (th_ses w j)"] w'
    by (simp add: permits_held_def)
  then have "unat (current_inflight (th_limiter w')) = permits_held w' + in_hand (th_server w')"
    using inflight inv(4) by simp
  moreover have "places w' + of_bool (waits (th_ses w i) \<and> \<not> promoting w i) =
      places w + of_bool (waits t \<and> \<not> promoting w' i)"
    using card_change [OF i, of "\<lambda>j. waits (th_ses w' j) \<and> \<not> promoting w' j" "\<lambda>j. waits (th_ses w j) \<and> \<not> promoting w j"]
      w' others by (simp add: places_def)
  then have "unat (queued_requests (th_limiter w')) \<le> places w'" using queue inv(5) by linarith
  moreover have "\<not> ts_queued (th_ses w' j) \<and> \<not> ts_permit (th_ses w' j) \<and> \<not> known w' j" if "early (th_ses w' j)" for j
    using that inv(2) [of j] known [of j] early w'(1) by (cases "j = i") auto
  moreover have "th_ses w' j = unborn" if "th_next w' \<le> j" for j using that i inv(3) w' by simp
  ultimately show ?thesis using lim tasks w'(2) by (simp add: threads_ok_def)
qed

lemma threads_ok_server:
  assumes "threads_ok w" "th_ses w' = th_ses w" "th_next w' = th_next w"
    and "limiter_ok (th_limiter w')" "th_stopping w' \<Longrightarrow> closed (th_limiter w')"
    and "\<And>j. Enqueue j \<in> set (th_tasks w') \<Longrightarrow> j < th_next w" "\<And>j. known w' j \<Longrightarrow> known w j"
    and "\<And>j. promoting w' j \<Longrightarrow> promoting w j"
    and "unat (current_inflight (th_limiter w')) + in_hand (th_server w) =
      unat (current_inflight (th_limiter w)) + in_hand (th_server w')"
    and "unat (queued_requests (th_limiter w')) \<le> unat (queued_requests (th_limiter w))"
  shows "threads_ok w'"
proof -
  have inv: "\<And>j. early (th_ses w j) \<Longrightarrow> \<not> ts_queued (th_ses w j) \<and> \<not> ts_permit (th_ses w j) \<and> \<not> known w j"
    "unat (current_inflight (th_limiter w)) = permits_held w + in_hand (th_server w)"
    "unat (queued_requests (th_limiter w)) \<le> places w" "\<forall>j\<ge>th_next w. th_ses w j = unborn"
    using assms(1) by (simp_all add: threads_ok_def)
  have "permits_held w' = permits_held w" using assms(2,3) by (simp add: permits_held_def)
  moreover have "places w \<le> places w'" unfolding places_def using assms(2,3,8) by (intro card_mono) auto
  ultimately show ?thesis using inv assms(2-7,9,10) by (auto simp: threads_ok_def)
qed

lemma th_upd_fields [simp]:
  "th_ses (th_upd i f w) = (th_ses w)(i := f (th_ses w i))" "th_limiter (th_upd i f w) = th_limiter w"
  "th_next (th_upd i f w) = th_next w" "th_list (th_upd i f w) = th_list w" "th_tasks (th_upd i f w) = th_tasks w"
  "th_server (th_upd i f w) = th_server w" "th_stopping (th_upd i f w) = th_stopping w"
  by (simp_all add: th_upd_def)

lemma th_post_fields [simp]:
  "th_ses (th_post t w) = th_ses w" "th_limiter (th_post t w) = th_limiter w" "th_next (th_post t w) = th_next w"
  "th_list (th_post t w) = th_list w" "th_tasks (th_post t w) = th_tasks w @ [t]"
  "th_server (th_post t w) = th_server w" "th_stopping (th_post t w) = th_stopping w"
  by (simp_all add: th_post_def)

lemma known_simps [simp]: "known (th_upd i f w) = known w" "known (th_post t w) = known w"
  "known (w\<lparr>th_limiter := l\<rparr>) = known w" "known (w\<lparr>th_tasks := ts\<rparr>) = known w"
  by (simp_all add: known_def fun_eq_iff)

lemma promoting_simps [simp]: "promoting (th_upd i f w) = promoting w" "promoting (th_post t w) = promoting w"
  "promoting (w\<lparr>th_limiter := l\<rparr>) = promoting w" "promoting (w\<lparr>th_tasks := ts\<rparr>) = promoting w"
  by (simp_all add: promoting_def fun_eq_iff)

lemma promoting_known: "promoting w i \<Longrightarrow> known w i"
  by (auto simp: promoting_def known_def)

lemma cancel_counts:
  assumes "limiter_ok l" "snd (cancel_queued l) = l'"
  shows "limiter_ok l'" "current_inflight l' = current_inflight l" "closed l' = closed l"
    "unat (queued_requests l') = unat (queued_requests l) - 1"
  using assms limiter_ok_step(3) [OF assms(1), of "fst (cancel_queued l)" l']
  by (auto simp: cancel_queued_def size_simps split: if_splits)

lemma release_counts:
  assumes "limiter_ok l" "release_slot l = (cb, l')" "0 < unat (current_inflight l)"
  shows "limiter_ok l'" "unat (current_inflight l) = Suc (unat (current_inflight l'))" "closed l' = closed l"
    "queued_requests l' = queued_requests l"
proof -
  have "current_inflight l \<noteq> 0" using assms(3) by auto
  then have "l' = l\<lparr>current_inflight := current_inflight l - 1\<rparr>" "unat (current_inflight l - 1) = unat (current_inflight l) - 1"
    using assms(2) by (simp_all add: release_slot_def unat_minus_one)
  then show "limiter_ok l'" "unat (current_inflight l) = Suc (unat (current_inflight l'))" "closed l' = closed l"
    "queued_requests l' = queued_requests l"
    using assms(1,3) by (auto simp: limiter_ok_def word_le_nat_alt)
qed

lemma permit_counted: "threads_ok w \<Longrightarrow> i < th_next w \<Longrightarrow> ts_permit (th_ses w i) \<Longrightarrow> 0 < unat (current_inflight (th_limiter w))"
proof -
  assume a: "threads_ok w" "i < th_next w" "ts_permit (th_ses w i)"
  then have "0 < permits_held w" by (auto simp: permits_held_def card_gt_0_iff)
  then show ?thesis using a(1) by (simp add: threads_ok_def)
qed

lemma threads_okD:
  assumes "threads_ok w"
  shows "limiter_ok (th_limiter w)" "th_stopping w \<Longrightarrow> closed (th_limiter w)"
    "early (th_ses w i) \<Longrightarrow> \<not> ts_queued (th_ses w i) \<and> \<not> ts_permit (th_ses w i) \<and> \<not> known w i"
    "Enqueue i \<in> set (th_tasks w) \<Longrightarrow> i < th_next w"
  using assms by (auto simp: threads_ok_def)

text \<open>The steps of a session's strand.\<close>

lemma handle_keeps:
  assumes "threads_ok w" "i < th_next w" "ts_at (th_ses w i) = Reading"
  shows "threads_ok (handle_chat i w)"
proof -
  have e: "early (th_ses w i)" using assms(3) by (simp add: early_def)
  note d = threads_okD [OF assms(1)] and s = threads_okD(3) [OF assms(1) e]
  have np: "\<not> promoting w i" using s promoting_known by blast
  obtain x p n l where l: "try_acquire_or_queue 0 (th_limiter w) = ((x, p, n), l)" by (metis prod_cases3 prod.collapse)
  have lim: "limiter_ok l" "closed l = closed (th_limiter w)" using limiter_ok_step(1) [OF d(1) l] l
    by (auto simp: try_acquire_or_queue_def Let_def split: if_splits)
  have c: "unat (current_inflight l) = unat (current_inflight (th_limiter w)) + of_bool (x = Admit)" "x = Admit \<Longrightarrow> valid p"
    "unat (queued_requests l) = unat (queued_requests (th_limiter w)) + of_bool (x = Queue)"
    using l by (auto simp: try_acquire_or_queue_def Let_def valid_def new_permit_def size_simps split: if_splits)
  let ?t = "if x = Admit then (th_ses w i)\<lparr>ts_at := Idle, ts_permit := True, ts_started := True\<rparr>
    else if x = Queue then (th_ses w i)\<lparr>ts_at := Decided\<rparr> else (th_ses w i)\<lparr>ts_at := Idle, ts_finished := True\<rparr>"
  have eq: "handle_chat i w = th_upd i (\<lambda>_. ?t) (w\<lparr>th_limiter := l\<rparr>)"
    using l c(2) by (auto simp: handle_chat_def th_upd_def)
  show ?thesis unfolding eq
    by (rule threads_ok_change [OF assms(1,2), of _ ?t])
      (use lim d c s np assms(3) in \<open>auto simp: early_def waits_def\<close>)
qed

lemma session_keeps:
  assumes ok: "threads_ok w" and i: "i < th_next w"
  shows "ts_at (th_ses w i) = Decided \<Longrightarrow> threads_ok (post_enqueue i w)"
    and "ts_at (th_ses w i) = Idle \<Longrightarrow> threads_ok (timer_load i w)"
    and "ts_at (th_ses w i) = Idle \<Longrightarrow> threads_ok (th_upd i (\<lambda>s. s\<lparr>ts_timer := False\<rparr>) w)"
    and "ts_at (th_ses w i) = Expiring \<Longrightarrow> threads_ok (timer_cancel i w)"
    and "ts_at (th_ses w i) = Given_Back \<Longrightarrow> threads_ok (timer_store i w)"
    and "ts_at (th_ses w i) = Cleared \<Longrightarrow> threads_ok (timer_fail i w)"
    and "ts_at (th_ses w i) = Idle \<Longrightarrow> threads_ok (end_begin i w)"
    and "ts_at (th_ses w i) = Notifying \<Longrightarrow> threads_ok (end_notify i w)"
proof -
  note d = threads_okD [OF ok]
  note c = threads_ok_change [OF ok i]
  show "threads_ok (post_enqueue i w)" if "ts_at (th_ses w i) = Decided"
    by (rule c [of _ "(th_ses w i)\<lparr>ts_at := Handed_Over\<rparr>"])
      (use d i that in \<open>auto simp: post_enqueue_def early_def waits_def\<close>)
  show "threads_ok (timer_load i w)" if "ts_at (th_ses w i) = Idle"
    by (rule c [of _ "(th_ses w i)\<lparr>ts_timer := False, ts_at := if ts_queued (th_ses w i) then Expiring else Idle\<rparr>"])
      (use d i that in \<open>auto simp: timer_load_def early_def waits_def split: if_splits\<close>)
  show "threads_ok (th_upd i (\<lambda>s. s\<lparr>ts_timer := False\<rparr>) w)" if "ts_at (th_ses w i) = Idle"
    by (rule c [of _ "(th_ses w i)\<lparr>ts_timer := False\<rparr>"]) (use d i that in \<open>auto simp: early_def waits_def\<close>)
  show "threads_ok (timer_cancel i w)" if "ts_at (th_ses w i) = Expiring"
    by (rule c [of _ "(th_ses w i)\<lparr>ts_at := Given_Back\<rparr>"])
      (use d i that cancel_counts [OF d(1) refl] in \<open>auto simp: timer_cancel_def early_def waits_def\<close>)
  show "threads_ok (timer_store i w)" if "ts_at (th_ses w i) = Given_Back"
    by (rule c [of _ "(th_ses w i)\<lparr>ts_queued := False, ts_at := Cleared\<rparr>"])
      (use d i that in \<open>auto simp: timer_store_def early_def waits_def\<close>)
  show "threads_ok (timer_fail i w)" if "ts_at (th_ses w i) = Cleared"
    by (rule c [of _ "if ts_finished (th_ses w i) then (th_ses w i)\<lparr>ts_at := Idle\<rparr>
        else (th_ses w i)\<lparr>ts_finished := True, ts_timed_out := True, ts_at := Releasing\<rparr>"])
      (use d i that in \<open>auto simp: timer_fail_def early_def waits_def split: if_splits\<close>)
  show "threads_ok (end_begin i w)" if "ts_at (th_ses w i) = Idle"
    by (rule c [of _ "if ts_finished (th_ses w i) then th_ses w i
        else (th_ses w i)\<lparr>ts_finished := True, ts_at := Releasing\<rparr>"])
      (use d i that in \<open>auto simp: end_begin_def early_def waits_def split: if_splits\<close>)
  show "threads_ok (end_notify i w)" if "ts_at (th_ses w i) = Notifying"
    by (rule c [of _ "(th_ses w i)\<lparr>ts_at := at_rest (th_ses w i)\<rparr>"])
      (use d i that in \<open>auto simp: end_notify_def early_def waits_def split: if_splits\<close>)
qed

lemma end_release_keeps:
  assumes "threads_ok w" "i < th_next w" "ts_at (th_ses w i) = Releasing"
  shows "threads_ok (end_release i w)"
proof (cases "ts_permit (th_ses w i)")
  case False
  then show ?thesis
    by (intro threads_ok_change [OF assms(1,2), of _ "(th_ses w i)\<lparr>ts_at := at_rest (th_ses w i)\<rparr>"])
      (use threads_okD [OF assms(1)] assms(3) in \<open>auto simp: end_release_def early_def waits_def split: if_splits\<close>)
next
  case True
  obtain cb l where l: "release_slot (th_limiter w) = (cb, l)" by fastforce
  note r = release_counts [OF threads_okD(1) [OF assms(1)] l permit_counted [OF assms(1,2) True]]
  let ?t = "(th_ses w i)\<lparr>ts_permit := False, ts_at := if cb = None then at_rest (th_ses w i) else Notifying\<rparr>"
  show ?thesis
    by (rule threads_ok_change [OF assms(1,2), of _ ?t])
      (use threads_okD [OF assms(1)] r True l assms(3) in \<open>auto simp: end_release_def early_def waits_def split: if_splits\<close>)
qed

lemma destroy_keeps:
  assumes "threads_ok w" "i < th_next w" "ts_at (th_ses w i) = Idle \<or> ts_at (th_ses w i) = Reading"
  shows "threads_ok (destroy_begin i w)"
proof -
  note d = threads_okD [OF assms(1)] and c = cancel_counts [OF threads_okD(1) [OF assms(1)] refl]
  let ?l = "if ts_queued (th_ses w i) then snd (cancel_queued (th_limiter w)) else th_limiter w"
  let ?t = "(th_ses w i)\<lparr>ts_queued := False, ts_dead := True, ts_at := Releasing\<rparr>"
  have eq: "destroy_begin i w = th_upd i (\<lambda>_. ?t) (w\<lparr>th_limiter := ?l\<rparr>)" by (simp add: destroy_begin_def th_upd_def)
  have l: "limiter_ok ?l" "closed ?l = closed (th_limiter w)" "current_inflight ?l = current_inflight (th_limiter w)"
    "unat (queued_requests ?l) = unat (queued_requests (th_limiter w)) - of_bool (ts_queued (th_ses w i))"
    using d(1) c by simp_all
  have "waits (th_ses w i) = ts_queued (th_ses w i)" "\<not> waits ?t" "\<not> early ?t" using assms(3) by (auto simp: waits_def early_def)
  then show ?thesis unfolding eq using d l by (intro threads_ok_change [OF assms(1,2), of _ ?t]) auto
qed

text \<open>The steps of the server's strand.\<close>

lemma close_counts: "limiter_ok (close_limiter l)" if "limiter_ok l"
  using limiter_ok_step(4) [OF that] .

lemma task_keeps_threads:
  assumes "threads_ok w" "th_server w = Free" "th_tasks w = t # ts"
  shows "threads_ok (strand_task t (w\<lparr>th_tasks := ts\<rparr>))"
proof (cases t)
  case (Enqueue i)
  have i: "i < th_next w" using threads_okD(4) [OF assms(1)] assms(3) Enqueue by simp
  note d = threads_okD [OF assms(1)]
  have np: "\<not> promoting w j" for j using assms(2) by (simp add: promoting_def)
  show ?thesis
  proof (cases "th_stopping w")
    case True
    then have "queued_requests (th_limiter w) = 0" using d(1,2) by (simp add: limiter_ok_def)
    then show ?thesis using True Enqueue assms(3) d
      by (intro threads_ok_change [OF assms(1) i, of _ "(th_ses w i)\<lparr>ts_at := Idle\<rparr>"]) (auto simp: early_def)
  next
    case False
    let ?t = "(th_ses w i)\<lparr>ts_at := Idle, ts_queued := True, ts_timer := True\<rparr>"
    have "\<not> early ?t" "waits ?t" by (simp_all add: early_def waits_def)
    then show ?thesis using False Enqueue assms(3) d np
      by (intro threads_ok_change [OF assms(1) i, of _ ?t]) (auto simp: known_def promoting_def)
  qed
qed (use threads_okD [OF assms(1)] assms(2,3) close_counts limiter_ok_step(5) in
  \<open>auto intro!: threads_ok_server [OF assms(1)] simp: known_def promoting_def close_limiter_def limiter_ok_def\<close>)

lemma look_keeps:
  assumes "threads_ok w" "th_server w = Looking"
  shows "threads_ok (promote_look w)"
proof (cases "th_list w")
  case Nil
  then show ?thesis using threads_okD(1,2,4) [OF assms(1)] assms(2)
    by (intro threads_ok_server [OF assms(1)]) (auto simp: promote_look_def known_def promoting_def)
next
  case (Cons i js)
  then show ?thesis using threads_okD(1,2,4) [OF assms(1)] assms(2)
    by (intro threads_ok_server [OF assms(1)])
      (auto simp: promote_look_def known_def promoting_def Let_def split: if_splits)
qed

lemma refused_keeps:
  assumes "threads_ok w" "th_server w = Refused i"
  shows "threads_ok (promote_refused i w)"
  using threads_okD(1,2,4) [OF assms(1)] assms(2)
  by (intro threads_ok_server [OF assms(1)]) (auto simp: promote_refused_def known_def promoting_def split: if_splits)

lemma check_keeps:
  assumes "threads_ok w"
  shows "th_server w = Got i \<Longrightarrow> threads_ok (start_check_queued i w)"
    and "th_server w = Checked i \<Longrightarrow> threads_ok (start_check_finished i w)"
  using threads_okD(1,2,4) [OF assms] by (auto intro!: threads_ok_server [OF assms]
    simp: start_check_queued_def start_check_finished_def known_def promoting_def split: if_splits)

lemma drop_keeps:
  assumes "threads_ok w"
  shows "th_server w = Dropping i \<Longrightarrow> threads_ok (drop_release i w)"
    and "th_server w = Posting i \<Longrightarrow> threads_ok (drop_notify w)"
proof -
  note d = threads_okD [OF assms]
  show "threads_ok (drop_release i w)" if s: "th_server w = Dropping i"
  proof -
    obtain cb l where l: "release_slot (th_limiter w) = (cb, l)" by fastforce
    have "0 < unat (current_inflight (th_limiter w))" using assms s by (simp add: threads_ok_def)
    note r = release_counts [OF d(1) l this]
    show ?thesis using l r d s
      by (intro threads_ok_server [OF assms]) (auto simp: drop_release_def known_def promoting_def split: if_splits)
  qed
  show "threads_ok (drop_notify w)" if "th_server w = Posting i"
    using that d by (intro threads_ok_server [OF assms]) (auto simp: drop_notify_def known_def promoting_def)
qed

lemma holding:
  assumes "threads_ok w" "held_session (th_server w) = Some i"
  shows "i < th_next w" "\<not> early (th_ses w i)"
proof -
  have k: "known w i" using assms(2) by (simp add: known_def)
  then show "i < th_next w" using known_below assms(1) by blast
  show "\<not> early (th_ses w i)" using threads_okD(3) [OF assms(1)] k by blast
qed

lemma try_keeps:
  assumes "threads_ok w" "th_server w = Seen i"
  shows "threads_ok (promote_try i w)"
proof -
  note d = threads_okD [OF assms(1)]
  have i: "i < th_next w" "\<not> early (th_ses w i)" using holding [OF assms(1)] assms(2) by simp_all
  obtain p l where l: "try_promote_queued 0 (th_limiter w) = (p, l)" by fastforce
  have lim: "limiter_ok l" "closed l = closed (th_limiter w)" using limiter_ok_step(2) [OF d(1) l] l
    by (auto simp: try_promote_queued_def split: if_splits)
  have c: "unat (current_inflight l) = unat (current_inflight (th_limiter w)) + of_bool (valid p)"
    "unat (queued_requests l) + of_bool (valid p) = unat (queued_requests (th_limiter w))"
    using l by (auto simp: try_promote_queued_def valid_def new_permit_def no_permit_def size_simps unat_gt_0 not_le split: if_splits)
  show ?thesis
    by (rule threads_ok_change [OF assms(1) i(1), of _ "th_ses w i"])
      (use l lim c d i assms(2) in \<open>auto simp: promote_try_def known_def promoting_def split: if_splits\<close>)
qed

lemma store_keeps:
  assumes "threads_ok w" "th_server w = Starting i"
  shows "threads_ok (start_store i w)"
proof -
  have i: "i < th_next w" "\<not> early (th_ses w i)" using holding [OF assms(1)] assms(2) by simp_all
  then have "\<not> early ((th_ses w i)\<lparr>ts_queued := False\<rparr>)" by (simp add: early_def)
  then show ?thesis using threads_okD [OF assms(1)] i assms(2)
    by (intro threads_ok_change [OF assms(1) i(1), of _ "(th_ses w i)\<lparr>ts_queued := False\<rparr>"])
      (auto simp: start_store_def known_def promoting_def)
qed

lemma give_keeps:
  assumes "threads_ok w" "th_server w = Giving i"
  shows "threads_ok (start_give i w)"
proof -
  note d = threads_okD [OF assms(1)]
  have i: "i < th_next w" "\<not> early (th_ses w i)" using holding [OF assms(1)] assms(2) by simp_all
  obtain cb l where l: "release_slot (th_limiter w) = (cb, l)" by fastforce
  let ?t = "(th_ses w i)\<lparr>ts_permit := True, ts_started := True\<rparr>"
  have t: "\<not> early ?t" "waits ?t = waits (th_ses w i)" using i(2) by (simp_all add: early_def waits_def)
  show ?thesis
  proof (cases "ts_permit (th_ses w i)")
    case True
    note r = release_counts [OF d(1) l permit_counted [OF assms(1) i(1) True]]
    define v where "v = (if cb = None then id else th_post Promote_Queued) (w\<lparr>th_limiter := l\<rparr>)"
    have v: "th_ses v = th_ses w" "th_limiter v = l" "th_next v = th_next w" "th_list v = th_list w"
      "th_stopping v = th_stopping w" "\<And>j. Enqueue j \<in> set (th_tasks v) = (Enqueue j \<in> set (th_tasks w))"
      by (auto simp: v_def)
    have eq: "start_give i w = th_upd i (\<lambda>_. ?t) (v\<lparr>th_server := Looking\<rparr>)"
      using True l v by (simp add: start_give_def v_def th_upd_def)
    show ?thesis unfolding eq using r t d i assms(2) True v
      by (intro threads_ok_change [OF assms(1) i(1), of _ ?t]) (auto simp: known_def promoting_def)
  next
    case False
    then show ?thesis using t d i assms(2)
      by (intro threads_ok_change [OF assms(1) i(1), of _ ?t]) (auto simp: start_give_def known_def promoting_def)
  qed
qed

lemma strand_keeps:
  assumes "threads_ok w" "strand_step w = Some w'"
  shows "threads_ok w'"
proof (cases "th_server w")
  case Free
  then obtain t ts where "th_tasks w = t # ts" "w' = strand_task t (w\<lparr>th_tasks := ts\<rparr>)"
    using assms(2) by (auto split: list.splits)
  then show ?thesis using task_keeps_threads [OF assms(1) Free] by simp
qed (use assms in \<open>auto intro: look_keeps try_keeps refused_keeps check_keeps store_keeps give_keeps drop_keeps\<close>)

lemma connect_keeps: "threads_ok w \<Longrightarrow> threads_ok (connect_new w)"
proof -
  assume ok: "threads_ok w"
  let ?w = "connect_new w"
  have n: "th_ses w (th_next w) = unborn" using ok by (simp add: threads_ok_def)
  have u: "\<not> waits (th_ses ?w (th_next w))" "\<not> ts_permit (th_ses ?w (th_next w))" "early unborn"
    "\<not> ts_queued (th_ses ?w (th_next w))"
    by (simp_all add: connect_new_def unborn_def waits_def early_def)
  have w: "th_ses ?w j = th_ses w j" if "j \<noteq> th_next w" for j using that by (simp add: connect_new_def)
  have f: "th_next ?w = Suc (th_next w)" "th_limiter ?w = th_limiter w" "th_server ?w = th_server w"
    "th_stopping ?w = th_stopping w" "th_tasks ?w = th_tasks w" "known ?w = known w" "promoting ?w = promoting w"
    by (simp_all add: connect_new_def known_def promoting_def fun_eq_iff)
  have "permits_held ?w = permits_held w" "places ?w = places w"
    unfolding permits_held_def places_def using u w f less_Suc_eq by (intro arg_cong [of _ _ card]; fastforce)+
  moreover have "\<not> ts_queued (th_ses ?w j) \<and> \<not> ts_permit (th_ses ?w j) \<and> \<not> known ?w j" if "early (th_ses ?w j)" for j
    using threads_okD(3) [OF ok, of j] that u w n f by (cases "j = th_next w") auto
  moreover have "th_ses ?w j = unborn" if "Suc (th_next w) \<le> j" for j using that w [of j] ok by (simp add: threads_ok_def)
  ultimately show ?thesis using ok f unfolding threads_ok_def by (auto simp: less_Suc_eq)
qed

lemma move_keeps: "threads_ok w \<Longrightarrow> move_exec x w = Some w' \<Longrightarrow> threads_ok w'"
proof (cases x)
  case Strand
  assume "threads_ok w" "move_exec x w = Some w'"
  then show ?thesis using strand_keeps Strand by simp
next
  case Stop_Request
  assume "threads_ok w" "move_exec x w = Some w'"
  then show ?thesis using Stop_Request threads_okD [of w] by (auto intro!: threads_ok_server [of w])
qed (auto simp: at_idle_def intro: handle_keeps session_keeps end_release_keeps destroy_keeps connect_keeps split: if_splits)

lemma started_threads: "start_threads m q = Inr w \<Longrightarrow> threads_ok w"
  by (auto simp: start_threads_def new_limiter_def set_on_release_def threads_ok_def limiter_ok_def unborn_def early_def
      known_def permits_held_def split: if_splits)

lemma interleaves_ok: "interleaves m q w \<Longrightarrow> threads_ok w"
  by (induction rule: interleaves.induct) (auto intro: started_threads move_keeps)

text \<open>No step changes the limits.\<close>

lemma limiter_limits [simp]:
  "max_inflight (snd (cancel_queued l)) = max_inflight l" "max_queue_size (snd (cancel_queued l)) = max_queue_size l"
  "max_inflight (snd (release_slot l)) = max_inflight l" "max_queue_size (snd (release_slot l)) = max_queue_size l"
  "max_inflight (snd (try_acquire_or_queue a l)) = max_inflight l" "max_queue_size (snd (try_acquire_or_queue a l)) = max_queue_size l"
  "max_inflight (snd (try_promote_queued a l)) = max_inflight l" "max_queue_size (snd (try_promote_queued a l)) = max_queue_size l"
  "max_inflight (close_limiter l) = max_inflight l" "max_queue_size (close_limiter l) = max_queue_size l"
  by (auto simp: cancel_queued_def release_slot_def try_acquire_or_queue_def try_promote_queued_def close_limiter_def Let_def)

definition th_limits :: "threads \<Rightarrow> size_t \<times> size_t" where
  "th_limits w = (max_inflight (th_limiter w), max_queue_size (th_limiter w))"

lemma strand_limits: "strand_step w = Some w' \<Longrightarrow> th_limits w' = th_limits w"
proof (cases "th_server w")
  case Free
  assume "strand_step w = Some w'"
  then obtain t ts where "w' = strand_task t (w\<lparr>th_tasks := ts\<rparr>)" using Free by (auto split: list.splits)
  then show ?thesis by (cases t) (simp_all add: th_limits_def)
qed (auto simp: th_limits_def promote_look_def promote_try_def promote_refused_def start_check_queued_def
    start_check_finished_def start_store_def start_give_def drop_release_def drop_notify_def case_prod_beta Let_def
    split: list.splits)

lemma move_limits: "move_exec x w = Some w' \<Longrightarrow> th_limits w' = th_limits w"
proof (cases x)
  case Strand
  assume "move_exec x w = Some w'"
  then show ?thesis using Strand strand_limits by simp
qed (auto simp: th_limits_def connect_new_def handle_chat_def post_enqueue_def timer_load_def timer_cancel_def
    timer_store_def timer_fail_def end_begin_def end_release_def end_notify_def destroy_begin_def case_prod_beta
    Let_def split: if_splits)

lemma interleaves_limits:
  "interleaves m q w \<Longrightarrow> max_inflight (th_limiter w) = m \<and> max_queue_size (th_limiter w) = q"
proof (induction rule: interleaves.induct)
  case (start w)
  then show ?case by (auto simp: start_threads_def new_limiter_def set_on_release_def split: if_splits)
next
  case (move w x w')
  then show ?case using move_limits [OF move(2)] by (simp add: th_limits_def)
qed

subsection \<open>Runs\<close>

text \<open>Two requests: the first is admitted, the second is queued.\<close>

definition two_requests :: "move list" where
  "two_requests = [Connect_New, Handle 0, Connect_New, Handle 1]"

text \<open>
  The timer of the second has seen the flag when a promotion takes the second from the queue, and a third
  request takes its place: the timer gives the place of the third back, and the second is refused and
  started. Three strands are in the middle of a closure at once.
\<close>

definition timer_against_promotion :: "move list" where
  "timer_against_promotion = two_requests @
     [Connect_New, Post_Enqueue 1, Strand, Timer_Load 1, End_Begin 0, End_Release 0, End_Notify 0,
      Strand, Strand, Strand, Handle 2, Timer_Cancel 1, Strand, Strand, Strand,
      Timer_Store 1, Timer_Fail 1, End_Release 1, Strand, Post_Enqueue 2, Strand, Strand]"

definition run_threads :: "size_t \<Rightarrow> size_t \<Rightarrow> move list \<Rightarrow> threads option" where
  "run_threads m q ms = (case start_threads m q of Inl _ \<Rightarrow> None | Inr w \<Rightarrow> run_moves ms w)"

lemma run_moves_interleaves: "interleaves m q w \<Longrightarrow> run_moves ms w = Some w' \<Longrightarrow> interleaves m q w'"
  by (induction ms arbitrary: w) (auto split: option.splits intro: interleaves.move)

lemma run_threads_interleaves: "run_threads m q ms = Some w \<Longrightarrow> interleaves m q w"
  by (auto simp: run_threads_def split: sum.splits intro: run_moves_interleaves interleaves.start)

lemma timer_against_promotion_run:
  "\<exists>w. run_threads 1 1 timer_against_promotion = Some w \<and> ts_timed_out (th_ses w 1) \<and> ts_started (th_ses w 1) \<and>
    ts_finished (th_ses w 1) \<and> ts_permit (th_ses w 1) \<and> ts_queued (th_ses w 2) \<and> queued_requests (th_limiter w) = 0"
proof -
  have "case run_threads 1 1 timer_against_promotion of None \<Rightarrow> False
    | Some w \<Rightarrow> ts_timed_out (th_ses w 1) \<and> ts_started (th_ses w 1) \<and> ts_finished (th_ses w 1) \<and>
      ts_permit (th_ses w 1) \<and> ts_queued (th_ses w 2) \<and> queued_requests (th_limiter w) = 0" by code_simp
  then show ?thesis by (simp split: option.splits)
qed

subsection \<open>The property\<close>

text \<open>
  C10: the limit in every interleaving. However the strands interleave, the limiter's counter is the
  number of permits that sessions hold or a promotion has in its hands, and never more than
  \<open>max_inflight\<close>; its queue counter is never more than the number of requests that wait, so a request is
  refused for a full queue only if at least \<open>max_queue_size\<close> requests wait.
\<close>

theorem interleaved_limits:
  assumes "interleaves m q w"
  shows "unat (current_inflight (th_limiter w)) = permits_held w + in_hand (th_server w) \<and>
    permits_held w + in_hand (th_server w) \<le> unat m \<and>
    unat (queued_requests (th_limiter w)) \<le> places w \<and>
    (fst (fst (try_acquire_or_queue 0 (th_limiter w))) = Reject \<longrightarrow> unat q \<le> places w)"
proof -
  have ok: "threads_ok w" and lim: "max_inflight (th_limiter w) = m" "max_queue_size (th_limiter w) = q"
    using interleaves_ok [OF assms] interleaves_limits [OF assms] by simp_all
  then have c: "unat (current_inflight (th_limiter w)) = permits_held w + in_hand (th_server w)"
    "unat (queued_requests (th_limiter w)) \<le> places w" "current_inflight (th_limiter w) \<le> m"
    by (simp_all add: threads_ok_def limiter_ok_def)
  moreover have "unat q \<le> places w" if "fst (fst (try_acquire_or_queue 0 (th_limiter w))) = Reject"
  proof -
    have "\<not> queued_requests (th_limiter w) < q" using that lim
      by (auto simp: try_acquire_or_queue_def Let_def split: if_splits)
    then have "unat q \<le> unat (queued_requests (th_limiter w))" by (simp add: word_le_nat_alt not_less)
    then show ?thesis using c(2) by simp
  qed
  ultimately show ?thesis by (simp add: word_le_nat_alt)
qed

theorem interleaved_limits_witness:
  "\<exists>w. run_threads 1 1 timer_against_promotion = Some w \<and>
    unat (current_inflight (th_limiter w)) = permits_held w + in_hand (th_server w) \<and>
    permits_held w + in_hand (th_server w) \<le> 1 \<and> unat (queued_requests (th_limiter w)) \<le> places w"
proof -
  obtain w where w: "run_threads 1 1 timer_against_promotion = Some w" using timer_against_promotion_run by blast
  from interleaved_limits [OF run_threads_interleaves [OF w]] w show ?thesis by auto
qed

end
