(* ===== verification/ProxyRaces.thy ===== *)
theory ProxyRaces
  imports ProxyThreads
begin

text \<open>
  What several worker threads break. A worker runs one closure of one strand at a time and keeps it until
  its end, so with \<open>k\<close> workers at most \<open>k\<close> strands are in the middle of a closure (\<open>run_on\<close>). Four runs
  with two workers, for every \<open>max_inflight\<close> and every queue of two places or more.
\<close>

subsection \<open>A bounded number of workers\<close>

text \<open>The strand of a move: that of a session, or the server's (\<open>None\<close>), which also accepts.\<close>

fun mover :: "move \<Rightarrow> nat option" where
  "mover Connect_New = None"
| "mover (Handle i) = Some i"
| "mover (Post_Enqueue i) = Some i"
| "mover (Timer_Load i) = Some i"
| "mover (Timer_Off i) = Some i"
| "mover (Timer_Cancel i) = Some i"
| "mover (Timer_Store i) = Some i"
| "mover (Timer_Fail i) = Some i"
| "mover (End_Begin i) = Some i"
| "mover (End_Release i) = Some i"
| "mover (End_Notify i) = Some i"
| "mover (Destroy i) = Some i"
| "mover Stop_Request = None"
| "mover Strand = None"

text \<open>Whether a strand is in the middle of a closure.\<close>

fun mid_closure :: "nat option \<Rightarrow> threads \<Rightarrow> bool" where
  "mid_closure None w = (th_server w \<noteq> Free)"
| "mid_closure (Some i) w = (ts_at (th_ses w i) \<in> {Decided, Expiring, Given_Back, Cleared, Releasing, Notifying})"

text \<open>
  \<open>ws\<close>: the strands that the workers are at. A strand that is not among them needs a free worker, and a
  connection is accepted between two closures of the server's strand.
\<close>

fun run_on :: "nat \<Rightarrow> nat option list \<Rightarrow> move list \<Rightarrow> threads \<Rightarrow> (nat option list \<times> threads) option" where
  "run_on k ws [] w = Some (ws, w)"
| "run_on k ws (x # xs) w =
     (if mover x \<notin> set ws \<and> k \<le> length ws \<or> x = Connect_New \<and> th_server w \<noteq> Free then None
      else case move_exec x w of None \<Rightarrow> None
      | Some w' \<Rightarrow> run_on k (if mid_closure (mover x) w' then List.insert (mover x) ws else remove1 (mover x) ws) xs w')"

definition run_workers :: "nat \<Rightarrow> size_t \<Rightarrow> size_t \<Rightarrow> move list \<Rightarrow> threads option" where
  "run_workers k m q ms = (case start_threads m q of Inl _ \<Rightarrow> None | Inr w \<Rightarrow> map_option snd (run_on k [] ms w))"

text \<open>Such a run is one of the interleavings, in which no more than \<open>k\<close> strands are ever at work.\<close>

lemma run_on_moves: "run_on k ws ms w = Some (ws', w') \<Longrightarrow> run_moves ms w = Some w'"
  by (induction ms arbitrary: ws w) (auto split: if_splits option.splits)

lemma run_workers_interleaves: "run_workers k m q ms = Some w \<Longrightarrow> interleaves m q w"
  by (auto simp: run_workers_def split: sum.splits intro: run_moves_interleaves [OF interleaves.start run_on_moves])

lemma run_on_append:
  "run_on k ws (xs @ ys) w = (case run_on k ws xs w of None \<Rightarrow> None | Some (us, v) \<Rightarrow> run_on k us ys v)"
  by (induction xs arbitrary: ws w) (auto split: option.splits)

subsection \<open>All slots taken\<close>

definition served :: tsession where
  "served = unborn\<lparr>ts_at := Idle, ts_permit := True, ts_started := True\<rparr>"

definition crowd :: "size_t \<Rightarrow> size_t \<Rightarrow> nat \<Rightarrow> threads" where
  "crowd m q k = \<lparr>th_limiter = \<lparr>current_inflight = of_nat k, queued_requests = 0, max_inflight = m, max_queue_size = q,
       closed = False, on_release = Some ()\<rparr>,
     th_ses = (\<lambda>i. if i < k then served else unborn), th_next = k, th_list = [], th_tasks = [], th_server = Free,
     th_stopping = False\<rparr>"

definition fill_slots :: "nat \<Rightarrow> move list" where
  "fill_slots k = concat (map (\<lambda>i. [Connect_New, Handle i]) [0..<k])"

lemmas move_defs = connect_new_def handle_chat_def post_enqueue_def timer_load_def timer_cancel_def timer_store_def
  timer_fail_def end_begin_def end_release_def end_notify_def destroy_begin_def promote_look_def promote_try_def
  promote_refused_def start_check_queued_def start_check_finished_def start_store_def start_give_def at_idle_def
  th_upd_def th_post_def

lemmas limiter_defs = try_acquire_or_queue_def try_promote_queued_def cancel_queued_def release_slot_def snapshot_def
  valid_def new_permit_def no_permit_def

lemma slots_filled:
  assumes "0 < k" "n \<le> unat m"
  shows "run_on k [] (fill_slots n) (crowd m q 0) = Some ([], crowd m q n)"
  using assms(2)
proof (induction n)
  case (Suc n)
  have "unat (of_nat n :: size_t) \<le> n" by (simp add: unat_of_nat)
  then have "of_nat n < m" using Suc.prems by (simp add: word_less_nat_alt)
  then have "run_on k [] [Connect_New, Handle n] (crowd m q n) = Some ([], crowd m q (Suc n))"
    using assms(1)
    by (auto simp: crowd_def move_defs limiter_defs served_def unborn_def fun_eq_iff)
  then show ?case using Suc by (simp add: fill_slots_def run_on_append)
qed (simp add: fill_slots_def)

lemma run_filled:
  assumes "0 < m" "0 < k"
  shows "run_workers k m q (fill_slots (unat m) @ ms) = map_option snd (run_on k [] ms (crowd m q (unat m)))"
proof -
  have "start_threads m q = Inr (crowd m q 0)"
    using assms(1) by (simp add: start_threads_def new_limiter_def set_on_release_def crowd_def)
  then show ?thesis using slots_filled [OF assms(2), of "unat m" m q] by (simp add: run_workers_def run_on_append)
qed

lemma slot_less: "0 < m \<Longrightarrow> m - 1 < (m :: size_t)"
  using unat_minus_one [of m] by (cases "m = 0") (auto simp: word_less_nat_alt)

subsection \<open>A lost wakeup\<close>

text \<open>
  One worker has the limiter's decision to queue request \<open>n\<close>; the other ends request 0 and runs the
  promotion, which finds an empty list, before the first posts the closure that enqueues \<open>n\<close>.
\<close>

definition lost_wakeup :: "nat \<Rightarrow> move list" where
  "lost_wakeup n = fill_slots n @ [Connect_New, Handle n, End_Begin 0, End_Release 0, End_Notify 0, Strand, Strand,
     Post_Enqueue n, Strand]"

lemma lost_wakeup_run:
  assumes "0 < m" "0 < q" "n = unat m"
  shows "\<exists>w. run_workers 2 m q (lost_wakeup n) = Some w \<and> \<not> th_stopping w \<and> th_server w = Free \<and> th_tasks w = [] \<and>
    current_inflight (th_limiter w) < m \<and> queued_requests (th_limiter w) = 1 \<and> th_list w = [n] \<and>
    ts_queued (th_ses w n) \<and> \<not> ts_finished (th_ses w n) \<and> ts_at (th_ses w n) = Idle"
proof -
  have n: "0 < n" "of_nat n = m" "unat m = n" using assms by (simp_all add: unat_gt_0 word_gt_0)
  have m: "m - 1 < m" "m \<noteq> 0" using slot_less [OF assms(1)] assms(1) by auto
  show ?thesis
    using n(1,2) m assms(2) by (simp add: lost_wakeup_def run_filled [OF assms(1), folded assms(3)] crowd_def move_defs limiter_defs served_def unborn_def List.insert_def)
qed

subsection \<open>The queue timer against the promotion\<close>

text \<open>
  Requests \<open>n\<close> and \<open>n + 1\<close> wait. One worker runs the handler of \<open>n\<close>'s queue timer and has seen the flag
  when the other, in the promotion that the end of request 0 has posted, takes \<open>n\<close> from the queue. The
  timer gives a place back, which can only be that of \<open>n + 1\<close>, and fails \<open>n\<close>; the promotion then starts
  \<open>n\<close>, finds no place left for \<open>n + 1\<close> and takes it off the list.
\<close>

definition two_waiters :: "nat \<Rightarrow> move list" where
  "two_waiters n = [Connect_New, Handle n, Post_Enqueue n, Strand, Connect_New, Handle (n + 1), Post_Enqueue (n + 1), Strand]"

definition timer_race :: "nat \<Rightarrow> move list" where
  "timer_race n = two_waiters n @ [End_Begin 0, End_Release 0, End_Notify 0,
     Timer_Load n, Strand, Strand, Strand, Strand, Strand, Strand,
     Timer_Cancel n, Timer_Store n, Timer_Fail n, End_Release n, Strand, Strand, Strand, Strand, Strand]"

definition refused_and_started :: "nat \<Rightarrow> move list" where
  "refused_and_started n = fill_slots n @ timer_race n"

definition raced :: "size_t \<Rightarrow> size_t \<Rightarrow> nat \<Rightarrow> threads" where
  "raced m q n = (crowd m q n)\<lparr>th_next := n + 2, th_ses := (th_ses (crowd m q n))
     (0 := unborn\<lparr>ts_at := Idle, ts_finished := True, ts_started := True\<rparr>,
      n := unborn\<lparr>ts_at := Idle, ts_finished := True, ts_permit := True, ts_started := True, ts_timed_out := True\<rparr>,
      n + 1 := unborn\<lparr>ts_at := Idle, ts_queued := True, ts_timer := True\<rparr>)\<rparr>"

lemma raced_run:
  assumes "0 < m" "1 < q" "n = unat m"
  shows "run_on 2 [] (timer_race n) (crowd m q n) = Some ([], raced m q n)"
proof -
  have n: "0 < n" "of_nat n = m" "unat m = n" using assms by (simp_all add: unat_gt_0 word_gt_0)
  have m: "m - 1 < m" "m \<noteq> 0" "\<not> m \<le> m - 1" using slot_less [OF assms(1)] assms(1) by auto
  have q: "0 < q" using assms(2) by (metis word_gt_0 word_zero_le leD order_less_trans)
  show ?thesis
    using n(1,2) m assms(2) q
    by (simp add: timer_race_def two_waiters_def crowd_def move_defs limiter_defs served_def unborn_def raced_def
        fun_eq_iff)
qed

lemma raced_after:
  assumes "0 < m" "1 < q" "n = unat m"
  shows "run_workers 2 m q (refused_and_started n @ ms) = map_option snd (run_on 2 [] ms (raced m q n))"
  using run_filled [OF assms(1), of 2 q "timer_race n @ ms"] raced_run [OF assms]
  by (simp add: assms(3) run_on_append refused_and_started_def)

text \<open>The place that was given back twice: as many requests are queued as there are places, and \<open>n + 1\<close> waits too.\<close>

definition queue_up :: "nat \<Rightarrow> nat \<Rightarrow> move list" where
  "queue_up a k = concat (map (\<lambda>i. [Connect_New, Handle i, Post_Enqueue i, Strand]) [a..<a + k])"

definition swamped :: "size_t \<Rightarrow> size_t \<Rightarrow> nat \<Rightarrow> nat \<Rightarrow> threads" where
  "swamped m q n k = (raced m q n)\<lparr>th_limiter := (th_limiter (raced m q n))\<lparr>queued_requests := of_nat k\<rparr>,
     th_next := n + 2 + k, th_list := [n + 2..<n + 2 + k],
     th_ses := \<lambda>i. if n + 2 \<le> i \<and> i < n + 2 + k then unborn\<lparr>ts_at := Idle, ts_queued := True, ts_timer := True\<rparr>
       else th_ses (raced m q n) i\<rparr>"

lemma swamped_run:
  assumes "n = unat m" "k \<le> unat q"
  shows "run_on 2 [] (queue_up (n + 2) k) (raced m q n) = Some ([], swamped m q n k)"
  using assms(2)
proof (induction k)
  case (Suc k)
  have "unat (of_nat k :: size_t) \<le> k" by (simp add: unat_of_nat)
  then have "of_nat k < q" using Suc.prems by (simp add: word_less_nat_alt)
  moreover have "of_nat n = m" using assms(1) by simp
  ultimately have "run_on 2 [] [Connect_New, Handle (n + 2 + k), Post_Enqueue (n + 2 + k), Strand] (swamped m q n k) =
      Some ([], swamped m q n (Suc k))"
    by (simp add: swamped_def raced_def crowd_def move_defs limiter_defs unborn_def fun_eq_iff)
  then show ?case using Suc by (simp add: queue_up_def run_on_append)
qed (simp add: queue_up_def swamped_def raced_def crowd_def fun_eq_iff)

lemma overfull_run:
  assumes "0 < m" "1 < q" "n = unat m"
  shows "\<exists>w. run_workers 2 m q (refused_and_started n @ queue_up (n + 2) (unat q)) = Some w \<and>
    max_queue_size (th_limiter w) = q \<and> unat q < places w"
proof -
  let ?w = "swamped m q n (unat q)"
  have "{n + 1..<n + 2 + unat q} \<subseteq> {i. i < th_next ?w \<and> waits (th_ses ?w i) \<and> \<not> promoting ?w i}"
    by (auto simp: swamped_def raced_def crowd_def waits_def promoting_def unborn_def)
  then have "card {n + 1..<n + 2 + unat q} \<le> places ?w" unfolding places_def by (intro card_mono) simp_all
  then show ?thesis using raced_after [OF assms] swamped_run [OF assms(3), of "unat q" q]
    by (intro exI [of _ ?w]) (simp add: swamped_def raced_def crowd_def)
qed

text \<open>When the permit of \<open>n\<close> goes back, nobody is left to promote \<open>n + 1\<close>.\<close>

definition last_permit_back :: "nat \<Rightarrow> move list" where
  "last_permit_back n = [Destroy n, End_Release n, End_Notify n, Strand, Strand]"

lemma dropped_waiter_run:
  assumes "0 < m" "1 < q" "n = unat m"
  shows "\<exists>w. run_workers 2 m q (refused_and_started n @ last_permit_back n) = Some w \<and> th_server w = Free \<and>
    th_tasks w = [] \<and> current_inflight (th_limiter w) < m \<and> th_list w = [] \<and>
    ts_queued (th_ses w (n + 1)) \<and> \<not> ts_finished (th_ses w (n + 1))"
proof -
  have n: "0 < n" "of_nat n = m" using assms by (simp_all add: unat_gt_0 word_gt_0)
  have m: "m - 1 < m" "m \<noteq> 0" using slot_less [OF assms(1)] assms(1) by auto
  show ?thesis using n m
    by (simp add: raced_after [OF assms] last_permit_back_def raced_def crowd_def move_defs limiter_defs unborn_def)
qed

subsection \<open>The property\<close>

text \<open>
  C23: what two worker threads break, whatever \<open>max_inflight\<close> is. A request waits although a slot is free
  and nothing is posted that could start it. With a queue of two places or more, a request is refused for
  its timeout and started as well, and it keeps its slot after it is finished, while the place in the
  queue of another, that waits, is given back and the other is dropped from the list. From then on
  \<open>max_queue_size + 1\<close> requests can wait, and when a slot is free nobody starts the other request: only
  its timer is left.
\<close>

theorem worker_threads_races:
  assumes "0 < m" "1 < q" "n = unat m"
  shows "(\<exists>w. run_workers 2 m q (lost_wakeup n) = Some w \<and> \<not> th_stopping w \<and> th_server w = Free \<and> th_tasks w = [] \<and>
      current_inflight (th_limiter w) < m \<and> queued_requests (th_limiter w) = 1 \<and> th_list w = [n] \<and>
      ts_queued (th_ses w n) \<and> \<not> ts_finished (th_ses w n) \<and> ts_at (th_ses w n) = Idle) \<and>
   (\<exists>w. run_workers 2 m q (refused_and_started n) = Some w \<and> ts_timed_out (th_ses w n) \<and> ts_started (th_ses w n) \<and>
      ts_finished (th_ses w n) \<and> ts_permit (th_ses w n) \<and> queued_requests (th_limiter w) = 0 \<and>
      ts_queued (th_ses w (n + 1)) \<and> \<not> ts_finished (th_ses w (n + 1)) \<and> n + 1 \<notin> set (th_list w)) \<and>
   (\<exists>w. run_workers 2 m q (refused_and_started n @ queue_up (n + 2) (unat q)) = Some w \<and>
      max_queue_size (th_limiter w) = q \<and> unat q < places w) \<and>
   (\<exists>w. run_workers 2 m q (refused_and_started n @ last_permit_back n) = Some w \<and> th_server w = Free \<and>
      th_tasks w = [] \<and> current_inflight (th_limiter w) < m \<and> th_list w = [] \<and>
      ts_queued (th_ses w (n + 1)) \<and> \<not> ts_finished (th_ses w (n + 1)))"
proof -
  have "0 < q" using assms(2) by (metis word_gt_0 word_zero_le leD order_less_trans)
  moreover have "run_workers 2 m q (refused_and_started n) = Some (raced m q n)"
    using raced_after [OF assms, of "[]"] by simp
  moreover have "0 < n" using assms(1,3) by (simp add: unat_gt_0 word_gt_0)
  ultimately show ?thesis using lost_wakeup_run [OF assms(1) _ assms(3)] overfull_run [OF assms] dropped_waiter_run [OF assms]
    by (auto simp: raced_def crowd_def unborn_def)
qed

theorem worker_threads_races_witness:
  "\<exists>w. run_workers 2 8 16 (refused_and_started 8) = Some w \<and> ts_timed_out (th_ses w 8) \<and> ts_started (th_ses w 8) \<and>
    ts_queued (th_ses w 9) \<and> queued_requests (th_limiter w) = 0"
proof -
  have "(0 :: size_t) < 8" "(1 :: size_t) < 16" "8 = unat (8 :: size_t)" by simp_all
  from worker_threads_races [OF this] show ?thesis by auto
qed

end
