(* ===== verification/ProxyScenarios.thy ===== *)
theory ProxyScenarios
  imports ProxyServer
begin

text \<open>
  Concrete runs of the proxy with one slot and one place in the queue: the states at which the
  properties are applied, and the runs that show what the code does in unusual orders of events.
\<close>

definition one_slot :: proxy_config where
  "one_slot = default_proxy_config\<lparr>pc_max_inflight := 1, pc_max_queue_size := 1\<rparr>"

definition chat :: "string \<Rightarrow> http_request" where
  "chat body = \<lparr>rq_method = Post, rq_target = ''/v1/chat/completions'', rq_body = body\<rparr>"

definition asks :: "nat \<Rightarrow> string \<Rightarrow> event" where
  "asks i body = Complete i Read_Request (Request_Read (Some (chat body)))"

text \<open>Two clients: the first is admitted, the second waits in the queue.\<close>

definition waiting_events :: "event list" where
  "waiting_events = [Run_Task, Accepted True, Accepted True, asks 0 ''A'', asks 1 ''B'', Run_Task]"

lemma waiting_run: "\<exists>w. proxy_run one_slot waiting_events = Some w \<and> \<not> sv_stopping w \<and> sv_running w \<and> sv_crash w = None \<and> sv_tasks w = [] \<and>
    current_inflight (sv_limiter w) = 1 \<and> queued_requests (sv_limiter w) = 1 \<and> s_queued (ses w 1) \<and>
    sv_sessions w 1 \<noteq> None \<and> pm_total (sv_metrics w) = 2"
proof -
  have "case proxy_run one_slot waiting_events of None \<Rightarrow> False
    | Some w \<Rightarrow> \<not> sv_stopping w \<and> sv_running w \<and> sv_crash w = None \<and> sv_tasks w = [] \<and>
    current_inflight (sv_limiter w) = 1 \<and> queued_requests (sv_limiter w) = 1 \<and> s_queued (ses w 1) \<and>
    sv_sessions w 1 \<noteq> None \<and> pm_total (sv_metrics w) = 2" by code_simp
  then show ?thesis by (simp split: option.splits)
qed

text \<open>
  The first request times out while its name is being resolved: its slot is free again, the second
  still waits, and a promotion is posted.
\<close>

definition freed_events :: "event list" where
  "freed_events = waiting_events @ [Complete 0 (Request_Timer False) (Request_Timer_Done True)]"

lemma freed_run: "\<exists>w. proxy_run one_slot freed_events = Some w \<and> \<not> sv_stopping w \<and>
    current_inflight (sv_limiter w) = 0 \<and> s_queued (ses w 1) \<and> sv_sessions w 1 \<noteq> None \<and>
    sv_tasks w = [Promote_Queued]"
proof -
  have "case proxy_run one_slot freed_events of None \<Rightarrow> False | Some w \<Rightarrow> \<not> sv_stopping w \<and>
    current_inflight (sv_limiter w) = 0 \<and> s_queued (ses w 1) \<and> sv_sessions w 1 \<noteq> None \<and>
    sv_tasks w = [Promote_Queued]" by code_simp
  then show ?thesis by (simp split: option.splits)
qed

text \<open>
  The resolution of the first request completes after the timeout: nothing stops the session, which
  connects and sends its request, as the promoted second one does.
\<close>

definition zombie_events :: "event list" where
  "zombie_events = freed_events @ [Run_Task,
     Complete 0 Resolve (Resolved True), Complete 0 Connect (Connected True),
     Complete 1 Resolve (Resolved True), Complete 1 Connect (Connected True)]"

lemma zombie_run: "\<exists>w. proxy_run one_slot zombie_events = Some w \<and>
    current_inflight (sv_limiter w) = 1 \<and> pm_failed (sv_metrics w) = 1 \<and>
    s_finished (ses w 0) \<and> s_upstream (ses w 0) = [''A''] \<and> Write_Upstream \<in> set (s_pending (ses w 0)) \<and>
    \<not> s_finished (ses w 1) \<and> s_upstream (ses w 1) = [''B''] \<and> Write_Upstream \<in> set (s_pending (ses w 1))"
proof -
  have "case proxy_run one_slot zombie_events of None \<Rightarrow> False | Some w \<Rightarrow>
    current_inflight (sv_limiter w) = 1 \<and> pm_failed (sv_metrics w) = 1 \<and>
    s_finished (ses w 0) \<and> s_upstream (ses w 0) = [''A''] \<and> Write_Upstream \<in> set (s_pending (ses w 0)) \<and>
    \<not> s_finished (ses w 1) \<and> s_upstream (ses w 1) = [''B''] \<and> Write_Upstream \<in> set (s_pending (ses w 1))"
    by code_simp
  then show ?thesis by (simp split: option.splits)
qed

text \<open>A third client that comes before the promotion runs takes the slot the second is waiting for.\<close>

definition overtaking_events :: "event list" where
  "overtaking_events = freed_events @ [Accepted True, asks 2 ''C'', Run_Task]"

lemma overtaking_run: "\<exists>w. proxy_run one_slot overtaking_events = Some w \<and>
    s_queued (ses w 1) \<and> s_permit (ses w 1) = None \<and> s_permit (ses w 2) \<noteq> None"
proof -
  have "case proxy_run one_slot overtaking_events of None \<Rightarrow> False | Some w \<Rightarrow>
    s_queued (ses w 1) \<and> s_permit (ses w 1) = None \<and> s_permit (ses w 2) \<noteq> None" by code_simp
  then show ?thesis by (simp split: option.splits)
qed

text \<open>
  A request that is queued between a call of \<open>stop\<close> and its execution: when it should be enqueued,
  the connection is closed without an answer, and it is neither completed nor failed.
\<close>

definition leaking_events :: "event list" where
  "leaking_events = [Run_Task, Accepted True, Accepted True, asks 0 ''A'', Stop_Call, asks 1 ''B'',
     Run_Task, Run_Task]"

lemma leaking_run: "\<exists>w. proxy_run one_slot leaking_events = Some w \<and> sv_sessions w 1 = None \<and>
    \<not> s_finished (ses w 0) \<and> pm_total (sv_metrics w) = 2 \<and>
    pm_completed (sv_metrics w) = 0 \<and> pm_failed (sv_metrics w) = 0"
proof -
  have "case proxy_run one_slot leaking_events of None \<Rightarrow> False | Some w \<Rightarrow> sv_sessions w 1 = None \<and>
    \<not> s_finished (ses w 0) \<and> pm_total (sv_metrics w) = 2 \<and>
    pm_completed (sv_metrics w) = 0 \<and> pm_failed (sv_metrics w) = 0" by code_simp
  then show ?thesis by (simp split: option.splits)
qed

text \<open>The client is gone when the header of the stream is written: the request counts as completed.\<close>

definition streaming_events :: "event list" where
  "streaming_events = [Run_Task, Accepted True, asks 0 ''A'', Complete 0 Resolve (Resolved True),
     Complete 0 Connect (Connected True), Complete 0 Write_Upstream (Upstream_Written True),
     Complete 0 Read_Header (Header_Read (Some 200))]"

lemma header_lost_run:
  "\<exists>w. proxy_run one_slot (streaming_events @ [Complete 0 Write_Sse_Header (Sse_Header_Written False)]) = Some w \<and>
    pm_completed (sv_metrics w) = 1 \<and> pm_failed (sv_metrics w) = 0"
proof -
  have "case proxy_run one_slot (streaming_events @ [Complete 0 Write_Sse_Header (Sse_Header_Written False)]) of
      None \<Rightarrow> False
    | Some w \<Rightarrow> pm_completed (sv_metrics w) = 1 \<and> pm_failed (sv_metrics w) = 0" by code_simp
  then show ?thesis by (simp split: option.splits)
qed

text \<open>
  The name of the upstream is resolved after the request has timed out, while its error response is
  being written: the upstream's answer is passed on after it.
\<close>

definition mixed_events :: "event list" where
  "mixed_events = [Run_Task, Accepted True, asks 0 ''A'', Complete 0 (Request_Timer False) (Request_Timer_Done True),
     Complete 0 Resolve (Resolved True), Complete 0 Connect (Connected True),
     Complete 0 Write_Upstream (Upstream_Written True), Complete 0 Read_Header (Header_Read (Some 200))]"

lemma mixed_run: "\<exists>w. proxy_run one_slot mixed_events = Some w \<and>
    s_out (ses w 0) = [Response 504 (error_body ''request timeout''), Sse_Header] \<and> sv_sessions w 0 \<noteq> None"
proof -
  have "case proxy_run one_slot mixed_events of None \<Rightarrow> False | Some w \<Rightarrow>
    s_out (ses w 0) = [Response 504 (error_body ''request timeout''), Sse_Header] \<and> sv_sessions w 0 \<noteq> None" by code_simp
  then show ?thesis by (simp split: option.splits)
qed

text \<open>The server stops while a request is at the upstream and another waits.\<close>

definition stopped_events :: "event list" where
  "stopped_events = waiting_events @ [Stop_Call, Run_Task]"

lemma stopped_run: "\<exists>w w'. proxy_run one_slot stopped_events = Some w \<and> sv_stopping w \<and>
    current_inflight (sv_limiter w) = 1 \<and>
    run_events [Complete 0 Resolve (Resolved False), Accepted True, asks 2 ''C'', Run_Task] w = Some w' \<and>
    s_out (ses w' 2) = [Response 503 (error_body ''proxy is shutting down'')]"
proof -
  have "case proxy_run one_slot stopped_events of None \<Rightarrow> False
    | Some w \<Rightarrow> sv_stopping w \<and> current_inflight (sv_limiter w) = 1 \<and>
      (case run_events [Complete 0 Resolve (Resolved False), Accepted True, asks 2 ''C'', Run_Task] w of
         None \<Rightarrow> False | Some w' \<Rightarrow> s_out (ses w' 2) = [Response 503 (error_body ''proxy is shutting down'')])"
    by code_simp
  then show ?thesis by (auto simp del: run_events.simps split: option.splits)
qed

text \<open>A session that reads the body of its response.\<close>

definition reading_events :: "event list" where
  "reading_events = streaming_events @ [Complete 0 Write_Sse_Header (Sse_Header_Written True)]"

lemma reading_run: "\<exists>w s. proxy_run one_slot reading_events = Some w \<and> sv_running w \<and> sv_crash w = None \<and>
    sv_sessions w 0 = Some s \<and> Read_Body \<in> set (s_pending s) \<and> s_client_open s \<and> \<not> s_finished s \<and>
    s_request_start s = Some 0 \<and> sv_clock w = 0 \<and> s_sse_parser s =
      \<lparr>max_buffer_size = 1024 * 1024, buffer = [], current_data = [], has_data = False\<rparr> \<and>
    \<not> s_first_data_seen s \<and> s_out s = [Sse_Header]"
proof -
  have "case proxy_run one_slot reading_events of None \<Rightarrow> False | Some w \<Rightarrow> sv_running w \<and> sv_crash w = None \<and>
    (case sv_sessions w 0 of None \<Rightarrow> False | Some s \<Rightarrow>
      Read_Body \<in> set (s_pending s) \<and> s_client_open s \<and> \<not> s_finished s \<and>
      s_request_start s = Some 0 \<and> sv_clock w = 0 \<and> s_sse_parser s =
        \<lparr>max_buffer_size = 1024 * 1024, buffer = [], current_data = [], has_data = False\<rparr> \<and>
      \<not> s_first_data_seen s \<and> s_out s = [Sse_Header])" by code_simp
  then show ?thesis by (simp split: option.splits)
qed

end
