(* ===== verification/ProxyOneThread.thy ===== *)
theory ProxyOneThread
  imports ProxySettle ProxyGate ProxyThreads ProxyScenarios
begin

text \<open>
  The two models of the proxy agree: each event of the proxy with one worker thread is a run of the
  interleaved strands of ProxyThreads in which no strand is interrupted. The relation \<open>mirrors\<close>, and
  the moves that follow each handler (which \<open>stays\<close> or \<open>ends\<close>, see ProxySettle), closure and event.
\<close>

subsection \<open>The two states\<close>

text \<open>
  A session and its strand: one that is not counted has not met the limiter, one that is counted stands
  between two closures; \<open>e\<close>: its \<open>Enqueue\<close> is posted.
\<close>

definition newborn :: tsession where
  "newborn = unborn\<lparr>ts_at := Reading\<rparr>"

definition mirror_of :: "bool \<Rightarrow> bool \<Rightarrow> bool \<Rightarrow> session \<Rightarrow> tsession" where
  "mirror_of e started out s = \<lparr>ts_at = if e then Handed_Over else Idle, ts_queued = s_queued s,
     ts_finished = s_finished s, ts_permit = has_permit s, ts_started = started, ts_timed_out = out,
     ts_timer = (queue_timers s \<noteq> []), ts_dead = False\<rparr>"

definition mirrors_session :: "bool \<Rightarrow> session option \<Rightarrow> tsession \<Rightarrow> bool" where
  "mirrors_session e so t \<longleftrightarrow> (case so of None \<Rightarrow> ts_dead t
     | Some s \<Rightarrow> length (queue_timers s) \<le> 1 \<and> (s_queued s \<longrightarrow> queue_timers s = [Queue_Timer False]) \<and>
         (if s_request_counted s then \<exists>started out. t = mirror_of e started out s \<and> (has_permit s \<longrightarrow> started)
          else t = newborn \<and> \<not> has_permit s \<and> \<not> s_queued s \<and> queue_timers s = [] \<and> \<not> e))"

definition mirrors :: "server \<Rightarrow> threads \<Rightarrow> bool" where
  "mirrors w v \<longleftrightarrow> th_limiter v = sv_limiter w \<and> th_next v = sv_next w \<and> th_list v = sv_queued_sessions w \<and>
     th_tasks v = filter (\<lambda>t. t \<noteq> Do_Accept) (sv_tasks w) \<and> th_server v = Free \<and> th_stopping v = sv_stopping w \<and>
     (\<forall>i\<in>set (sv_queued_sessions w). i < sv_next w) \<and>
     (\<forall>i < sv_next w. mirrors_session (Enqueue i \<in> set (sv_tasks w)) (sv_sessions w i) (th_ses v i))"

subsection \<open>Runs of one strand\<close>

definition moves :: "threads \<Rightarrow> threads \<Rightarrow> bool" where
  "moves v v' \<longleftrightarrow> (\<exists>ms. run_moves ms v = Some v')"

lemma run_moves_append: "run_moves (ms @ ns) v = Option.bind (run_moves ms v) (run_moves ns)"
  by (induction ms arbitrary: v) (auto split: option.splits)

lemma moves_refl: "moves v v"
  unfolding moves_def by (rule exI [of _ "[]"]) simp

lemma moves_trans: "moves u v \<Longrightarrow> moves v w \<Longrightarrow> moves u w"
  unfolding moves_def by (metis run_moves_append bind.simps(2))

lemma moves_one: "move_exec m v = Some v' \<Longrightarrow> moves v v'"
  unfolding moves_def by (rule exI [of _ "[m]"]) simp

lemma moves_interleaves: "interleaves m q v \<Longrightarrow> moves v v' \<Longrightarrow> interleaves m q v'"
  by (auto simp: moves_def intro: run_moves_interleaves)

text \<open>The strand of one session moves: its state, the limiter and the posted closures change.\<close>

definition moved :: "nat \<Rightarrow> tsession \<Rightarrow> unit limiter \<Rightarrow> task list \<Rightarrow> threads \<Rightarrow> threads" where
  "moved i t l ts v = v\<lparr>th_ses := (th_ses v)(i := t), th_limiter := l, th_tasks := ts\<rparr>"

lemma moved_same: "moved i (th_ses v i) (th_limiter v) (th_tasks v) v = v"
  by (simp add: moved_def)

text \<open>The end of a started request, and the death of a session at rest.\<close>

lemma end_moves:
  assumes "i < th_next v" "t = th_ses v i" "ts_at t = Idle" "ts_started t" "\<not> ts_finished t" "\<not> ts_dead t"
    "on_release (th_limiter v) = Some ()" "current_inflight (th_limiter v) \<noteq> 0" "ts_permit t"
  shows "moves v (moved i (t\<lparr>ts_finished := True, ts_permit := False\<rparr>)
      (snd (release_slot (th_limiter v))) (th_tasks v @ [Promote_Queued]) v)"
proof -
  have "run_moves [End_Begin i, End_Release i, End_Notify i] v = Some (moved i (t\<lparr>ts_finished := True, ts_permit := False\<rparr>)
      (snd (release_slot (th_limiter v))) (th_tasks v @ [Promote_Queued]) v)"
    using assms by (auto simp: at_idle_def end_begin_def end_release_def end_notify_def moved_def th_upd_def th_post_def
        release_slot_def intro!: threads.equality tsession.equality ext)
  then show ?thesis unfolding moves_def by blast
qed

lemma death_moves:
  assumes "i < th_next v" "t = th_ses v i" "ts_at t = Idle \<or> ts_at t = Reading" "\<not> ts_timer t" "\<not> ts_queued t" "\<not> ts_permit t"
    "Enqueue i \<notin> set (th_tasks v)" "th_server v = Free"
  shows "moves v (moved i (t\<lparr>ts_dead := True, ts_at := Gone\<rparr>) (th_limiter v) (th_tasks v) v)"
proof -
  have "run_moves [Destroy i, End_Release i] v = Some (moved i (t\<lparr>ts_dead := True, ts_at := Gone\<rparr>) (th_limiter v) (th_tasks v) v)"
    using assms by (auto simp: at_idle_def destroy_begin_def end_release_def moved_def th_upd_def
        intro!: threads.equality tsession.equality ext)
  then show ?thesis unfolding moves_def by blast
qed

lemma timer_moves:
  assumes "i < th_next v" "t = th_ses v i" "ts_at t = Idle" "ts_timer t" "ts_queued t" "\<not> ts_finished t" "\<not> ts_permit t"
    "\<not> ts_dead t"
  shows "moves v (moved i (t\<lparr>ts_timer := False, ts_queued := False, ts_finished := True, ts_timed_out := True\<rparr>)
      (snd (cancel_queued (th_limiter v))) (th_tasks v) v)"
proof -
  have "run_moves [Timer_Load i, Timer_Cancel i, Timer_Store i, Timer_Fail i, End_Release i] v =
    Some (moved i (t\<lparr>ts_timer := False, ts_queued := False, ts_finished := True, ts_timed_out := True\<rparr>)
      (snd (cancel_queued (th_limiter v))) (th_tasks v) v)"
    using assms by (auto simp: at_idle_def timer_load_def timer_cancel_def timer_store_def timer_fail_def end_release_def
        moved_def th_upd_def intro!: threads.equality tsession.equality ext)
  then show ?thesis unfolding moves_def by blast
qed

lemma timer_off_moves:
  assumes "i < th_next v" "t = th_ses v i" "ts_at t = Idle" "ts_timer t" "\<not> ts_queued t"
  shows "moves v (moved i (t\<lparr>ts_timer := False\<rparr>) (th_limiter v) (th_tasks v) v)"
proof -
  have "move_exec (Timer_Off i) v = Some (moved i (t\<lparr>ts_timer := False\<rparr>) (th_limiter v) (th_tasks v) v)"
    using assms by (simp add: at_idle_def moved_def th_upd_def)
  then show ?thesis by (rule moves_one)
qed

text \<open>The two models make a step together.\<close>

definition follows :: "server \<Rightarrow> threads \<Rightarrow> bool" where
  "follows w v \<longleftrightarrow> (\<exists>v'. moves v v' \<and> mirrors w v')"

lemma follows_trans: "moves v v' \<Longrightarrow> follows w v' \<Longrightarrow> follows w v"
  unfolding follows_def using moves_trans by blast

lemma mirrorsD:
  assumes "mirrors w v"
  shows "th_limiter v = sv_limiter w" "th_next v = sv_next w" "th_list v = sv_queued_sessions w"
    "th_tasks v = filter (\<lambda>t. t \<noteq> Do_Accept) (sv_tasks w)" "th_server v = Free" "th_stopping v = sv_stopping w"
    "i < sv_next w \<Longrightarrow> mirrors_session (Enqueue i \<in> set (sv_tasks w)) (sv_sessions w i) (th_ses v i)"
  using assms by (simp_all add: mirrors_def)

text \<open>One session changes, and its strand ends in the state that mirrors it.\<close>

lemma follows_moved:
  assumes "mirrors w v" "i < sv_next w" "sv_sessions w' = (sv_sessions w)(i := so)" "same_admission w w'"
    and "\<And>j. j \<noteq> i \<Longrightarrow> Enqueue j \<in> set (sv_tasks w') \<longleftrightarrow> Enqueue j \<in> set (sv_tasks w)"
    and "moves v (moved i t (sv_limiter w') (filter (\<lambda>t. t \<noteq> Do_Accept) (sv_tasks w')) v)"
    and "mirrors_session (Enqueue i \<in> set (sv_tasks w')) so t"
  shows "follows w' v"
  unfolding follows_def
  by (rule exI, rule conjI [OF assms(6)])
    (use assms(1-5,7) in \<open>auto simp: mirrors_def moved_def same_admission_def\<close>)

text \<open>The parts of the state that the strands do not see.\<close>

lemma mirrors_view: "admission_view t = admission_view s \<Longrightarrow> mirrors_session e (Some t) = mirrors_session e (Some s)"
  by (simp add: admission_view_def mirrors_session_def mirror_of_def fun_eq_iff)

lemma mirrors_cong:
  assumes "mirrors w v" "sv_limiter w' = sv_limiter w" "sv_next w' = sv_next w" "sv_queued_sessions w' = sv_queued_sessions w"
    "filter (\<lambda>t. t \<noteq> Do_Accept) (sv_tasks w') = filter (\<lambda>t. t \<noteq> Do_Accept) (sv_tasks w)" "sv_stopping w' = sv_stopping w"
    and view: "\<And>i. map_option admission_view (sv_sessions w' i) = map_option admission_view (sv_sessions w i)"
  shows "mirrors w' v"
proof -
  have "Enqueue i \<in> set (sv_tasks w') \<longleftrightarrow> Enqueue i \<in> set (sv_tasks w)" for i
    using arg_cong [OF assms(5), of "\<lambda>ts. Enqueue i \<in> set ts"] by simp
  moreover have "mirrors_session e (sv_sessions w' i) = mirrors_session e (sv_sessions w i)" for e i
  proof (cases "sv_sessions w i")
    case (Some s)
    then obtain t where t: "sv_sessions w' i = Some t" "admission_view t = admission_view s" using view [of i] by auto
    then show ?thesis using Some mirrors_view [OF t(2)] by simp
  qed (use view [of i] in simp)
  ultimately show ?thesis using assms(1-6) by (simp add: mirrors_def)
qed

lemma mirrors_follows: "mirrors w v \<Longrightarrow> follows w v"
  unfolding follows_def using moves_refl by blast

subsection \<open>A session's handler\<close>

lemma live_next: "permits_ok k w \<Longrightarrow> live i w \<Longrightarrow> i < sv_next w"
  by (simp add: permits_ok_def numbered_def)

lemma follows_stays:
  assumes "permits_ok 0 w" "mirrors w v" "live i w" "stays i w w'"
  shows "follows w' v"
proof -
  note m = mirrorsD [OF assms(2)] and n = live_next [OF assms(1,3)]
  obtain s where s: "sv_sessions w' = (sv_sessions w)(i \<mapsto> s)" "admission_view s = admission_view (ses w i)"
    "same_admission w w'" "sv_limiter w' = sv_limiter w" "sv_tasks w' = sv_tasks w"
    using assms(4) by (auto simp: stays_def)
  show ?thesis
    by (rule follows_moved [OF assms(2) n s(1,3), of "th_ses v i"])
      (use assms(3) m(1,4) m(7) [OF n] s moved_same [of i v] moves_refl mirrors_view [OF s(2)] in \<open>simp_all add: live_ses\<close>)
qed

lemma not_posted: "posted i w = 0 \<Longrightarrow> Enqueue i \<notin> set (sv_tasks w)"
  by (simp add: posted_def count_list_0_iff)

lemma pending_not_posted: "session_ok (posted i w) s \<Longrightarrow> s_pending s \<noteq> [] \<Longrightarrow> posted i w = 0"
  using session_okD(1,9) [of "posted i w" s] by (cases "posted i w") (auto split: if_splits)

lemma follows_ends:
  assumes ok: "permits_ok 0 w" "protocol_ok w" "mirrors w v" and i: "live i w" "ends i w w'"
    and idle: "\<not> s_queued (ses w i)" "s_pending (ses w i) \<noteq> []"
  shows "follows w' v"
proof -
  define s where "s = ses w i"
  define t where "t = th_ses v i"
  have s: "sv_sessions w i = Some s" using i by (simp add: live_ses s_def)
  note m = mirrorsD [OF ok(3)] and n = live_next [OF ok(1) i(1)]
  have so: "session_ok (posted i w) s" using ok(2) s by (simp add: protocol_except_def)
  have p0: "posted i w = 0" using pending_not_posted [OF so] idle(2) by (simp add: s_def)
  note np = not_posted [OF p0]
  have ms: "mirrors_session False (Some s) t" using m(7) [OF n] s np by (simp add: t_def)
  obtain s' where s': "sv_sessions w' = (sv_sessions w)(i \<mapsto> s')" "same_admission w w'"
    "s_request_counted s' = s_request_counted s" "\<not> s_queued s'" "s_finished s'" "\<not> has_permit s'"
    "queue_timers s' = map (\<lambda>_. Queue_Timer True) (queue_timers s)" and fin: "\<not> s_finished s"
    and eff: "(sv_limiter w', sv_tasks w') = (if has_permit s then freed w else (sv_limiter w, sv_tasks w))"
    using i(2) idle(1) by (auto simp: ends_def s_def)
  note change = follows_moved [OF ok(3) n s'(1,2)]
  show ?thesis
  proof (cases "s_request_counted s")
    case True
    then have perm: "has_permit s" using session_okD(4) [OF so] idle(1) p0 fin by (simp add: pending_request_def s_def)
    obtain out where t: "t = mirror_of False True out s" using ms True perm by (auto simp: mirrors_session_def)
    have lim: "on_release (sv_limiter w) = Some ()" "current_inflight (sv_limiter w) \<noteq> 0"
      using sound_ok [OF ok(1) i(1)] perm by (simp_all add: sound_def s_def)
    let ?t = "t\<lparr>ts_finished := True, ts_permit := False\<rparr>"
    have fields: "ts_at t = Idle" "ts_started t" "\<not> ts_finished t" "\<not> ts_dead t" "ts_permit t"
      unfolding t using fin perm by (simp_all add: mirror_of_def)
    have "moves v (moved i ?t (snd (release_slot (th_limiter v))) (th_tasks v @ [Promote_Queued]) v)"
      by (rule end_moves) (use n m fields lim in \<open>simp_all add: t_def\<close>)
    moreover have "sv_limiter w' = snd (release_slot (sv_limiter w))" "sv_tasks w' = sv_tasks w @ [Promote_Queued]"
      using eff perm by (simp_all add: freed_def)
    moreover have "?t = mirror_of False True out s'" using s' t perm idle(1) by (simp add: mirror_of_def s_def)
    then have "mirrors_session False (Some s') ?t" using s' ms True by (auto simp: mirrors_session_def)
    ultimately show ?thesis using change [of ?t] m np by simp
  next
    case False
    then have "\<not> has_permit s" "t = newborn" "queue_timers s = []" using ms by (auto simp: mirrors_session_def)
    moreover from this have "sv_limiter w' = sv_limiter w" "sv_tasks w' = sv_tasks w" using eff by simp_all
    ultimately show ?thesis
      by (intro change [of t])
        (use s' m moved_same [of i v] moves_refl np False in \<open>simp_all add: t_def mirrors_session_def\<close>)
  qed
qed

lemma follows_settled:
  assumes "permits_ok 0 w" "protocol_ok w" "mirrors w v" "live i w"
    and "stays i w w' \<or> ends i w w' \<and> \<not> s_queued (ses w i) \<and> s_pending (ses w i) \<noteq> []"
  shows "follows w' v"
  using follows_stays [OF assms(1,3,4)] follows_ends [OF assms(1-4)] assms(5) by blast

text \<open>The queue timer.\<close>

lemma queue_timers_completed [simp]:
  "queue_timers (completed a s) = (if is_queue_timer a then remove1 a (queue_timers s) else queue_timers s)"
proof -
  have "filter is_queue_timer (remove1 a xs) =
    (if is_queue_timer a then remove1 a (filter is_queue_timer xs) else filter is_queue_timer xs)" for xs
    by (induction xs) auto
  then show ?thesis by (simp add: queue_timers_def completed_def)
qed

lemma queue_timer_mirrored:
  assumes ok: "permits_ok 0 w" "protocol_ok w" "mirrors w v" and s: "sv_sessions w i = Some s" "Queue_Timer b \<in> set (s_pending s)"
  shows "\<exists>started out. th_ses v i = mirror_of False started out s \<and> (has_permit s \<longrightarrow> started)"
    "queue_timers s = [Queue_Timer b]" "s_request_counted s" "s_queued s \<Longrightarrow> \<not> b" "Enqueue i \<notin> set (sv_tasks w)"
proof -
  have n: "i < sv_next w" using live_next [OF ok(1)] s(1) by (simp add: live_def)
  have so: "session_ok (posted i w) s" using ok(2) s(1) by (simp add: protocol_except_def)
  have "s_pending s \<noteq> []" using s(2) by auto
  then show np: "Enqueue i \<notin> set (sv_tasks w)" by (intro not_posted pending_not_posted [OF so])
  have ms: "mirrors_session False (Some s) (th_ses v i)" using mirrorsD(7) [OF ok(3) n] s np by simp
  have "Queue_Timer b \<in> set (queue_timers s)" using s(2) by (simp add: queue_timers_def)
  then show q: "queue_timers s = [Queue_Timer b]" using ms by (cases "queue_timers s") (auto simp: mirrors_session_def)
  show "\<exists>started out. th_ses v i = mirror_of False started out s \<and> (has_permit s \<longrightarrow> started)" "s_request_counted s"
    "s_queued s \<Longrightarrow> \<not> b"
    using ms q by (auto simp: mirrors_session_def split: if_splits)
qed

lemma timed_out_view:
  assumes "permits_ok 0 w" "protocol_ok w" "sv_sessions w i = Some s" "s_queued s" "queue_timers s = [Queue_Timer b]"
    and w': "w' = on_queue_timer i True (upd i (completed (Queue_Timer b)) w)"
  shows "\<exists>t. sv_sessions w' = (sv_sessions w)(i \<mapsto> t) \<and> s_request_counted t = s_request_counted s \<and> \<not> s_queued t \<and>
    s_finished t \<and> \<not> has_permit t \<and> queue_timers t = [] \<and> same_admission w w' \<and>
    sv_limiter w' = snd (cancel_queued (sv_limiter w)) \<and> sv_tasks w' = sv_tasks w"
proof -
  have live: "live i w" "ses w i = s" using assms(3) by (simp_all add: live_def ses_def)
  have so: "session_ok (posted i w) s" using assms(2,3) by (simp add: protocol_except_def)
  have idle: "\<not> s_finished s" "\<not> has_permit s" using session_okD(1-3) [OF so] assms(4) by auto
  have alive: "sv_alive w" "on_release (sv_limiter w) = Some ()" using assms(1) by (simp_all add: permits_ok_def)
  define u where "u = upd i (\<lambda>s. s\<lparr>s_queued := False\<rparr>)
    ((upd i (completed (Queue_Timer b)) w)\<lparr>sv_limiter := snd (cancel_queued (sv_limiter w))\<rparr>)"
  have ss: "sv_sessions u = (sv_sessions w)(i \<mapsto> (completed (Queue_Timer b) s)\<lparr>s_queued := False\<rparr>)"
    using live by (simp add: u_def ses_def)
  have "sound i u" using alive idle live ss by (simp add: sound_def u_def cancel_queued_def ses_def live_def)
  moreover have "\<not> s_finished (ses u i)" using idle live by (simp add: u_def ses_def)
  ultimately have "ends i u (fail_with_status i 429 ''queue timeout'' u)" by (rule ends_fail)
  moreover have "w' = fail_with_status i 429 ''queue timeout'' u" using w' assms(4) live alive
    by (simp add: u_def send_json_error_def)
  ultimately have "ends i u w'" by simp
  moreover have "same_admission w u" "sv_limiter u = snd (cancel_queued (sv_limiter w))" "sv_tasks u = sv_tasks w"
    by (simp_all add: u_def same_admission_def)
  ultimately show ?thesis using ss idle assms(5) by (auto simp: ends_def ses_def same_admission_def)
qed

lemma follows_queue_timer:
  assumes ok: "permits_ok 0 w" "protocol_ok w" "mirrors w v" and s: "sv_sessions w i = Some s" "Queue_Timer b \<in> set (s_pending s)"
    and c: "completes (Queue_Timer_Done expired) (Queue_Timer b)"
  shows "follows (on_queue_timer i expired (upd i (completed (Queue_Timer b)) w)) v"
proof -
  define t where "t = th_ses v i"
  have live: "live i w" "ses w i = s" using s(1) by (simp_all add: live_def ses_def)
  note m = mirrorsD [OF ok(3)] and n = live_next [OF ok(1) live(1)] and q = queue_timer_mirrored [OF ok s]
  obtain started out where t: "t = mirror_of False started out s" "has_permit s \<longrightarrow> started"
    using q(1) by (auto simp: t_def)
  let ?v = "upd i (completed (Queue_Timer b)) w"
  show ?thesis
  proof (cases "expired \<and> s_queued s")
    case True
    have so: "session_ok (posted i w) s" using ok(2) s(1) by (simp add: protocol_except_def)
    have idle: "\<not> s_finished s" "\<not> has_permit s" using session_okD(1-3) [OF so] True by auto
    let ?w = "on_queue_timer i expired ?v"
    obtain s' where s': "sv_sessions ?w = (sv_sessions w)(i \<mapsto> s')" "s_request_counted s'" "\<not> s_queued s'" "s_finished s'"
      "\<not> has_permit s'" "queue_timers s' = []" "same_admission w ?w" "sv_limiter ?w = snd (cancel_queued (sv_limiter w))"
      "sv_tasks ?w = sv_tasks w"
      using timed_out_view [OF ok(1,2) s(1) _ q(2) refl] True q(3) by auto
    let ?t = "t\<lparr>ts_timer := False, ts_queued := False, ts_finished := True, ts_timed_out := True\<rparr>"
    have fields: "ts_at t = Idle" "ts_timer t" "ts_queued t" "\<not> ts_finished t" "\<not> ts_permit t" "\<not> ts_dead t"
      unfolding t(1) using True idle q(2) by (simp_all add: mirror_of_def)
    have "moves v (moved i ?t (snd (cancel_queued (th_limiter v))) (th_tasks v) v)"
      by (rule timer_moves) (use n m fields in \<open>simp_all add: t_def\<close>)
    moreover have "?t = mirror_of False started True s'" using s' t idle by (simp add: mirror_of_def)
    then have "mirrors_session False (Some s') ?t" using s' by (auto simp: mirrors_session_def)
    ultimately show ?thesis using follows_moved [OF ok(3) n s'(1,7), of ?t] s'(8,9) m q(5) by simp
  next
    case False
    then have nq: "\<not> s_queued s" using c q(4) by auto
    then have eq: "on_queue_timer i expired ?v = ?v" using live by simp
    let ?s = "completed (Queue_Timer b) s" and ?t = "t\<lparr>ts_timer := False\<rparr>"
    have "moves v (moved i ?t (th_limiter v) (th_tasks v) v)"
      by (rule timer_off_moves) (use n m t q nq in \<open>simp_all add: t_def mirror_of_def\<close>)
    moreover have "?t = mirror_of False started out ?s" using t q(2) by (simp add: mirror_of_def)
    then have "mirrors_session False (Some ?s) ?t" using nq t(2) q(2,3) by (auto simp: mirrors_session_def)
    moreover have "sv_sessions ?v = (sv_sessions w)(i \<mapsto> ?s)" "same_admission w ?v" using live
      by (simp_all add: same_admission_def ses_def)
    ultimately show ?thesis unfolding eq using follows_moved [OF ok(3) n, of ?v "Some ?s" ?t] m q(5) by simp
  qed
qed

text \<open>A request is read.\<close>

lemma started_view:
  assumes "sv_alive w" "s_permit (ses w i) = None"
  shows "\<exists>t. sv_sessions (start_proxy_request i p w) = (sv_sessions w)(i \<mapsto> t) \<and> has_permit t \<and>
      s_queued t = s_queued (ses w i) \<and> s_finished t = s_finished (ses w i) \<and>
      s_request_counted t = s_request_counted (ses w i) \<and> queue_timers t = queue_timers (ses w i) \<and>
      same_admission w (start_proxy_request i p w) \<and> sv_limiter (start_proxy_request i p w) = sv_limiter w \<and>
      sv_tasks (start_proxy_request i p w) = sv_tasks w"
  using assms by (auto simp: start_proxy_request_def set_permit_def start_request_timer_def resolve_upstream_def
      same_admission_def Let_def)

lemma settles_unchat:
  assumes "sound i w"
  shows "settles i w (send_json_error i c e w)" "settles i w (send_health i w)"
proof -
  show fail: "settles i w (send_json_error i c e w)" for c e using settles_fail [OF assms] by (simp add: send_json_error_def)
  have "settles i w (w\<lparr>sv_crash := x\<rparr>)" for x
    using assms by (auto simp: sound_def settles_def stays_def live_ses same_admission_def fun_upd_idem intro!: exI [of _ "ses w i"])
  then show "settles i w (send_health i w)" using fail
    by (auto simp: send_health_def send_text_response_def admission_view_def split: sum.split intro!: settles_upd)
qed

definition is_chat :: "http_request \<Rightarrow> bool" where
  "is_chat rq \<longleftrightarrow> rq_target rq = ''/v1/chat/completions'' \<and> rq_method rq = Post"

lemma handle_chat_request:
  assumes "is_chat (s_request (ses w i))" "sv_alive w" "try_acquire_or_queue 0 (sv_limiter w) = ((d, p, n), l)"
  shows "\<exists>u c e. sv_sessions u = (sv_sessions w)(i \<mapsto> (ses w i)\<lparr>s_request_counted := True\<rparr>) \<and> same_admission w u \<and>
    sv_limiter u = l \<and> sv_tasks u = sv_tasks w \<and> sv_alive u \<and>
    handle_request i w = (case d of Admit \<Rightarrow> start_proxy_request i p u | Queue \<Rightarrow> post (Enqueue i) u
      | _ \<Rightarrow> fail_with_status i c e u)"
  using assms by (intro exI [of _ "(upd i (\<lambda>s. s\<lparr>s_request_counted := True\<rparr>) (with_metrics record_request_started w))\<lparr>sv_limiter := l\<rparr>"]
      exI [of _ "if d = Closed then 503 else 429"]
      exI [of _ "if d = Closed then ''proxy is shutting down'' else ''admission queue is full''"])
    (cases d; simp add: handle_request_def is_chat_def same_admission_def with_metrics_def send_json_error_def ses_def)

lemma settles_other_request:
  assumes "sound i w" "\<not> is_chat (s_request (ses w i))"
  shows "settles i w (handle_request i w)"
  using settles_unchat [OF assms(1)] assms(2) by (auto simp: handle_request_def is_chat_def Let_def)

lemma handle_moves:
  assumes "i < th_next v" "th_ses v i = newborn" "try_acquire_or_queue 0 (th_limiter v) = ((d, p, k), l)"
  shows "d = Admit \<Longrightarrow> moves v (moved i (newborn\<lparr>ts_at := Idle, ts_permit := True, ts_started := True\<rparr>) l (th_tasks v) v)"
    "d = Queue \<Longrightarrow> moves v (moved i (newborn\<lparr>ts_at := Handed_Over\<rparr>) l (th_tasks v @ [Enqueue i]) v)"
    "d \<noteq> Admit \<Longrightarrow> d \<noteq> Queue \<Longrightarrow> moves v (moved i (newborn\<lparr>ts_at := Idle, ts_finished := True\<rparr>) l (th_tasks v) v)"
proof -
  have p: "d = Admit \<Longrightarrow> valid p" using assms(3)
    by (auto simp: try_acquire_or_queue_def Let_def valid_def new_permit_def split: if_splits)
  note run = assms handle_chat_def moved_def th_upd_def newborn_def unborn_def
  show "moves v (moved i (newborn\<lparr>ts_at := Idle, ts_permit := True, ts_started := True\<rparr>) l (th_tasks v) v)" if "d = Admit"
    by (rule moves_one [of "Handle i"]) (use that p in \<open>auto simp: run intro!: threads.equality\<close>)
  show "moves v (moved i (newborn\<lparr>ts_at := Idle, ts_finished := True\<rparr>) l (th_tasks v) v)" if "d \<noteq> Admit" "d \<noteq> Queue"
    by (rule moves_one [of "Handle i"]) (use that in \<open>auto simp: run intro!: threads.equality\<close>)
  have "run_moves [Handle i, Post_Enqueue i] v = Some (moved i (newborn\<lparr>ts_at := Handed_Over\<rparr>) l (th_tasks v @ [Enqueue i]) v)"
    if "d = Queue" using that by (auto simp: run post_enqueue_def th_post_def intro!: threads.equality)
  then show "moves v (moved i (newborn\<lparr>ts_at := Handed_Over\<rparr>) l (th_tasks v @ [Enqueue i]) v)" if "d = Queue"
    using that unfolding moves_def by blast
qed

lemma mirrors_new:
  assumes "s_request_counted t" "\<not> s_queued t" "queue_timers t = []"
    and "u = newborn\<lparr>ts_at := if e then Handed_Over else Idle, ts_finished := s_finished t, ts_permit := has_permit t,
      ts_started := has_permit t\<rparr>"
  shows "mirrors_session e (Some t) u"
proof -
  have "u = mirror_of e (has_permit t) False t" using assms by (simp add: mirror_of_def newborn_def unborn_def)
  then show ?thesis using assms(1-3) by (auto simp: mirrors_session_def)
qed

text \<open>A request for a completion of a session that is not counted.\<close>

lemma follows_chat:
  assumes ok: "permits_ok 0 w" "mirrors w v" and i: "i < sv_next w" "Enqueue i \<notin> set (sv_tasks w)" "th_ses v i = newborn"
    and w0: "sv_sessions w0 = (sv_sessions w)(i \<mapsto> s)" "same_admission w w0" "sv_limiter w0 = sv_limiter w"
      "sv_tasks w0 = sv_tasks w" "sv_alive w0"
    and s: "is_chat (s_request s)" "\<not> s_finished s" "\<not> has_permit s" "\<not> s_queued s" "queue_timers s = []"
  shows "follows (handle_request i w0) v"
proof -
  note m = mirrorsD [OF ok(2)]
  have ses: "ses w0 i = s" using w0(1) by (simp add: ses_def)
  obtain d p k l where acq: "try_acquire_or_queue 0 (sv_limiter w) = ((d, p, k), l)" by (metis prod_cases3 prod.collapse)
  obtain u c e where u: "sv_sessions u = (sv_sessions w)(i \<mapsto> s\<lparr>s_request_counted := True\<rparr>)" "same_admission w u"
    "sv_limiter u = l" "sv_tasks u = sv_tasks w" "sv_alive u"
    and eq: "handle_request i w0 = (case d of Admit \<Rightarrow> start_proxy_request i p u | Queue \<Rightarrow> post (Enqueue i) u
      | _ \<Rightarrow> fail_with_status i c e u)"
    using handle_chat_request [of w0 i d p k l] s(1) w0 ses acq by (auto simp: same_admission_def)
  have su: "ses u i = s\<lparr>s_request_counted := True\<rparr>" using u(1) by (simp add: ses_def)
  have "i < th_next v" "try_acquire_or_queue 0 (th_limiter v) = ((d, p, k), l)" using m i acq by simp_all
  note mv = handle_moves [OF this(1) i(3) this(2)] and change = follows_moved [OF ok(2) i(1)]
  consider (admit) "d = Admit" | (queue) "d = Queue" | (no) "d \<noteq> Admit" "d \<noteq> Queue" by blast
  then show ?thesis
  proof cases
    case admit
    let ?w = "start_proxy_request i p u" and ?t = "newborn\<lparr>ts_at := Idle, ts_permit := True, ts_started := True\<rparr>"
    obtain t where t: "sv_sessions ?w = (sv_sessions w)(i \<mapsto> t)" "has_permit t" "\<not> s_queued t" "\<not> s_finished t"
      "s_request_counted t" "queue_timers t = []" "same_admission w ?w" "sv_limiter ?w = l" "sv_tasks ?w = sv_tasks w"
      using started_view [OF u(5), of i p] su s u(1-4) by (auto simp: same_admission_def)
    then have "mirrors_session False (Some t) ?t" by (intro mirrors_new) (simp_all add: newborn_def unborn_def)
    then show ?thesis using change [OF t(1,7), of ?t] mv(1) t m i(2) admit by (simp add: eq)
  next
    case queue
    have "mirrors_session True (Some (s\<lparr>s_request_counted := True\<rparr>)) (newborn\<lparr>ts_at := Handed_Over\<rparr>)"
      using s by (intro mirrors_new) (simp_all add: newborn_def unborn_def)
    then show ?thesis using change [of "post (Enqueue i) u" "Some (s\<lparr>s_request_counted := True\<rparr>)" "newborn\<lparr>ts_at := Handed_Over\<rparr>"]
      u m queue mv(2) by (auto simp: eq same_admission_def)
  next
    case no
    let ?w = "fail_with_status i c e u" and ?t = "newborn\<lparr>ts_at := Idle, ts_finished := True\<rparr>"
    have "l = sv_limiter w" using acq no by (auto simp: try_acquire_or_queue_def Let_def split: if_splits)
    then have "sound i u" using ok(1) su u s by (simp add: sound_def permits_ok_def live_def)
    from ends_fail [OF this, of c e] obtain t where t: "sv_sessions ?w = (sv_sessions w)(i \<mapsto> t)"
      "\<not> has_permit t" "\<not> s_queued t" "s_finished t" "s_request_counted t" "queue_timers t = []"
      "same_admission w ?w" "sv_limiter ?w = l" "sv_tasks ?w = sv_tasks w"
      using su s u by (auto simp: ends_def same_admission_def)
    then have "mirrors_session False (Some t) ?t" by (intro mirrors_new) (simp_all add: newborn_def unborn_def)
    moreover have "handle_request i w0 = ?w" using no by (cases d) (simp_all add: eq)
    ultimately show ?thesis using change [OF t(1,7), of ?t] mv(3) [OF no] t m i(2) by simp
  qed
qed

lemma unmet_session:
  assumes "protocol_ok w" "mirrors w v" "i < sv_next w" "sv_sessions w i = Some s" "a \<in> set (s_pending s)"
    "a = Read_Request \<or> a = Write_Response"
  shows "\<not> s_finished s" "\<not> has_permit s" "\<not> s_request_counted s" "\<not> s_queued s" "Enqueue i \<notin> set (sv_tasks w)"
    "th_ses v i = newborn" "queue_timers s = []"
proof -
  have so: "session_ok (posted i w) s" using assms(1,4) by (simp add: protocol_except_def)
  have "main_op a" "\<not> upstream_op a" using assms(6) by (auto simp: main_op_def)
  note b = busy_single [OF so assms(5) this(1)]
  show s: "\<not> s_finished s" "\<not> has_permit s" "\<not> s_request_counted s" "\<not> s_queued s" "Enqueue i \<notin> set (sv_tasks w)"
    using b session_okD(2,3,4) [OF so] \<open>\<not> upstream_op a\<close> not_posted by (auto simp: pending_request_def)
  show "th_ses v i = newborn" "queue_timers s = []"
    using mirrorsD(7) [OF assms(2,3)] assms(4) s by (auto simp: mirrors_session_def)
qed

lemma follows_unmet:
  assumes "permits_ok 0 w" "protocol_ok w" "mirrors w v" "sv_sessions w i = Some s" "a \<in> set (s_pending s)"
    "a = Read_Request \<or> a = Write_Response"
    and w': "sv_sessions w' = (sv_sessions w)(i \<mapsto> t)" "same_admission w w'" "sv_limiter w' = sv_limiter w" "sv_tasks w' = sv_tasks w"
    and t: "s_request_counted t = s_request_counted s" "s_permit t = s_permit s" "s_queued t = s_queued s"
      "queue_timers t = queue_timers s"
  shows "follows w' v"
proof -
  have n: "i < sv_next w" using live_next [OF assms(1)] assms(4) by (simp add: live_def)
  note u = unmet_session [OF assms(2,3) n assms(4-6)]
  show ?thesis
    by (rule follows_moved [OF assms(3) n w'(1,2), of newborn])
      (use u w' t mirrorsD [OF assms(3)] moves_refl moved_same [of i v] in \<open>simp_all add: mirrors_session_def\<close>)
qed

lemma follows_request:
  assumes ok: "permits_ok 0 w" "protocol_ok w" "mirrors w v" and s: "sv_sessions w i = Some s" "Read_Request \<in> set (s_pending s)"
    and w0: "w0 = upd i (\<lambda>s. (completed Read_Request s)\<lparr>s_request := rq\<rparr>) w"
  shows "follows (handle_request i w0) v"
proof -
  have live: "live i w" "ses w i = s" using s(1) by (simp_all add: live_def ses_def)
  note n = live_next [OF ok(1) live(1)]
  note new = unmet_session [OF ok(2,3) n s]
  define s0 where "s0 = (completed Read_Request s)\<lparr>s_request := rq\<rparr>"
  have w0': "sv_sessions w0 = (sv_sessions w)(i \<mapsto> s0)" "ses w0 i = s0" "same_admission w w0" "sv_limiter w0 = sv_limiter w"
    "sv_tasks w0 = sv_tasks w" "sv_alive w0"
    using live ok(1) by (simp_all add: w0 s0_def same_admission_def permits_ok_def)
  show ?thesis
  proof (cases "is_chat rq")
    case False
    have step: "stays i w w0" unfolding w0 by (rule stays_upd) (simp add: admission_view_def)
    then have "settles i w0 (handle_request i w0)"
      using settles_other_request [OF stays_sound [OF step sound_ok [OF ok(1) live(1)]]] False w0'(2) by (simp add: s0_def)
    then have "settles i w (handle_request i w0)" by (rule settles_before [OF step])
    moreover have "s_pending s \<noteq> []" using s(2) by auto
    ultimately show ?thesis using follows_settled [OF ok live(1)] new(4) live(2) by (auto simp: settles_def)
  next
    case True
    then show ?thesis
      by (intro follows_chat [OF ok(1,3) n _ _ w0'(1,3-6)]) (use new in \<open>simp_all add: s0_def\<close>)
  qed
qed

text \<open>A session that nothing holds.\<close>

lemma follows_reap:
  assumes "mirrors w v" "numbered w"
    and idle: "\<And>s. sv_sessions w i = Some s \<Longrightarrow> s_pending s = [] \<Longrightarrow> Enqueue i \<notin> set (sv_tasks w) \<Longrightarrow> \<not> has_permit s"
  shows "follows (reap i w) v"
proof (cases "\<exists>s. sv_sessions w i = Some s \<and> s_pending s = [] \<and> Enqueue i \<notin> set (sv_tasks w)")
  case True
  then obtain s where s: "sv_sessions w i = Some s" "s_pending s = []" "Enqueue i \<notin> set (sv_tasks w)" by blast
  define t where "t = th_ses v i"
  note m = mirrorsD [OF assms(1)]
  have n: "i < sv_next w" using assms(2) s(1) by (simp add: numbered_def live_def)
  have ms: "mirrors_session False (Some s) t" using m(7) [OF n] s by (simp add: t_def)
  have "queue_timers s = []" using s(2) by (simp add: queue_timers_def)
  then have dead: "\<not> s_queued s" "\<not> has_permit s" "ts_at t = Idle \<or> ts_at t = Reading" "\<not> ts_timer t" "\<not> ts_queued t" "\<not> ts_permit t"
    using ms idle [OF s] by (auto simp: mirrors_session_def mirror_of_def newborn_def unborn_def split: if_splits)
  have eq: "reap i w = w\<lparr>sv_sessions := (sv_sessions w)(i := None)\<rparr>" using s dead(1,2) by (rule reap_idle)
  have "moves v (moved i (t\<lparr>ts_dead := True, ts_at := Gone\<rparr>) (th_limiter v) (th_tasks v) v)"
    by (rule death_moves) (use n m dead s(3) in \<open>simp_all add: t_def\<close>)
  then show ?thesis
    by (intro follows_moved [OF assms(1) n, of _ None "t\<lparr>ts_dead := True, ts_at := Gone\<rparr>"])
      (use m in \<open>simp_all add: eq same_admission_def mirrors_session_def\<close>)
next
  case False
  then have "reap i w = w" by (auto simp: reap_def split: option.splits)
  then show ?thesis using mirrors_follows [OF assms(1)] by simp
qed

lemma idle_session:
  "protocol_ok w \<Longrightarrow> sv_sessions w i = Some s \<Longrightarrow> s_pending s = [] \<Longrightarrow> Enqueue i \<notin> set (sv_tasks w) \<Longrightarrow> \<not> has_permit s"
  using session_okD(3) [of "posted i w" s] by (auto simp: protocol_except_def busy_def)

lemma follows_then_reap:
  assumes "follows w v" "permits_ok 0 w" "protocol_ok w"
  shows "follows (reap i w) v"
proof -
  obtain v' where v': "moves v v'" "mirrors w v'" using assms(1) by (auto simp: follows_def)
  have "follows (reap i w) v'"
    using follows_reap [OF v'(2)] assms(2) idle_session [OF assms(3)] by (simp add: permits_ok_def)
  then show ?thesis by (rule follows_trans [OF v'(1)])
qed

text \<open>Every completion.\<close>

lemma follows_completion:
  assumes ok: "permits_ok 0 w" "protocol_ok w" "mirrors w v" and s: "sv_sessions w i = Some s" "a \<in> set (s_pending s)"
    "completes c a"
  shows "follows (on_completion i c (upd i (completed a) w)) v"
proof -
  define w0 where "w0 = upd i (completed a) w"
  have live: "live i w" "ses w i = s" using s(1) by (simp_all add: live_def ses_def)
  have so: "session_ok (posted i w) s" using ok(2) s(1) by (simp add: protocol_except_def)
  have step: "stays i w w0" if "\<not> is_queue_timer a"
    unfolding w0_def by (rule stays_upd) (use that in \<open>simp add: admission_view_def\<close>)
  have sound: "sound i w0" if "\<not> is_queue_timer a"
    using stays_sound [OF step [OF that] sound_ok [OF ok(1) live(1)]] .
  have settled: "follows w' v" if "settles i w0 w'" "\<not> is_queue_timer a" "\<not> s_queued s" for w'
  proof -
    have "s_pending s \<noteq> []" using s(2) by auto
    then show ?thesis using follows_settled [OF ok live(1)] settles_before [OF step that(1)] that(2,3) live(2)
      by (auto simp: settles_def)
  qed
  have stayed: "follows (upd i f w0) v" if "\<not> is_queue_timer a" "admission_view (f (ses w0 i)) = admission_view (ses w0 i)" for f
    using follows_settled [OF ok live(1)] stays_comp [OF step [OF that(1)] stays_upd [of f w0 i, OF that(2)]] by blast
  note unmet = follows_unmet [OF ok s(1,2)]
  show ?thesis unfolding w0_def [symmetric]
  proof (cases "upstream_op a")
    case True
    then have a: "\<not> is_queue_timer a" by (cases a) simp_all
    have "\<not> s_queued s" using busy_single(3) [OF so s(2) upstream_main [OF True]] .
    then show "follows (on_completion i c w0) v" using settled [OF settles_upstream [OF sound [OF a] s(3) True] a] by blast
  next
    case False
    show "follows (on_completion i c w0) v"
    proof (cases c)
      case (Request_Read r)
      then have a: "a = Read_Request" using s(3) by simp
      show ?thesis
      proof (cases r)
        case None
        then show ?thesis using unmet [of "on_completion i c w0" "completed a s\<lparr>s_finished := True\<rparr>"] a Request_Read live
          by (simp add: w0_def same_admission_def)
      next
        case (Some rq)
        have "handle_request i (upd i (\<lambda>s. s\<lparr>s_request := rq\<rparr>) w0) =
          handle_request i (upd i (\<lambda>s. (completed Read_Request s)\<lparr>s_request := rq\<rparr>) w)"
          by (simp add: w0_def a upd_def ses_def)
        then show ?thesis using follows_request [OF ok s(1) _ refl, of rq] s(2) a Request_Read Some by simp
      qed
    next
      case (Response_Written k)
      then show ?thesis using unmet [of "on_completion i c w0" "completed a s\<lparr>s_finished := True, s_client_open := False\<rparr>"]
          s(3) live by (simp add: w0_def same_admission_def close_client_def)
    next
      case (Error_Written k)
      then show ?thesis using stayed [of "s_client_open_update (\<lambda>_. False)"] s(3)
        by (simp add: close_client_def admission_view_def)
    next
      case (Queue_Timer_Done expired)
      then show ?thesis using follows_queue_timer [OF ok s(1)] s(2,3) by (auto simp: w0_def simp del: on_queue_timer_def)
    next
      case (Request_Timer_Done expired)
      then obtain b where a: "a = Request_Timer b" using s(3) by auto
      have id: "follows w0 v" using stayed [of "\<lambda>s. s"] a by (simp add: w0_def upd_def ses_def)
      have "\<not> s_queued s" if "\<not> s_finished s" using request_timer_answerable(3) [OF so s(2) [unfolded a] that] .
      then show ?thesis using id settled [OF settles_fail [OF sound]] a Request_Timer_Done live(2) by (simp add: w0_def)
    qed (use False s(3) in auto)
  qed
qed

subsection \<open>The server's closures\<close>

lemma strand_task_moves:
  assumes "th_server v = Free" "th_tasks v = t # ts"
  shows "moves v (strand_task t (v\<lparr>th_tasks := ts\<rparr>))"
  by (rule moves_one [of Strand]) (use assms in simp)

lemma follows_enqueue:
  assumes ok: "permits_ok 0 w" "protocol_ok w" "mirrors w v" and tasks: "sv_tasks w = Enqueue i # ts"
  shows "follows (reap i (enqueue_session i (w\<lparr>sv_tasks := ts\<rparr>))) v"
proof -
  note m = mirrorsD [OF ok(3)]
  have live: "live i w" and alive: "sv_alive w" and num: "numbered w" using ok(1) tasks by (auto simp: permits_ok_def)
  note n = live_next [OF ok(1) live]
  obtain s where s: "sv_sessions w i = Some s" "ses w i = s" using live by (simp add: live_ses)
  have so: "session_ok (posted i w) s" using ok(2) s(1) by (simp add: protocol_except_def)
  have "1 \<le> posted i w" using tasks by (simp add: posted_def)
  then have p: "posted i w = 1" using session_okD(1) [OF so] by (simp split: if_splits)
  have idle: "\<not> s_queued s" "\<not> has_permit s" "s_pending s = []" "s_request_counted s"
    using session_okD(1,3,5,9) [OF so] p by (auto split: if_splits)
  have ts: "Enqueue i \<notin> set ts" using p tasks by (simp add: posted_def count_list_0_iff)
  have q: "queue_timers s = []" using idle(3) by (simp add: queue_timers_def)
  obtain st out where t: "th_ses v i = mirror_of True st out s"
    using m(7) [OF n] s(1) tasks idle by (auto simp: mirrors_session_def)
  define v1 where "v1 = strand_task (Enqueue i) (v\<lparr>th_tasks := filter (\<lambda>t. t \<noteq> Do_Accept) ts\<rparr>)"
  define w1 where "w1 = enqueue_session i (w\<lparr>sv_tasks := ts\<rparr>)"
  have mv: "moves v v1" unfolding v1_def by (rule strand_task_moves) (use m(4,5) tasks in simp_all)
  have others: "mirrors_session (Enqueue j \<in> set ts) (sv_sessions w j) (th_ses v j)" if "j < sv_next w" "j \<noteq> i" for j
    using m(7) [OF that(1)] that(2) tasks by simp
  have bound: "\<forall>j\<in>set (sv_queued_sessions w). j < sv_next w" using ok(3) by (simp add: mirrors_def)
  have same: "sv_limiter w1 = sv_limiter w" "sv_next w1 = sv_next w" "sv_tasks w1 = ts" "sv_stopping w1 = sv_stopping w"
    using alive by (simp_all add: w1_def enqueue_session_def start_queue_timer_def close_client_def Let_def)
  have "mirrors w1 v1"
  proof (cases "sv_stopping w")
    case True
    let ?s = "s\<lparr>s_client_open := False\<rparr>"
    have w1: "sv_sessions w1 = (sv_sessions w)(i \<mapsto> ?s)" "sv_queued_sessions w1 = sv_queued_sessions w"
      using True s by (simp_all add: w1_def enqueue_session_def close_client_def ses_def)
    have v1: "th_ses v1 = (th_ses v)(i := mirror_of False st out ?s)"
      using True t m(6) by (simp add: v1_def mirror_of_def queue_timers_def)
    have "mirrors_session False (Some ?s) (mirror_of False st out ?s)" using idle q by (auto simp: mirrors_session_def)
    then show ?thesis using True m others bound w1 v1 ts same by (simp add: mirrors_def) (simp add: v1_def)
  next
    case False
    let ?s = "await (Queue_Timer False) (s\<lparr>s_queued := True\<rparr>)"
    have w1: "sv_sessions w1 = (sv_sessions w)(i \<mapsto> ?s)" "sv_queued_sessions w1 = sv_queued_sessions w @ [i]"
      using False alive s by (simp_all add: w1_def enqueue_session_def start_queue_timer_def ses_def Let_def)
    have v1: "th_ses v1 = (th_ses v)(i := mirror_of False st out ?s)"
      using False t m(6) by (simp add: v1_def mirror_of_def)
    have "mirrors_session False (Some ?s) (mirror_of False st out ?s)" using idle q by (auto simp: mirrors_session_def)
    then show ?thesis using False m others bound w1 v1 ts same n by (simp add: mirrors_def) (simp add: v1_def)
  qed
  moreover have "numbered w1" using num live same(2)
    by (auto simp: w1_def enqueue_session_def start_queue_timer_def close_client_def Let_def numbered_def live_def split: if_splits)
  moreover have "\<not> has_permit s'" if "sv_sessions w1 i = Some s'" for s'
    using that idle s alive by (auto simp: w1_def enqueue_session_def start_queue_timer_def close_client_def Let_def ses_def
        split: if_splits)
  ultimately show ?thesis using follows_trans [OF mv follows_reap] unfolding w1_def by blast
qed

lemma close_clients_same:
  "map_option admission_view (sv_sessions (close_clients q w) i) = map_option admission_view (sv_sessions w i) \<and>
    sv_limiter (close_clients q w) = sv_limiter w \<and> sv_tasks (close_clients q w) = sv_tasks w \<and> same_admission w (close_clients q w)"
proof (induction q arbitrary: w)
  case (Cons j q)
  then show ?case using Cons [of "close_client j w"]
    by (auto simp: close_client_def same_admission_def admission_view_def ses_def)
qed (simp add: same_admission_def)

lemma follows_stop:
  assumes "mirrors w v" "sv_tasks w = Stop_Server # ts"
  shows "follows (stop_server (w\<lparr>sv_tasks := ts\<rparr>)) v"
proof -
  note m = mirrorsD [OF assms(1)]
  define w1 where "w1 = w\<lparr>sv_tasks := ts, sv_stopping := True, sv_limiter := close_limiter (sv_limiter w)\<rparr>"
  let ?v = "strand_task Stop_Server (v\<lparr>th_tasks := filter (\<lambda>t. t \<noteq> Do_Accept) ts\<rparr>)"
  have mv: "moves v ?v" by (rule strand_task_moves) (use m(4,5) assms(2) in simp_all)
  have "mirrors (w1\<lparr>sv_queued_sessions := []\<rparr>) ?v" using assms by (simp add: mirrors_def w1_def)
  then have "mirrors (stop_server (w\<lparr>sv_tasks := ts\<rparr>)) ?v"
    by (rule mirrors_cong) (use close_clients_same [of "sv_queued_sessions w" w1] in
      \<open>simp_all add: stop_server_def Let_def w1_def same_admission_def\<close>)
  then show ?thesis using mv unfolding follows_def by blast
qed

text \<open>The promotion: the strand is in its loop, with the rest of the list.\<close>

definition looks :: "nat list \<Rightarrow> server \<Rightarrow> threads \<Rightarrow> bool" where
  "looks q w v \<longleftrightarrow> th_server v = Looking \<and> mirrors (w\<lparr>sv_queued_sessions := q\<rparr>) (v\<lparr>th_server := Free\<rparr>)"

lemma looksD:
  assumes "looks q w v"
  shows "th_limiter v = sv_limiter w" "th_next v = sv_next w" "th_list v = q"
    "th_tasks v = filter (\<lambda>t. t \<noteq> Do_Accept) (sv_tasks w)" "th_server v = Looking" "th_stopping v = sv_stopping w"
    "i < sv_next w \<Longrightarrow> mirrors_session (Enqueue i \<in> set (sv_tasks w)) (sv_sessions w i) (th_ses v i)"
    "j \<in> set q \<Longrightarrow> j < sv_next w"
  using assms by (auto simp: looks_def mirrors_def)

lemma promotion_moves:
  assumes "th_server v = Looking" "th_list v = i # q" "ts_queued (th_ses v i)" "\<not> ts_dead (th_ses v i)"
    "\<not> ts_finished (th_ses v i)" "\<not> ts_permit (th_ses v i)" "try_promote_queued 0 (th_limiter v) = (p, l)" "valid p"
  shows "moves v (v\<lparr>th_list := q, th_limiter := l,
    th_ses := (th_ses v)(i := (th_ses v i)\<lparr>ts_queued := False, ts_permit := True, ts_started := True\<rparr>)\<rparr>)"
proof -
  have "run_moves (replicate 6 Strand) v = Some (v\<lparr>th_list := q, th_limiter := l,
    th_ses := (th_ses v)(i := (th_ses v i)\<lparr>ts_queued := False, ts_permit := True, ts_started := True\<rparr>)\<rparr>)"
    using assms by (auto simp: numeral_eq_Suc promote_look_def promote_try_def start_check_queued_def
        start_check_finished_def start_store_def start_give_def th_upd_def Let_def intro!: threads.equality)
  then show ?thesis unfolding moves_def by blast
qed

lemma refusal_moves:
  assumes "th_server v = Looking" "th_list v = i # q" "ts_queued (th_ses v i)" "\<not> ts_dead (th_ses v i)"
    "try_promote_queued 0 (th_limiter v) = (p, th_limiter v)" "\<not> valid p"
  shows "moves v (if queued_requests (th_limiter v) = 0 then v\<lparr>th_list := q\<rparr> else v\<lparr>th_server := Free\<rparr>)"
proof -
  have "run_moves (replicate 3 Strand) v =
    Some (if queued_requests (th_limiter v) = 0 then v\<lparr>th_list := q\<rparr> else v\<lparr>th_server := Free\<rparr>)"
    using assms by (auto simp: numeral_eq_Suc promote_look_def promote_try_def promote_refused_def snapshot_def Let_def
        intro!: threads.equality)
  then show ?thesis unfolding moves_def by blast
qed

lemma follows_skip:
  assumes "looks (i # q) w v" "ts_dead (th_ses v i) \<or> \<not> ts_queued (th_ses v i)"
  shows "moves v (v\<lparr>th_list := q\<rparr>)" "looks q w (v\<lparr>th_list := q\<rparr>)"
proof -
  have v: "th_server v = Looking" "th_list v = i # q" using looksD(5,3) [OF assms(1)] by simp_all
  have "move_exec Strand v = Some (v\<lparr>th_list := q\<rparr>)" using v assms(2)
    by (auto simp: promote_look_def Let_def intro!: threads.equality)
  then show "moves v (v\<lparr>th_list := q\<rparr>)" by (rule moves_one)
  show "looks q w (v\<lparr>th_list := q\<rparr>)" using assms(1) by (simp add: looks_def mirrors_def)
qed

lemma waiting_mirrored:
  assumes "protocol_ok w" "looks (i # q) w v" "sv_sessions w i = Some s" "s_queued s"
  shows "\<exists>started out. th_ses v i = mirror_of False started out s" "queue_timers s = [Queue_Timer False]"
    "\<not> s_finished s" "\<not> has_permit s" "s_request_counted s" "Enqueue i \<notin> set (sv_tasks w)"
proof -
  have n: "i < sv_next w" using looksD(8) [OF assms(2)] by simp
  have so: "session_ok (posted i w) s" using assms(1,3) by (simp add: protocol_except_def)
  show idle: "\<not> s_finished s" "\<not> has_permit s" "s_request_counted s" "Enqueue i \<notin> set (sv_tasks w)"
    using session_okD(1-3,5) [OF so] assms(4) not_posted by (auto split: if_splits)
  show "\<exists>started out. th_ses v i = mirror_of False started out s" "queue_timers s = [Queue_Timer False]"
    using looksD(7) [OF assms(2) n] assms(3,4) idle by (auto simp: mirrors_session_def)
qed

lemma follows_promoted:
  assumes ok: "permits_ok 0 w" "protocol_ok w" "looks (i # q) w v" and s: "sv_sessions w i = Some s" "s_queued s"
    and pl: "try_promote_queued 0 (sv_limiter w) = (p, l)" "valid p"
    and w': "w' = start_proxy_request i p (upd i (\<lambda>s. cancel_queue_timer (s\<lparr>s_queued := False\<rparr>)) (w\<lparr>sv_limiter := l\<rparr>))"
  shows "permits_ok 0 w'" "protocol_ok w'" "\<exists>v'. moves v v' \<and> looks q w' v'"
proof -
  note m = looksD [OF ok(3)] and idle = waiting_mirrored [OF ok(2,3) s]
  have live: "live i w" "ses w i = s" using s(1) by (simp_all add: live_def ses_def)
  obtain started out where t: "th_ses v i = mirror_of False started out s" using idle(1) by blast
  show "permits_ok 0 w'" "protocol_ok w'"
    using permits_promoted(3) [OF ok(1) live(1) pl] promoted_step [OF ok(1,2) s pl refl, of q] by (simp_all add: w')
  define u where "u = upd i (\<lambda>s. cancel_queue_timer (s\<lparr>s_queued := False\<rparr>)) (w\<lparr>sv_limiter := l\<rparr>)"
  have u: "sv_alive u" "ses u i = cancel_queue_timer (s\<lparr>s_queued := False\<rparr>)" "s_permit (ses u i) = None"
    "sv_sessions u = (sv_sessions w)(i \<mapsto> cancel_queue_timer (s\<lparr>s_queued := False\<rparr>))"
    "same_admission w u" "sv_limiter u = l" "sv_tasks u = sv_tasks w"
    using ok(1) live idle(4) by (simp_all add: u_def permits_ok_def ses_def same_admission_def)
  obtain s' where s': "sv_sessions w' = (sv_sessions w)(i \<mapsto> s')" "has_permit s'" "\<not> s_queued s'" "\<not> s_finished s'"
    "s_request_counted s'" "queue_timers s' = [Queue_Timer True]" "same_admission w w'" "sv_limiter w' = l"
    "sv_tasks w' = sv_tasks w"
    using started_view [OF u(1,3), of p, folded w' [folded u_def]] u(2,4-7) idle by (auto simp: same_admission_def)
  let ?t = "(th_ses v i)\<lparr>ts_queued := False, ts_permit := True, ts_started := True\<rparr>"
  let ?v = "v\<lparr>th_list := q, th_limiter := l, th_ses := (th_ses v)(i := ?t)\<rparr>"
  have "moves v ?v"
    by (rule promotion_moves [OF m(5,3)]) (use pl m(1) t s(2) idle in \<open>simp_all add: mirror_of_def\<close>)
  moreover have "?t = mirror_of False True out s'" using t s' idle by (simp add: mirror_of_def)
  then have "mirrors_session False (Some s') ?t" using s' by (auto simp: mirrors_session_def)
  then have "looks q w' ?v" using m idle(6) s' ok(3) by (auto simp: looks_def mirrors_def same_admission_def)
  ultimately show "\<exists>v'. moves v v' \<and> looks q w' v'" by blast
qed

lemma follows_promote_loop:
  assumes "permits_ok 0 w" "protocol_ok w" "looks q w v"
  shows "follows (promote_loop q w) v"
  using assms
proof (induction q arbitrary: w v)
  case Nil
  have "move_exec Strand v = Some (v\<lparr>th_server := Free\<rparr>)" using looksD(3,5) [OF Nil.prems(3)]
    by (simp add: promote_look_def)
  then have "moves v (v\<lparr>th_server := Free\<rparr>)" by (rule moves_one)
  then show ?case using Nil.prems(3) by (auto simp: follows_def looks_def)
next
  case (Cons i q)
  note m = looksD [OF Cons.prems(3)]
  show ?case
  proof (cases "\<exists>s. sv_sessions w i = Some s \<and> s_queued s")
    case False
    then have "promote_loop (i # q) w = promote_loop q w" by (auto simp: is_queued_def ses_def)
    moreover have "ts_dead (th_ses v i) \<or> \<not> ts_queued (th_ses v i)" using m(7,8) [of i] False
      by (auto simp: mirrors_session_def newborn_def unborn_def mirror_of_def split: option.splits if_splits)
    note skip = follows_skip [OF Cons.prems(3) this]
    ultimately show ?thesis using follows_trans [OF skip(1) Cons.IH [OF Cons.prems(1,2) skip(2)]] by simp
  next
    case True
    then obtain s where s: "sv_sessions w i = Some s" "s_queued s" by blast
    note idle = waiting_mirrored [OF Cons.prems(2,3) s]
    obtain p l where pl: "try_promote_queued 0 (sv_limiter w) = (p, l)" by fastforce
    show ?thesis
    proof (cases "valid p")
      case True
      let ?w = "start_proxy_request i p (upd i (\<lambda>s. cancel_queue_timer (s\<lparr>s_queued := False\<rparr>)) (w\<lparr>sv_limiter := l\<rparr>))"
      have "promote_loop (i # q) w = promote_loop q ?w"
        using pl True s idle(3) by (simp add: try_start_from_queue_def is_queued_def ses_def)
      then show ?thesis using follows_promoted [OF Cons.prems s pl True refl] Cons.IH follows_trans by metis
    next
      case False
      then have l: "l = sv_limiter w" "w\<lparr>sv_limiter := l\<rparr> = w"
        using pl by (auto simp: try_promote_queued_def valid_def new_permit_def split: if_splits)
      have mv: "moves v (if queued_requests (th_limiter v) = 0 then v\<lparr>th_list := q\<rparr> else v\<lparr>th_server := Free\<rparr>)"
        by (rule refusal_moves [OF m(5,3) _ _ _ False]) (use pl l(1) m(1) idle(1) s(2) in \<open>auto simp: mirror_of_def\<close>)
      have next': "promote_loop (i # q) w = (if queued_requests (sv_limiter w) = 0 then promote_loop q w
          else w\<lparr>sv_queued_sessions := i # q\<rparr>)"
        using pl False s l by (simp add: snapshot_def is_queued_def ses_def)
      have "looks q w (v\<lparr>th_list := q\<rparr>)" using Cons.prems(3) by (simp add: looks_def mirrors_def)
      note rest = Cons.IH [OF Cons.prems(1,2) this]
      show ?thesis using mv next' m(1) follows_trans [OF _ rest] Cons.prems(3)
        by (auto simp: follows_def looks_def split: if_splits)
    qed
  qed
qed

lemma follows_promote:
  assumes "permits_ok 0 (w\<lparr>sv_tasks := ts\<rparr>)" "protocol_ok (w\<lparr>sv_tasks := ts\<rparr>)" "mirrors w v" "sv_tasks w = Promote_Queued # ts"
  shows "follows (promote_queued_sessions (w\<lparr>sv_tasks := ts\<rparr>)) v"
proof -
  let ?v = "strand_task Promote_Queued (v\<lparr>th_tasks := filter (\<lambda>t. t \<noteq> Do_Accept) ts\<rparr>)"
  have mv: "moves v ?v" by (rule strand_task_moves) (use mirrorsD(4,5) [OF assms(3)] assms(4) in simp_all)
  have "looks (sv_queued_sessions w) (w\<lparr>sv_tasks := ts\<rparr>) ?v" using assms(3,4) by (simp add: looks_def mirrors_def)
  from follows_promote_loop [OF assms(1,2) this] show ?thesis
    unfolding promote_queued_sessions_def by (simp add: follows_trans [OF mv])
qed

lemma follows_task:
  assumes ok: "permits_ok 0 w" "protocol_ok w" "mirrors w v" and t: "sv_tasks w = t # ts"
  shows "follows (run_task t (w\<lparr>sv_tasks := ts\<rparr>)) v"
proof (cases t)
  case Do_Accept
  have "mirrors (do_accept (w\<lparr>sv_tasks := ts\<rparr>)) v"
    by (rule mirrors_cong [OF ok(3)]) (simp_all add: do_accept_def t Do_Accept)
  then show ?thesis using mirrors_follows Do_Accept by simp
next
  case (Enqueue i)
  then show ?thesis using follows_enqueue [OF ok] t by simp
next
  case Promote_Queued
  have "permits_ok 0 (w\<lparr>sv_tasks := ts\<rparr>)" "protocol_ok (w\<lparr>sv_tasks := ts\<rparr>)" using ok(1,2) t Promote_Queued
    by (auto intro: permits_ok_cong simp: protocol_except_def posted_def enqueues_def balance_def tally_def)
  from follows_promote [OF this ok(3)] show ?thesis using t Promote_Queued by simp
next
  case Stop_Server
  then show ?thesis using follows_stop [OF ok(3)] t by simp
qed

subsection \<open>Every event\<close>

lemma follows_accept:
  assumes "mirrors w v" "permits_ok 0 w"
  shows "follows (on_accept k w) v"
proof -
  have "follows (start_session w) v"
  proof (cases "new_parser (if sv_alive w then pc_max_sse_buffer_bytes (sv_config w) else 1024 * 1024)")
    case (Inl e)
    then have "mirrors (start_session w) v" by (intro mirrors_cong [OF assms(1)]) (simp_all add: start_session_def)
    then show ?thesis by (rule mirrors_follows)
  next
    case (Inr p)
    let ?s = "await Read_Request (new_session p)"
    have eq: "start_session w = w\<lparr>sv_sessions := (sv_sessions w)(sv_next w \<mapsto> ?s), sv_next := sv_next w + 1\<rparr>"
      using Inr by (simp add: start_session_def)
    have "\<not> live (sv_next w) w" using assms(2) by (auto simp: permits_ok_def numbered_def)
    then have e: "Enqueue (sv_next w) \<notin> set (sv_tasks w)" using assms(2) by (auto simp: permits_ok_def)
    have "queue_timers (new_session p) = []" by (simp add: queue_timers_def new_session_def)
    then have "mirrors_session False (Some ?s) newborn"
      by (simp add: mirrors_session_def await_def) (simp add: new_session_def queue_timers_def)
    then have "mirrors (start_session w) (connect_new v)" using assms(1) e
      by (auto simp: mirrors_def eq connect_new_def newborn_def less_Suc_eq)
    moreover have "moves v (connect_new v)" by (rule moves_one [of Connect_New]) simp
    ultimately show ?thesis unfolding follows_def by blast
  qed
  moreover have "follows (do_accept u) v" if "follows u v" for u
    using that mirrors_cong [of u _ "do_accept u"] by (auto simp: follows_def do_accept_def)
  ultimately show ?thesis using mirrors_follows [OF assms(1)] by (simp add: on_accept_def Let_def)
qed

lemma follows_event:
  assumes ok: "permits_ok 0 w" "protocol_ok w" "queue_ok w" "mirrors w v" and e: "exec_event e w = Some w'"
  shows "follows w' v"
proof -
  have still: "follows w' v" if "sv_limiter w' = sv_limiter w" "same_admission w w'" "sv_sessions w' = sv_sessions w"
    "sv_tasks w' = sv_tasks w"
    by (rule mirrors_follows, rule mirrors_cong [OF ok(4)]) (use that in \<open>simp_all add: same_admission_def\<close>)
  have stop: "follows ((post Stop_Server w)\<lparr>sv_running := r\<rparr>) v" for r
  proof -
    have "mirrors ((post Stop_Server w)\<lparr>sv_running := r\<rparr>) (th_post Stop_Server v)" using ok(4) by (simp add: mirrors_def)
    moreover have "moves v (th_post Stop_Server v)" by (rule moves_one [of Stop_Request]) simp
    ultimately show ?thesis unfolding follows_def by blast
  qed
  show ?thesis
  proof (cases e)
    case (Complete i a c)
    then obtain s where s: "sv_sessions w i = Some s" "a \<in> set (s_pending s)" "completes c a"
      and w': "w' = reap i (on_completion i c (upd i (completed a) w))"
      using e by (auto simp: completed_def [abs_def] split: option.splits if_splits)
    have live: "live i w" using s(1) by (simp add: live_def)
    show ?thesis unfolding w' using follows_completion [OF ok(1,2,4) s]
        permits_on_completion [OF permits_upd [OF ok(1) live, of "completed a"]] completion_step(1) [OF ok(1,2) s]
      by (intro follows_then_reap) (simp_all add: completed_def)
  next
    case Run_Task
    then obtain t ts where "sv_tasks w = t # ts" "w' = run_task t (w\<lparr>sv_tasks := ts\<rparr>)"
      using e by (auto split: list.splits)
    then show ?thesis using follows_task [OF ok(1,2,4)] by simp
  next
    case (Accepted k)
    have "mirrors (w\<lparr>sv_accepting := False\<rparr>) v" by (rule mirrors_cong [OF ok(4)]) simp_all
    moreover have "permits_ok 0 (w\<lparr>sv_accepting := False\<rparr>)" using ok(1) by (rule permits_fields)
    ultimately show ?thesis using follows_accept e Accepted by (auto split: if_splits)
  next
    case (Tick d)
    then show ?thesis using e by (intro still) (auto simp: same_admission_def)
  next
    case Stop_Call
    then show ?thesis using e stop [of "sv_running w"] by (auto simp: post_def)
  next
    case Signal
    then show ?thesis using e stop [of False] by auto
  qed
qed

lemma started_mirrors:
  assumes "make_server config = Inr w" "start_server True w = Some w'"
  shows "\<exists>v. start_threads (pc_max_inflight config) (pc_max_queue_size config) = Inr v \<and> mirrors w' v"
  using assms by (auto simp: make_server_def start_server_def start_threads_def mirrors_def post_def split: sum.splits)

subsection \<open>The refinement\<close>

lemma reachable_mirrored:
  "reachable config w \<Longrightarrow> \<exists>v. interleaves (pc_max_inflight config) (pc_max_queue_size config) v \<and> mirrors w v"
proof (induction rule: reachable.induct)
  case (start w w')
  then show ?case using started_mirrors [OF start] interleaves.start by blast
next
  case (step w e w')
  then obtain v where v: "interleaves (pc_max_inflight config) (pc_max_queue_size config) v" "mirrors w v" by blast
  have ok: "permits_ok 0 w" "protocol_ok w" "queue_ok w" using reachable_ok [OF step(1)] by blast+
  have "exec_event e w = Some w'" using step(2) by (blast elim: server_stepE)
  then obtain v' where "moves v v'" "mirrors w' v'" using follows_event [OF ok v(2)] by (auto simp: follows_def)
  then show ?case using moves_interleaves [OF v(1)] by blast
qed

lemma mirrors_flags:
  assumes "permits_ok 0 w" "mirrors w v" "sv_sessions w i = Some s"
  shows "ts_queued (th_ses v i) = s_queued s" "ts_permit (th_ses v i) = has_permit s"
    "s_request_counted s \<Longrightarrow> ts_finished (th_ses v i) = s_finished s"
proof -
  have "i < sv_next w" using live_next [OF assms(1)] assms(3) by (simp add: live_def)
  from mirrorsD(7) [OF assms(2) this] show "ts_queued (th_ses v i) = s_queued s" "ts_permit (th_ses v i) = has_permit s"
    "s_request_counted s \<Longrightarrow> ts_finished (th_ses v i) = s_finished s"
    by (auto simp: assms(3) mirrors_session_def mirror_of_def newborn_def unborn_def split: if_splits)
qed

text \<open>
  C11: one thread is one of the interleavings. Every reachable state of the proxy with one worker thread is
  mirrored by a state of the interleaved strands: the same limiter, the same list of waiting sessions, and
  for each session the same flags \<open>queued_\<close> and \<open>finished_\<close> and the same permit. Every further event is
  mirrored by a sequence of moves of the strands. So what holds in every interleaving holds for the proxy.
\<close>

theorem one_thread_is_an_interleaving:
  assumes "reachable config w"
  shows "\<exists>v. interleaves (pc_max_inflight config) (pc_max_queue_size config) v \<and> mirrors w v \<and>
    th_limiter v = sv_limiter w \<and> th_list v = sv_queued_sessions w \<and> th_stopping v = sv_stopping w \<and>
    (\<forall>i s. sv_sessions w i = Some s \<longrightarrow> ts_queued (th_ses v i) = s_queued s \<and>
      ts_permit (th_ses v i) = has_permit s \<and> (s_request_counted s \<longrightarrow> ts_finished (th_ses v i) = s_finished s)) \<and>
    (\<forall>e w'. server_step w e w' \<longrightarrow> (\<exists>ms v'. run_moves ms v = Some v' \<and> mirrors w' v'))"
proof -
  have ok: "permits_ok 0 w" "protocol_ok w" "queue_ok w" using reachable_ok [OF assms] by blast+
  obtain v where v: "interleaves (pc_max_inflight config) (pc_max_queue_size config) v" "mirrors w v"
    using reachable_mirrored [OF assms] by blast
  have "\<exists>ms v'. run_moves ms v = Some v' \<and> mirrors w' v'" if "server_step w e w'" for e w'
    using follows_event [OF ok v(2)] that unfolding follows_def moves_def by (blast elim: server_stepE)
  moreover note mirrorsD(1,3,6) [OF v(2)] mirrors_flags [OF ok(1) v(2)]
  ultimately show ?thesis using v by (intro exI [of _ v]) simp
qed

theorem one_thread_is_an_interleaving_witness:
  "\<exists>w v. proxy_run one_slot waiting_events = Some w \<and> interleaves 1 1 v \<and>
    th_limiter v = sv_limiter w \<and> queued_requests (th_limiter v) = 1 \<and> ts_queued (th_ses v 1)"
proof -
  obtain w where w: "proxy_run one_slot waiting_events = Some w" "queued_requests (sv_limiter w) = 1"
    "s_queued (ses w 1)" "sv_sessions w 1 \<noteq> None" using waiting_run by blast
  have "sv_sessions w 1 = Some (ses w 1)" using w(4) by (auto simp: ses_def)
  moreover have "pc_max_inflight one_slot = 1" "pc_max_queue_size one_slot = 1" by (simp_all add: one_slot_def)
  ultimately show ?thesis using one_thread_is_an_interleaving [OF proxy_run_reachable [OF w(1)]] w by fastforce
qed

end
