(* ===== verification/ProxyProperties.thy ===== *)
theory ProxyProperties
  imports ProxyStream ProxyBytes ProxyGate ProxyScenarios
begin

text \<open>
  The properties of the whole proxy: in every state that the event loop reaches, for every choice of
  the environment (connections, completions and their outcomes, expiring timers, calls of \<open>stop\<close>).
\<close>

subsection \<open>Auxiliary facts\<close>

text \<open>The requests the proxy has under way at the upstream.\<close>

definition at_upstream :: "session \<Rightarrow> bool" where
  "at_upstream s \<longleftrightarrow> \<not> s_finished s \<and> list_ex upstream_op (s_pending s)"

lemma list_ex_busy: "list_ex upstream_op (busy s) \<longleftrightarrow> list_ex upstream_op (s_pending s)"
  by (auto simp: busy_def list_ex_iff main_op_def)

lemma at_upstream_permit: "session_ok e s \<Longrightarrow> at_upstream s \<longleftrightarrow> has_permit s"
  using session_okD(3) [of e s] by (simp add: at_upstream_def list_ex_busy)

lemma reachable_session:
  "reachable config w \<Longrightarrow> sv_sessions w i = Some s \<Longrightarrow> session_ok (posted i w) s"
  using reachable_ok [of config w] by (simp add: protocol_except_def)

lemma active_upstream:
  assumes "reachable config w"
  shows "active_of w = {i. \<exists>s. sv_sessions w i = Some s \<and> at_upstream s}"
proof -
  have "live i w \<and> has_permit (ses w i) \<longleftrightarrow> (\<exists>s. sv_sessions w i = Some s \<and> at_upstream s)" for i
    using at_upstream_permit [OF reachable_session [OF assms]] by (cases "sv_sessions w i") (auto simp: live_def ses_def)
  then show ?thesis by (simp add: active_of_def)
qed

lemma tally_cong:
  assumes "\<And>i s. sv_sessions w i = Some s \<Longrightarrow> P s = Q s"
  shows "tally P w = tally Q w"
  unfolding tally_def using assms by (intro arg_cong [of _ _ length] filter_cong) (auto simp: sat_def split: option.splits)

lemma upstream_counted:
  assumes "reachable config w"
  shows "unat (current_inflight (sv_limiter w)) = tally at_upstream w"
proof -
  have "tally at_upstream w = tally has_permit w"
    using reachable_session [OF assms] at_upstream_permit by (intro tally_cong) blast
  then show ?thesis using reachable_ok [OF assms] by (simp add: permits_ok_def)
qed


text \<open>While the server is not stopping, a free slot and a waiting session mean that a promotion is posted.\<close>

lemma promotion_pending:
  assumes "reachable config w" "\<not> sv_stopping w"
  shows "(\<forall>i s. sv_sessions w i = Some s \<and> s_queued s \<and>
      current_inflight (sv_limiter w) < pc_max_inflight config \<longrightarrow>
      i \<in> set (sv_queued_sessions w) \<and> promotion_posted (sv_tasks w)) \<and>
    (let w' = promote_queued_sessions w in
      current_inflight (sv_limiter w') = pc_max_inflight config \<or>
      (\<forall>i s. sv_sessions w' i = Some s \<longrightarrow> \<not> s_queued s))"
proof -
  note ok = reachable_ok [OF assms(1)]
  have max: "max_inflight (sv_limiter w) = pc_max_inflight config"
    using reachable_limits [OF assms(1)] by (simp add: limits_def)
  have q: "listed w" "wakeup w" using ok assms(2) by (auto simp: queue_ok_def)
  have "promotion_posted (sv_tasks w)" "i \<in> set (sv_queued_sessions w)"
    if "sv_sessions w i = Some s" "s_queued s" "current_inflight (sv_limiter w) < pc_max_inflight config" for i s
  proof -
    have "0 < tally s_queued w" using that ok tally_pos [of w i s_queued]
      by (auto simp: permits_ok_def live_def ses_def)
    then have "queued_requests (sv_limiter w) \<noteq> 0" using ok assms(2) by (auto simp: protocol_except_def)
    then show "promotion_posted (sv_tasks w)" using q(2) that(3) max by (auto simp: wakeup_def)
    show "i \<in> set (sv_queued_sessions w)" using q(1) that by (auto simp: listed_def)
  qed
  moreover have "listed_in (sv_queued_sessions w) w" "covered w"
    using q wakeup_covered ok assms(2) by (auto simp: listed_def listed_in_def)
  then have settled: "listed_in [] (promote_queued_sessions w) \<or>
      max_inflight (sv_limiter (promote_queued_sessions w)) \<le> current_inflight (sv_limiter (promote_queued_sessions w))"
    using promote_loop_step [of w "sv_queued_sessions w"] ok assms(2) by (simp add: promote_queued_sessions_def)
  have "permits_ok 0 (promote_queued_sessions w)" "limits (promote_queued_sessions w) = limits w"
    using permits_promote_loop ok by (auto simp: promote_queued_sessions_def)
  then have "max_inflight (sv_limiter (promote_queued_sessions w)) = pc_max_inflight config"
    "current_inflight (sv_limiter (promote_queued_sessions w)) \<le> pc_max_inflight config"
    using max by (auto simp: limits_def permits_ok_def limiter_ok_def)
  then have "current_inflight (sv_limiter (promote_queued_sessions w)) = pc_max_inflight config \<or>
      (\<forall>i s. sv_sessions (promote_queued_sessions w) i = Some s \<longrightarrow> \<not> s_queued s)"
    using settled by (auto simp: listed_in_def)
  ultimately show ?thesis unfolding Let_def by blast
qed

text \<open>The accounts of the queue and of the requests, while the server is not stopping.\<close>

lemma accounts_running:
  assumes "reachable config w" "\<not> sv_stopping w"
  shows "unat (queued_requests (sv_limiter w)) = tally s_queued w + enqueues w \<and>
    queued_requests (sv_limiter w) \<le> pc_max_queue_size config \<and>
    pm_total (sv_metrics w) = pm_completed (sv_metrics w) + pm_failed (sv_metrics w) +
      of_nat (tally pending_request w)"
proof -
  note ok = reachable_ok [OF assms(1)]
  have "max_queue_size (sv_limiter w) = pc_max_queue_size config"
    using reachable_limits [OF assms(1)] by (simp add: limits_def)
  moreover have "balance w = of_nat (tally pending_request w)" using ok assms(2) by (simp add: protocol_except_def)
  then have "pm_total (sv_metrics w) = pm_completed (sv_metrics w) + pm_failed (sv_metrics w) +
      of_nat (tally pending_request w)" by (simp add: balance_def algebra_simps)
  ultimately show ?thesis using ok assms(2)
    by (simp add: protocol_except_def permits_ok_def limiter_ok_def)
qed

subsection \<open>Properties\<close>

text \<open>
  C1: the limit on the upstream. In every reachable state the counter of the limiter is exactly the
  number of unfinished requests that work on the upstream, and never more than the configured
  \<open>max_inflight\<close>.
\<close>

theorem upstream_requests_bounded:
  assumes "reachable config w"
  shows "unat (current_inflight (sv_limiter w)) = tally at_upstream w \<and>
    tally at_upstream w \<le> unat (pc_max_inflight config)"
  using upstream_counted [OF assms] reachable_ok [OF assms] reachable_limits [OF assms]
  by (auto simp: permits_ok_def limiter_ok_def limits_def word_le_nat_alt)

theorem upstream_requests_bounded_witness:
  "\<exists>w. proxy_run one_slot waiting_events = Some w \<and> tally at_upstream w = 1 \<and>
    unat (pc_max_inflight one_slot) = 1"
proof -
  obtain w where w: "proxy_run one_slot waiting_events = Some w" "current_inflight (sv_limiter w) = 1"
    using waiting_run by blast
  then show ?thesis using upstream_requests_bounded [OF proxy_run_reachable [OF w(1)]]
    by (simp add: one_slot_def)
qed

text \<open>
  C3: no wakeup is lost, when one thread runs the loop. As long as the server is not stopping, a session
  that waits although a slot is free is in the server's list, and a promotion is posted behind every
  closure that enqueues a session; and whenever a promotion has run, every slot is taken or no session
  waits. Once the server is stopping a promotion changes no session, and what ends one that still waits
  is its own queue timer, which is running.
\<close>

theorem no_lost_wakeup:
  assumes "reachable config w"
  shows "if sv_stopping w
    then sv_sessions (promote_queued_sessions w) = sv_sessions w \<and>
      (\<forall>i s. sv_sessions w i = Some s \<and> s_queued s \<longrightarrow> Queue_Timer False \<in> set (s_pending s))
    else (\<forall>i s. sv_sessions w i = Some s \<and> s_queued s \<and>
        current_inflight (sv_limiter w) < pc_max_inflight config \<longrightarrow>
        i \<in> set (sv_queued_sessions w) \<and> promotion_posted (sv_tasks w)) \<and>
      (let w' = promote_queued_sessions w in
        current_inflight (sv_limiter w') = pc_max_inflight config \<or>
        (\<forall>i s. sv_sessions w' i = Some s \<longrightarrow> \<not> s_queued s))"
proof (cases "sv_stopping w")
  case True
  note ok = reachable_ok [OF assms]
  have "closed (sv_limiter w)" using ok True by (simp add: protocol_except_def)
  then have "sv_sessions (promote_queued_sessions w) = sv_sessions w"
    by (simp add: promote_queued_sessions_def promote_closed)
  moreover have "Queue_Timer False \<in> set (s_pending s)" if "sv_sessions w i = Some s" "s_queued s" for i s
    using session_okD(6) [OF reachable_session [OF assms that(1)] that(2)] .
  ultimately show ?thesis using True by auto
next
  case False
  then show ?thesis using promotion_pending [OF assms] by simp
qed

theorem no_lost_wakeup_witness:
  "\<exists>w. proxy_run one_slot freed_events = Some w \<and> s_queued (ses w 1) \<and>
    current_inflight (sv_limiter w) < pc_max_inflight one_slot \<and> promotion_posted (sv_tasks w)"
proof -
  obtain w where w: "proxy_run one_slot freed_events = Some w" "\<not> sv_stopping w"
    "current_inflight (sv_limiter w) = 0" "s_queued (ses w 1)" "sv_sessions w 1 = Some (ses w 1)"
    using freed_run by (auto simp: ses_def)
  have "current_inflight (sv_limiter w) < pc_max_inflight one_slot" using w(3) by (simp add: one_slot_def)
  then show ?thesis using no_lost_wakeup [OF proxy_run_reachable [OF w(1)]] w by auto
qed

text \<open>
  C5: the accounts. As long as the server is not stopping, the limiter's queue counter is the number of
  waiting sessions and of those about to be enqueued, and every request that was counted is completed,
  failed or still unfinished (modulo \<open>2 ^ 64\<close>, as the counters are). Once it is stopping the queue
  counter is zero, whoever still waits, and requests may leave the accounts (\<open>leaking_run\<close>). The counter
  is within the configured size in both cases.
\<close>

theorem requests_accounted:
  assumes "reachable config w"
  shows "queued_requests (sv_limiter w) \<le> pc_max_queue_size config \<and>
    (if sv_stopping w then queued_requests (sv_limiter w) = 0
     else unat (queued_requests (sv_limiter w)) = tally s_queued w + enqueues w \<and>
       pm_total (sv_metrics w) = pm_completed (sv_metrics w) + pm_failed (sv_metrics w) +
         of_nat (tally pending_request w))"
proof (cases "sv_stopping w")
  case True
  then show ?thesis using reachable_ok [OF assms]
    by (auto simp: protocol_except_def permits_ok_def limiter_ok_def)
next
  case False
  then show ?thesis using accounts_running [OF assms] by simp
qed

theorem requests_accounted_witness:
  "\<exists>w. proxy_run one_slot waiting_events = Some w \<and> tally s_queued w + enqueues w = 1 \<and>
    pm_total (sv_metrics w) = 2 \<and>
    2 = pm_completed (sv_metrics w) + pm_failed (sv_metrics w) + of_nat (tally pending_request w)"
proof -
  obtain w where w: "proxy_run one_slot waiting_events = Some w" "\<not> sv_stopping w"
    "queued_requests (sv_limiter w) = 1" "pm_total (sv_metrics w) = 2" using waiting_run by blast
  then show ?thesis using requests_accounted [OF proxy_run_reachable [OF w(1)]] by auto
qed

text \<open>
  C7: every session is well formed. It waits for at most one thing beside its timers and the write of
  an error; it holds a permit exactly while it is unfinished and works on the upstream, and then it is
  counted; while it waits in the queue its timer runs; and it is never forgotten: as long as it is
  unfinished, an operation is pending or the closure that enqueues it is posted.
\<close>

theorem sessions_well_formed:
  assumes "reachable config w" "sv_sessions w i = Some s"
  shows "length (filter main_op (s_pending s)) \<le> 1 \<and>
    (s_permit s \<noteq> None \<longleftrightarrow> at_upstream s) \<and> (s_permit s \<noteq> None \<longrightarrow> s_request_counted s) \<and>
    (s_queued s \<longrightarrow> \<not> s_finished s \<and> s_permit s = None \<and> Queue_Timer False \<in> set (s_pending s)) \<and>
    (\<not> s_finished s \<longrightarrow> s_pending s \<noteq> [] \<or> Enqueue i \<in> set (sv_tasks w))"
proof -
  note ok = reachable_session [OF assms]
  note d = session_okD [OF ok]
  have "posted i w = 1 \<Longrightarrow> Enqueue i \<in> set (sv_tasks w)"
    by (metis count_list_0_iff posted_def zero_neq_one)
  moreover have "s_queued s \<Longrightarrow> s_pending s \<noteq> []" using d(6) by auto
  moreover have "busy s \<noteq> [] \<Longrightarrow> s_pending s \<noteq> []" by (auto simp: busy_def)
  moreover have "s_queued s \<Longrightarrow> \<not> has_permit s" using d(1,3) by auto
  ultimately show ?thesis using d(1,2,5,6,7) at_upstream_permit [OF ok] unfolding busy_def by auto
qed

theorem sessions_well_formed_witness:
  "\<exists>w s. proxy_run one_slot waiting_events = Some w \<and> sv_sessions w 1 = Some s \<and>
    length (filter main_op (s_pending s)) \<le> 1 \<and> s_queued s \<and> \<not> s_finished s \<and> s_permit s = None"
proof -
  obtain w s where w: "proxy_run one_slot waiting_events = Some w" "sv_sessions w 1 = Some s" "s_queued s"
    using waiting_run by (auto simp: ses_def)
  then show ?thesis using sessions_well_formed [OF proxy_run_reachable [OF w(1)] w(2)] by auto
qed



text \<open>
  A session that reads the body passes the pieces \<open>cs\<close> on, and ends the request with the piece \<open>c\<close>.
\<close>

lemma pieces_forwarded:
  assumes "reachable config w" "reading i s w" "\<not> s_finished s"
    and "feed_all cs (s_sse_parser s) = (p, Inr fs)" "\<not> list_ex ev_is_done fs"
    and "feed c p = (p', Inr fs')" "list_ex ev_is_done fs'" "c \<noteq> []"
  shows "\<exists>w'. run_events (relay_events i cs @ piece_events i c True) w = Some w' \<and>
    (\<forall>t. sv_sessions w' i = Some t \<longrightarrow> s_finished t \<and> \<not> s_client_open t \<and> s_permit t = None \<and>
      sent_bytes t = sent_bytes s @ concat (cs @ [c])) \<and>
    pm_completed (sv_metrics w') = pm_completed (sv_metrics w) + 1 \<and>
    current_inflight (sv_limiter w') = current_inflight (sv_limiter w) - 1 \<and>
    last (sv_tasks w') = Promote_Queued"
proof -
  from stream_relayed [OF assms(2,4,5)]
  obtain v t where v: "run_events (relay_events i cs) w = Some v" "reading i t v" "s_sse_parser t = p"
    "s_out t = s_out s @ map Sse_Chunk cs" "s_finished t = s_finished s"
    "\<forall>j. j \<noteq> i \<longrightarrow> sv_sessions v j = sv_sessions w j" "sv_limiter v = sv_limiter w"
    "same_counters (sv_metrics w) (sv_metrics v)" by blast
  have "reachable config v" using run_events_reachable assms(1) v(1) by blast
  then have "permits_ok 0 v" "protocol_ok v" using reachable_ok by blast+
  from stream_ended [OF this v(2)] obtain w' where
    "run_events (piece_events i c True) v = Some w'"
    "pm_completed (sv_metrics w') = pm_completed (sv_metrics v) + 1"
    "current_inflight (sv_limiter w') = current_inflight (sv_limiter v) - 1"
    "sv_tasks w' = sv_tasks v @ [Promote_Queued]"
    "\<forall>s'. sv_sessions w' i = Some s' \<longrightarrow> s_finished s' \<and> \<not> s_client_open s' \<and> s_permit s' = None \<and>
      s_out s' = s_out t @ [Sse_Chunk c]"
    using v(3,5) assms(3,6-8) by blast
  then show ?thesis using v by (intro exI [of _ w']) (auto simp: same_counters_def run_events_append sent_bytes_def comp_def)
qed

text \<open>
  C6: a stream is passed on. In every run, what a session has sent of the body to its client is an initial
  part of what its successful reads of the body have delivered, in order, and all of it as long as the
  connection to the client is open. (The bytes of a read that fails, that fills the buffer or that
  completes the response are not passed on, see \<open>body_bytes_ignored\<close>.) And if an unfinished session
  that reads the body is then given pieces \<open>cs\<close> that the parser accepts without an end of the stream
  and a piece \<open>c\<close> with the end, each of them read and written without error, all of them reach the
  client, the request is completed, its slot is free, a promotion is posted and the connection is closed.
\<close>

theorem stream_forwarded:
  assumes "proxy_run config es = Some w" "sv_sessions w i = Some s"
  shows "prefix (sent_bytes s) (read_bytes i es) \<and>
    (s_client_open s \<longrightarrow> sent_bytes s = read_bytes i es) \<and>
    (\<forall>cs p fs c p' fs'. reading i s w \<and> \<not> s_finished s \<and>
      feed_all cs (s_sse_parser s) = (p, Inr fs) \<and> \<not> list_ex ev_is_done fs \<and>
      feed c p = (p', Inr fs') \<and> list_ex ev_is_done fs' \<and> c \<noteq> [] \<longrightarrow>
      (\<exists>w'. run_events (relay_events i cs @ piece_events i c True) w = Some w' \<and>
        (\<forall>t. sv_sessions w' i = Some t \<longrightarrow> s_finished t \<and> \<not> s_client_open t \<and> s_permit t = None \<and>
          sent_bytes t = read_bytes i es @ concat (cs @ [c])) \<and>
        pm_completed (sv_metrics w') = pm_completed (sv_metrics w) + 1 \<and>
        current_inflight (sv_limiter w') = current_inflight (sv_limiter w) - 1 \<and>
        last (sv_tasks w') = Promote_Queued))"
proof -
  have "live i w" "ses w i = s" using assms(2) by (simp_all add: live_def ses_def)
  then have sent: "prefix (sent_bytes s) (read_bytes i es)" "s_client_open s \<longrightarrow> sent_bytes s = read_bytes i es"
    using proxy_run_relayed [OF assms(1)] by (auto simp: relayed_def)
  moreover have "reading i s w \<longrightarrow> sent_bytes s = read_bytes i es" using sent(2) by (simp add: reading_def)
  ultimately show ?thesis using pieces_forwarded [OF proxy_run_reachable [OF assms(1)]] by (intro conjI allI impI) fastforce+
qed

definition stream_pieces :: "string list" where
  "stream_pieces = [''data: Hel'', ''lo'' @ [newline, newline]]"

definition end_piece :: string where
  "end_piece = ''data: [DONE]'' @ [newline, newline]"

theorem stream_forwarded_witness:
  "\<exists>w s w'. proxy_run one_slot reading_events = Some w \<and> sv_sessions w 0 = Some s \<and>
    sent_bytes s = read_bytes 0 reading_events \<and>
    run_events (relay_events 0 stream_pieces @ piece_events 0 end_piece True) w = Some w' \<and>
    pm_completed (sv_metrics w') = pm_completed (sv_metrics w) + 1 \<and>
    (\<forall>t. sv_sessions w' 0 = Some t \<longrightarrow> sent_bytes t = concat (stream_pieces @ [end_piece]))"
proof -
  obtain w s where w: "proxy_run one_slot reading_events = Some w" "sv_running w" "sv_crash w = None"
    "sv_sessions w 0 = Some s" "Read_Body \<in> set (s_pending s)" "s_client_open s" "\<not> s_finished s"
    "s_request_start s = Some 0" "sv_clock w = 0" "s_out s = [Sse_Header]"
    "s_sse_parser s = \<lparr>max_buffer_size = 1024 * 1024, buffer = [], current_data = [], has_data = False\<rparr>"
    using reading_run by blast
  have "case feed_all stream_pieces \<lparr>max_buffer_size = 1024 * 1024, buffer = [], current_data = [], has_data = False\<rparr> of
      (p, Inl e) \<Rightarrow> False
    | (p, Inr es) \<Rightarrow> \<not> list_ex ev_is_done es \<and> (case feed end_piece p of
        (p', Inl e) \<Rightarrow> False | (p', Inr es') \<Rightarrow> list_ex ev_is_done es')" by code_simp
  then obtain p es p' es' where f: "feed_all stream_pieces (s_sse_parser s) = (p, Inr es)" "\<not> list_ex ev_is_done es"
    "feed end_piece p = (p', Inr es')" "list_ex ev_is_done es'"
    by (auto simp: w(11) split: prod.splits sum.splits)
  have "end_piece \<noteq> []" by (simp add: end_piece_def)
  moreover have "reading 0 s w" using w reachable_ok [OF proxy_run_reachable [OF w(1)]]
    by (auto simp: reading_def timed_def ses_def permits_ok_def protocol_except_def clock_ok_def)
  moreover have "read_bytes 0 reading_events = []" by code_simp
  ultimately show ?thesis using stream_forwarded [OF w(1,4)] w(1,4,6,7) f by fastforce
qed

text \<open>
  The answer to a request that is not proxied, and the state of a session whose request was read.
\<close>

definition answered :: "nat \<Rightarrow> nat \<Rightarrow> string \<Rightarrow> session \<Rightarrow> server \<Rightarrow> bool" where
  "answered i status error s w \<longleftrightarrow> (\<exists>s'. sv_sessions w i = Some s' \<and> s_finished s' \<and>
     s_permit s' = None \<and> s_out s' = (if s_client_open s then [Response status (error_body error)] else []))"

lemma fresh_answered:
  assumes "ready v" "live i v" "\<not> s_finished (ses v i)" "untouched (ses v i)"
  shows "answered i c e (ses v i) (reap i (send_json_error i c e v))"
proof -
  have "sv_sessions (send_json_error i c e v) i = Some (fail_session c e (ses v i))"
    using on_session_fail [OF assms(1,2)] by (simp add: send_json_error_def on_session_def)
  moreover have "s_pending (fail_session c e (ses v i)) \<noteq> []" "s_finished (fail_session c e (ses v i))"
    "s_permit (fail_session c e (ses v i)) = None"
    "s_out (fail_session c e (ses v i)) = (if s_client_open (ses v i) then [Response c (error_body e)] else [])"
    using assms(3,4) by (auto simp: fail_session_def untouched_def Let_def await_def send_client_def
        cancel_queue_timer_def cancel_request_timer_def)
  ultimately show ?thesis by (simp add: answered_def reap_def)
qed

lemma read_request_handled:
  assumes "reachable config w" "sv_sessions w i = Some s" "Read_Request \<in> set (s_pending s)"
    and "exec_event (Complete i Read_Request (Request_Read (Some rq))) w = Some w'"
  obtains v where "w' = reap i (handle_request i v)" "ready v" "live i v" "fresh (ses v i)"
    "untouched (ses v i)" "s_client_open (ses v i) = s_client_open s" "s_request (ses v i) = rq"
    "sv_limiter v = sv_limiter w" "sv_metrics v = sv_metrics w" "sv_config v = config"
proof
  let ?v = "upd i (\<lambda>s. (completed Read_Request s)\<lparr>s_request := rq\<rparr>) w"
  have m: "main_op Read_Request" by (simp add: main_op_def)
  note ok = reachable_session [OF assms(1,2)]
  note b = busy_single [OF ok assms(3) m] and d = session_okD [OF ok]
  have s: "ses w i = s" using assms(2) by (simp add: ses_def)
  show "w' = reap i (handle_request i ?v)" using assms(2-4) by (simp add: completed_def)
  show "ready ?v" "live i ?v" "sv_limiter ?v = sv_limiter w" "sv_metrics ?v = sv_metrics w" "sv_config ?v = config"
    using reachable_ok [OF assms(1)] reachable_limits [OF assms(1)] by (simp_all add: ready_def permits_ok_def limits_def)
  show "fresh (ses ?v i)" "untouched (ses ?v i)" "s_client_open (ses ?v i) = s_client_open s" "s_request (ses ?v i) = rq"
    using b d(2,3,4,8) s by (auto simp: fresh_def pending_request_def untouched_def completed_def)
qed

text \<open>A chat request that has been read: the decision of the limiter.\<close>

lemma chat_request:
  assumes "ready v" "live i v" "fresh (ses v i)" "untouched (ses v i)" and w': "w' = reap i (handle_request i v)"
    and "rq_target (s_request (ses v i)) = ''/v1/chat/completions''" "rq_method (s_request (ses v i)) = Post"
    and l: "l = sv_limiter v"
  shows "closed l \<Longrightarrow> answered i 503 ''proxy is shutting down'' (ses v i) w'"
    and "\<not> closed l \<Longrightarrow> current_inflight l < max_inflight l \<Longrightarrow>
      \<exists>s'. sv_sessions w' i = Some s' \<and> s_permit s' = Some (new_permit 0) \<and> Resolve \<in> set (s_pending s')"
    and "\<not> closed l \<Longrightarrow> \<not> current_inflight l < max_inflight l \<Longrightarrow> queued_requests l < max_queue_size l \<Longrightarrow>
      last (sv_tasks w') = Enqueue i \<and> queued_requests (sv_limiter w') = queued_requests l + 1"
    and "\<not> closed l \<Longrightarrow> \<not> current_inflight l < max_inflight l \<Longrightarrow> \<not> queued_requests l < max_queue_size l \<Longrightarrow>
      answered i 429 ''admission queue is full'' (ses v i) w'"
proof -
  define w1 where "w1 = upd i (\<lambda>s. s\<lparr>s_request_counted := True\<rparr>) (with_metrics record_request_started v)"
  have fresh: "\<not> s_finished (ses v i)" "s_permit (ses v i) = None" "s_out (ses v i) = []"
    using assms(3,4) by (simp_all add: fresh_def untouched_def)
  have w1: "ready w1" "live i w1" "ses w1 i = (ses v i)\<lparr>s_request_counted := True\<rparr>" "sv_limiter w1 = l"
    using assms(1) l by (simp_all add: w1_def with_metrics_def ready_def ses_def)
  have json: "answered i c e (ses v i) (reap i (send_json_error i c e w1))" for c e
    using fresh_answered [OF w1(1,2)] w1(3) fresh assms(4) by (simp add: answered_def untouched_def)
  have chat: "handle_request i v = (case try_acquire_or_queue 0 l of ((decision, p, _), l') \<Rightarrow>
      (case decision of Admit \<Rightarrow> start_proxy_request i p (w1\<lparr>sv_limiter := l'\<rparr>)
       | Queue \<Rightarrow> post (Enqueue i) (w1\<lparr>sv_limiter := l'\<rparr>)
       | Closed \<Rightarrow> send_json_error i 503 ''proxy is shutting down'' (w1\<lparr>sv_limiter := l'\<rparr>)
       | Reject \<Rightarrow> send_json_error i 429 ''admission queue is full'' (w1\<lparr>sv_limiter := l'\<rparr>)))"
    using assms(1,6,7) w1(4) by (simp add: handle_request_def Let_def w1_def [symmetric] ready_def)
  have same: "w1\<lparr>sv_limiter := l\<rparr> = w1" using w1(4) by (metis server.surjective server.update_convs(2))
  show "answered i 503 ''proxy is shutting down'' (ses v i) w'" if "closed l"
    using json that by (simp add: w' chat try_acquire_or_queue_def same)
  show "\<exists>s'. sv_sessions w' i = Some s' \<and> s_permit s' = Some (new_permit 0) \<and> Resolve \<in> set (s_pending s')"
    if "\<not> closed l" "current_inflight l < max_inflight l"
    using that w1 fresh by (simp add: w' chat try_acquire_or_queue_def start_proxy_request_def set_permit_def
        start_request_timer_def resolve_upstream_def Let_def reap_def await_def ses_def ready_def move_new_permit)
  show "last (sv_tasks w') = Enqueue i \<and> queued_requests (sv_limiter w') = queued_requests l + 1"
    if "\<not> closed l" "\<not> current_inflight l < max_inflight l" "queued_requests l < max_queue_size l"
  proof -
    have eq: "handle_request i v = post (Enqueue i) (w1\<lparr>sv_limiter := l\<lparr>queued_requests := queued_requests l + 1\<rparr>\<rparr>)"
      using that by (simp add: chat try_acquire_or_queue_def Let_def)
    then have "w' = handle_request i v" by (auto simp: w' reap_def post_def split: option.splits)
    with eq show ?thesis by simp
  qed
  show "answered i 429 ''admission queue is full'' (ses v i) w'"
    if "\<not> closed l" "\<not> current_inflight l < max_inflight l" "\<not> queued_requests l < max_queue_size l"
    using json that by (simp add: w' chat try_acquire_or_queue_def same)
qed

lemma health_request:
  assumes "ready v" "live i v" "s_out (ses v i) = []" "metrics_ok (sv_metrics v)"
    "sw_capacity (pm_ttft_window (sv_metrics v)) = 256"
  shows "\<exists>s' m. sv_sessions (reap i (send_health i v)) i = Some s' \<and> metrics_snapshot_of (sv_metrics v) = Inr m \<and>
    s_out s' = (if s_client_open (ses v i) then [Response 200 (health_body (snapshot (sv_limiter v)) m (sv_config v))] else [])"
proof -
  obtain m where "metrics_snapshot_of (sv_metrics v) = Inr m" using snapshot_defined [OF assms(4,5)] by blast
  then show ?thesis using assms(1-3)
    by (simp add: ready_def send_health_def send_text_response_def reap_def await_def send_client_def)
qed

text \<open>
  C26: what happens to a request that has been read, on every branch: the health report, the errors for
  the wrong method or path, and for a chat request the decision of the limiter: it starts with a
  permit, waits, or is refused.
\<close>

theorem request_routing:
  assumes "reachable config w" "sv_sessions w i = Some s" "Read_Request \<in> set (s_pending s)"
    and "exec_event (Complete i Read_Request (Request_Read (Some rq))) w = Some w'"
  shows "(rq_target rq = ''/health'' \<longrightarrow> (if rq_method rq = Get
      then \<exists>s' m. sv_sessions w' i = Some s' \<and> metrics_snapshot_of (sv_metrics w) = Inr m \<and>
        s_out s' = (if s_client_open s then [Response 200 (health_body (snapshot (sv_limiter w)) m config)] else [])
      else answered i 405 ''GET required for /health'' s w')) \<and>
    (rq_target rq \<notin> {''/health'', ''/v1/chat/completions''} \<longrightarrow> answered i 404 ''unsupported path'' s w') \<and>
    (rq_target rq = ''/v1/chat/completions'' \<longrightarrow>
      (if rq_method rq \<noteq> Post then answered i 405 ''POST required for /v1/chat/completions'' s w'
       else if closed (sv_limiter w) then answered i 503 ''proxy is shutting down'' s w'
       else if current_inflight (sv_limiter w) < pc_max_inflight config
       then \<exists>s'. sv_sessions w' i = Some s' \<and> s_permit s' = Some (new_permit 0) \<and> Resolve \<in> set (s_pending s')
       else if queued_requests (sv_limiter w) < pc_max_queue_size config
       then last (sv_tasks w') = Enqueue i \<and> queued_requests (sv_limiter w') = queued_requests (sv_limiter w) + 1
       else answered i 429 ''admission queue is full'' s w'))"
proof -
  obtain v where v: "w' = reap i (handle_request i v)" "ready v" "live i v" "fresh (ses v i)"
    "untouched (ses v i)" "s_client_open (ses v i) = s_client_open s" "s_request (ses v i) = rq"
    "sv_limiter v = sv_limiter w" "sv_metrics v = sv_metrics w" "sv_config v = config"
    using read_request_handled [OF assms] .
  have limits: "max_inflight (sv_limiter w) = pc_max_inflight config" "max_queue_size (sv_limiter w) = pc_max_queue_size config"
    using reachable_limits [OF assms(1)] by (simp_all add: limits_def)
  have fresh: "\<not> s_finished (ses v i)" "s_out (ses v i) = []" using v(4,5) by (simp_all add: fresh_def untouched_def)
  have same: "answered i c e (ses v i) w' = answered i c e s w'" for c e using v(6) by (simp add: answered_def)
  have json: "answered i c e s (reap i (send_json_error i c e v))" for c e
    using fresh_answered [OF v(2,3) fresh(1) v(5)] v(6) by (simp add: answered_def)
  note chat = chat_request [OF v(2-5,1) _ _ refl, unfolded v(7,8) limits same]
  have health: "\<exists>s' m. sv_sessions (reap i (send_health i v)) i = Some s' \<and> metrics_snapshot_of (sv_metrics w) = Inr m \<and>
      s_out s' = (if s_client_open s then [Response 200 (health_body (snapshot (sv_limiter w)) m config)] else [])"
    by (rule health_request [OF v(2,3) fresh(2), unfolded v(6,8-10)])
      (use reachable_ok [OF assms(1)] in \<open>simp_all add: protocol_except_def\<close>)
  have other: "handle_request i v = (if rq_target rq = ''/health'' then
      if rq_method rq = Get then send_health i v else send_json_error i 405 ''GET required for /health'' v
      else if rq_target rq \<noteq> ''/v1/chat/completions'' then send_json_error i 404 ''unsupported path'' v
      else send_json_error i 405 ''POST required for /v1/chat/completions'' v)"
    if "rq_target rq \<noteq> ''/v1/chat/completions'' \<or> rq_method rq \<noteq> Post"
    using that v(7) by (auto simp: handle_request_def)
  show ?thesis using chat json health other v(1) by (intro conjI impI) (simp_all split: if_splits)
qed

definition get_nowhere :: http_request where
  "get_nowhere = \<lparr>rq_method = Get, rq_target = ''/nowhere'', rq_body = []\<rparr>"

theorem request_routing_witness:
  "\<exists>w w' s. proxy_run one_slot [Run_Task, Accepted True] = Some w \<and> sv_sessions w 0 = Some s \<and>
    exec_event (Complete 0 Read_Request (Request_Read (Some get_nowhere))) w = Some w' \<and>
    answered 0 404 ''unsupported path'' s w'"
proof -
  have "case proxy_run one_slot [Run_Task, Accepted True] of None \<Rightarrow> False
    | Some w \<Rightarrow> (case sv_sessions w 0 of None \<Rightarrow> False | Some s \<Rightarrow> Read_Request \<in> set (s_pending s))" by code_simp
  then obtain w s where w: "proxy_run one_slot [Run_Task, Accepted True] = Some w" "sv_sessions w 0 = Some s"
    "Read_Request \<in> set (s_pending s)" by (auto split: option.splits)
  obtain w' where w': "exec_event (Complete 0 Read_Request (Request_Read (Some get_nowhere))) w = Some w'"
    using w(2,3) by simp
  show ?thesis using request_routing [OF proxy_run_reachable [OF w(1)] w(2,3) w'] w w'
    by (auto simp: get_nowhere_def)
qed

text \<open>
  A request that has ended while the name of the upstream is being resolved: nothing stops it.
\<close>

definition late :: "nat \<Rightarrow> server \<Rightarrow> bool" where
  "late i w \<longleftrightarrow> (\<exists>s. sv_sessions w i = Some s \<and> s_finished s \<and> s_permit s = None \<and> Resolve \<in> set (s_pending s))"

definition working :: "session \<Rightarrow> bool" where
  "working s \<longleftrightarrow> list_ex upstream_op (s_pending s)"

abbreviation late_events :: "nat \<Rightarrow> event list" where
  "late_events i \<equiv> [Complete i Resolve (Resolved True), Complete i Connect (Connected True)]"

lemma tally_strict:
  assumes "numbered w" "sv_sessions w i = Some s" "Q s" "\<not> P s" "\<And>j t. sv_sessions w j = Some t \<Longrightarrow> P t \<Longrightarrow> Q t"
  shows "tally P w < tally Q w"
proof -
  have "{j. live j w \<and> P (ses w j)} \<subset> {j. live j w \<and> Q (ses w j)}"
    using assms(2-5) live_ses [of _ w] by (force simp: live_def ses_def)
  then show ?thesis using tally_live [OF assms(1), of P] tally_live [OF assms(1), of Q] by (metis psubset_card_mono)
qed

lemma late_request_sent:
  assumes "reachable config w" "sv_running w" "sv_crash w = None" "sv_sessions w i = Some s"
    and "s_finished s" "s_permit s = None" "Resolve \<in> set (s_pending s)"
  shows "\<exists>w' t. run_events (late_events i) w = Some w' \<and> sv_limiter w' = sv_limiter w \<and> sv_sessions w' i = Some t \<and>
    s_finished t \<and> s_permit t = None \<and> Write_Upstream \<in> set (s_pending t) \<and>
    s_upstream t = s_upstream s @ [rq_body (s_request s)]"
proof -
  have alive: "sv_alive w" using reachable_ok [OF assms(1)] by (simp add: permits_ok_def)
  let ?t = "await Connect (completed Resolve s\<lparr>s_upstream_open := True\<rparr>)"
  let ?v = "w\<lparr>sv_sessions := (sv_sessions w)(i \<mapsto> ?t)\<rparr>"
  have v: "exec_event (Complete i Resolve (Resolved True)) w = Some ?v"
    using assms(4,7) alive by (simp add: connect_upstream_def upd_def ses_def reap_def completed_def)
  let ?u = "await Write_Upstream (completed Connect ?t\<lparr>s_upstream := s_upstream s @ [rq_body (s_request s)]\<rparr>)"
  let ?w = "w\<lparr>sv_sessions := (sv_sessions w)(i \<mapsto> ?u)\<rparr>"
  have "exec_event (Complete i Connect (Connected True)) ?v = Some ?w"
    using alive by (simp add: write_upstream_request_def upd_def ses_def reap_def completed_def await_def)
  then have "run_events (late_events i) w = Some ?w" using v assms(2,3) by (simp del: exec_event.simps)
  then show ?thesis using assms(5,6) by (intro exI [of _ ?w] exI [of _ ?u]) (simp add: completed_def await_def)
qed

lemma slot_freed:
  assumes "reachable config w" "sv_sessions w i = Some s" "\<not> s_queued s" "has_permit s"
    and "exec_event (Complete i (Request_Timer False) (Request_Timer_Done True)) w = Some w'"
  shows "unat (current_inflight (sv_limiter w')) + 1 = unat (current_inflight (sv_limiter w))"
proof -
  have ok: "proxy_ok w" by (rule reachable_proxy_ok [OF assms(1)])
  then have so: "session_ok (posted i w) s" using assms(2) by (simp add: proxy_ok_def protocol_except_def)
  have "active_of w' = active_of w - {i}"
    using timeout_event(2) [OF ok assms(2) _ _ assms(5)] assms(3,4) by (simp add: timeout_of_def)
  moreover have "i \<in> active_of w" using assms(2,4) by (simp add: active_of_def live_def ses_def)
  moreover have c: "card (active_of v) = unat (current_inflight (sv_limiter v)) \<and> finite (active_of v)" if "proxy_ok v" for v
    using that active_count(1,2) by (simp add: proxy_ok_def)
  ultimately show ?thesis using c [OF ok] c [OF event_gate(1) [OF ok assms(5)]] card_Suc_Diff1 [of "active_of w" i] by simp
qed

lemma timed_out_resolving:
  assumes "reachable config w" "sv_sessions w i = Some s" "\<not> s_finished s" "Resolve \<in> set (s_pending s)"
  shows "\<exists>v. exec_event (Complete i (Request_Timer False) (Request_Timer_Done True)) w = Some v \<and> late i v \<and>
    unat (current_inflight (sv_limiter v)) + 1 = unat (current_inflight (sv_limiter w))"
proof -
  have so: "session_ok (posted i w) s" using reachable_session [OF assms(1,2)] .
  have m: "main_op Resolve" by (simp add: main_op_def)
  have "at_upstream s" using assms(3,4) by (auto simp: at_upstream_def list_ex_iff intro!: bexI [of _ Resolve])
  then have perm: "has_permit s" using at_upstream_permit [OF so] by simp
  have q: "\<not> s_queued s" "Request_Timer False \<in> set (s_pending s)"
    using busy_single(3) [OF so assms(4) m] session_okD(11) [OF so perm] by simp_all
  let ?x = "upd i (completed (Request_Timer False)) w"
  have x: "ready ?x" "live i ?x" "ses ?x i = completed (Request_Timer False) s"
    using reachable_ok [OF assms(1)] assms(2) by (simp_all add: permits_ok_def ready_def ses_def)
  let ?t = "fail_session 504 ''request timeout'' (completed (Request_Timer False) s)"
  let ?v = "fail_with_status i 504 ''request timeout'' ?x"
  have v: "sv_sessions ?v = (sv_sessions w)(i \<mapsto> ?t)"
    using on_session_fail [OF x(1,2)] x(3) assms(2) by (simp add: on_session_def)
  have "Resolve \<in> set (remove1 (Request_Timer False) (s_pending s))" using assms(4) by simp
  then have t: "s_finished ?t" "s_permit ?t = None" "Resolve \<in> set (s_pending ?t)"
    using assms(3) by (auto simp: fail_session_def Let_def completed_def cancel_queue_timer_def cancel_request_timer_def
        await_def send_client_def image_iff intro!: bexI [of _ Resolve])
  have "reap i ?v = ?v" using v t(3) by (auto simp: reap_def)
  then have ev: "exec_event (Complete i (Request_Timer False) (Request_Timer_Done True)) w = Some ?v"
    using assms(2,3) q(2) x(3) by (simp add: completed_def [abs_def])
  show ?thesis using ev v t slot_freed [OF assms(1,2) q(1) perm ev] by (auto simp: late_def)
qed

text \<open>
  C39: a request that has timed out goes on. If a request is failed while the name of its upstream is
  being resolved, for example by its timeout, its slot is free; but whatever happens until the
  resolution completes, the session then connects and sends its request, without a slot. From then on
  more requests work on the upstream than the limiter counts: more than \<open>max_inflight\<close>, if the slot
  has been given to another request.
\<close>

theorem zombie_requests:
  assumes "reachable config w" "sv_running w" "sv_crash w = None" "sv_sessions w i = Some s"
    and "\<not> s_finished s" "Resolve \<in> set (s_pending s)"
  shows "\<exists>v. run_events [Complete i (Request_Timer False) (Request_Timer_Done True)] w = Some v \<and> late i v \<and>
    unat (current_inflight (sv_limiter v)) + 1 = unat (current_inflight (sv_limiter w)) \<and>
    (\<forall>es u. run_events es v = Some u \<and> sv_running u \<and> sv_crash u = None \<and> late i u \<longrightarrow>
      (\<exists>w' t. run_events (late_events i) u = Some w' \<and> sv_limiter w' = sv_limiter u \<and>
        sv_sessions w' i = Some t \<and> s_finished t \<and> s_permit t = None \<and>
        Write_Upstream \<in> set (s_pending t) \<and> s_upstream t \<noteq> [] \<and>
        unat (current_inflight (sv_limiter w')) < tally working w'))"
proof -
  obtain v where v: "exec_event (Complete i (Request_Timer False) (Request_Timer_Done True)) w = Some v" "late i v"
    "unat (current_inflight (sv_limiter v)) + 1 = unat (current_inflight (sv_limiter w))"
    using timed_out_resolving [OF assms(1,4-6)] by blast
  have run: "run_events [Complete i (Request_Timer False) (Request_Timer_Done True)] w = Some v"
    using assms(2,3) v(1) by (simp del: exec_event.simps)
  have sent: "\<exists>w' t. run_events (late_events i) u = Some w' \<and> sv_limiter w' = sv_limiter u \<and>
      sv_sessions w' i = Some t \<and> s_finished t \<and> s_permit t = None \<and> Write_Upstream \<in> set (s_pending t) \<and>
      s_upstream t \<noteq> [] \<and> unat (current_inflight (sv_limiter w')) < tally working w'"
    if u: "run_events es v = Some u" "sv_running u" "sv_crash u = None" "late i u" for es u
  proof -
    have r: "reachable config u" using run_events_reachable [OF run_events_reachable [OF assms(1) run] u(1)] .
    obtain w' t where w': "run_events (late_events i) u = Some w'" "sv_limiter w' = sv_limiter u" "sv_sessions w' i = Some t"
      "s_finished t" "s_permit t = None" "Write_Upstream \<in> set (s_pending t)" "s_upstream t \<noteq> []"
      using u(4) late_request_sent [OF r u(2,3)] by (fastforce simp: late_def)
    have r': "reachable config w'" using run_events_reachable [OF r w'(1)] .
    have "working t" using w'(6) by (auto simp: working_def list_ex_iff intro!: bexI [of _ Write_Upstream])
    then have "tally at_upstream w' < tally working w'"
      using tally_strict [of w' i t working at_upstream] w'(3,4) reachable_ok [OF r']
      by (auto simp: permits_ok_def at_upstream_def working_def)
    then have "unat (current_inflight (sv_limiter w')) < tally working w'" using upstream_counted [OF r'] by simp
    then show ?thesis using w' by blast
  qed
  show ?thesis using run v(2,3) sent by blast
qed

definition timed_out_events :: "event list" where
  "timed_out_events = [Complete 0 (Request_Timer False) (Request_Timer_Done True)]"

lemma zombie_states:
  "\<exists>w s v u. proxy_run one_slot waiting_events = Some w \<and> sv_running w \<and> sv_crash w = None \<and>
    sv_sessions w 0 = Some s \<and> \<not> s_finished s \<and> Resolve \<in> set (s_pending s) \<and>
    run_events timed_out_events w = Some v \<and> run_events [Run_Task] v = Some u \<and>
    sv_running u \<and> sv_crash u = None \<and> current_inflight (sv_limiter u) = 1 \<and>
    (\<exists>t. sv_sessions u 0 = Some t \<and> s_finished t \<and> s_permit t = None \<and> Resolve \<in> set (s_pending t))"
proof -
  have "case proxy_run one_slot waiting_events of None \<Rightarrow> False | Some w \<Rightarrow> sv_running w \<and> sv_crash w = None \<and>
    (case sv_sessions w 0 of None \<Rightarrow> False | Some s \<Rightarrow> \<not> s_finished s \<and> Resolve \<in> set (s_pending s)) \<and>
    (case run_events timed_out_events w of None \<Rightarrow> False | Some v \<Rightarrow>
      (case run_events [Run_Task] v of None \<Rightarrow> False | Some u \<Rightarrow>
        sv_running u \<and> sv_crash u = None \<and> current_inflight (sv_limiter u) = 1 \<and>
        (case sv_sessions u 0 of None \<Rightarrow> False | Some t \<Rightarrow> s_finished t \<and> s_permit t = None \<and> Resolve \<in> set (s_pending t))))"
    by code_simp
  then show ?thesis by (auto simp del: run_events.simps split: option.splits)
qed

theorem zombie_requests_witness:
  "\<exists>w v u w'. proxy_run one_slot waiting_events = Some w \<and> run_events timed_out_events w = Some v \<and>
    run_events [Run_Task] v = Some u \<and> run_events (late_events 0) u = Some w' \<and>
    current_inflight (sv_limiter w') = 1 \<and> pc_max_inflight one_slot = 1 \<and> 1 < tally working w'"
proof -
  obtain w s v u where w: "proxy_run one_slot waiting_events = Some w" "sv_running w" "sv_crash w = None"
    "sv_sessions w 0 = Some s" "\<not> s_finished s" "Resolve \<in> set (s_pending s)"
    and v: "run_events timed_out_events w = Some v" and u: "run_events [Run_Task] v = Some u"
      "sv_running u" "sv_crash u = None" "current_inflight (sv_limiter u) = 1" "late 0 u"
    unfolding late_def using zombie_states by blast
  note z = zombie_requests [OF proxy_run_reachable [OF w(1)] w(2-6), folded timed_out_events_def]
  obtain w' where "run_events (late_events 0) u = Some w'" "sv_limiter w' = sv_limiter u"
    "unat (current_inflight (sv_limiter w')) < tally working w'"
    using z v u unfolding v option.inject by blast
  then show ?thesis using w(1) v u(1,4) by (intro exI [of _ w] exI [of _ v] exI [of _ u] exI [of _ w']) (simp add: one_slot_def)
qed

text \<open>
  The bytes of a read that fills the buffer, and of the read that completes the response, are not
  looked at: the handler does the same whatever they are.
\<close>

lemma body_bytes_ignored:
  "on_completion i (Body_Read Need_Buffer d bytes) w = read_upstream_body i w"
  "on_completion i (Body_Read No_Error True bytes) w = finish_request i w"
  by (simp_all add: write_downstream_body_def)

text \<open>The signal handler ends the loop before the closure that it posts can close the limiter.\<close>

lemma signal_skips_shutdown:
  "exec_event Signal w = Some w' \<Longrightarrow> sv_limiter w' = sv_limiter w \<and> sv_stopping w' = sv_stopping w \<and>
    run_events (e # es) w' = None"
  by (auto simp: post_def)

text \<open>
  C9: one answer for a request. What a client receives is at most one whole response, followed by at
  most one stream (its header, then pieces of it); a request that is still under way has been sent no
  response; and a session does not finish with its connection open unless it has answered. (That both
  can come, after a timeout, is shown by \<open>mixed_run\<close>.)
\<close>

theorem one_answer:
  assumes "reachable config w" "sv_sessions w i = Some s"
  shows "(\<exists>r cs. (s_out s = r \<or> s_out s = r @ Sse_Header # map Sse_Chunk cs) \<and>
      (r = [] \<or> (\<exists>c b. r = [Response c b])) \<and> (pending_request s \<longrightarrow> r = [])) \<and>
    (s_finished s \<and> s_client_open s \<longrightarrow> s_out s \<noteq> [])"
proof -
  have ok: "reply_ok s" using reachable_proxy_ok [OF assms(1)] assms(2) by (simp add: proxy_ok_def all_replies_def)
  then obtain r cs where r: "s_out s = r \<or> s_out s = r @ Sse_Header # map Sse_Chunk cs"
    "r = [] \<or> (\<exists>c b. r = [Response c b])"
    using reply_out_shape [of "s_out s"] by (auto simp: reply_ok_def)
  moreover have "r = []" if "pending_request s"
  proof -
    have "Write_Response \<notin> set (busy s)" using pending_not_answering [OF reachable_session [OF assms] that] .
    then have "list_all (\<lambda>m. \<not> is_response m) (s_out s)" using ok that
      by (simp add: reply_ok_def pending_request_def)
    then show ?thesis using r by auto
  qed
  ultimately show ?thesis using ok unfolding reply_ok_def by blast
qed

theorem one_answer_witness:
  "\<exists>w. proxy_run one_slot mixed_events = Some w \<and>
    (\<exists>r cs. (s_out (ses w 0) = r \<or> s_out (ses w 0) = r @ Sse_Header # map Sse_Chunk cs) \<and>
      (r = [] \<or> (\<exists>c b. r = [Response c b]))) \<and> length (s_out (ses w 0)) = 2"
proof -
  obtain w where w: "proxy_run one_slot mixed_events = Some w" "live 0 w"
    "s_out (ses w 0) = [Response 504 (error_body ''request timeout''), Sse_Header]"
    using mixed_run unfolding live_def by blast
  have "sv_sessions w 0 = Some (ses w 0)" using w(2) by (simp add: live_ses)
  from one_answer [OF proxy_run_reachable [OF w(1)] this] w(1) show ?thesis
    by (intro exI [of _ w]) (auto simp: w(3))
qed

text \<open>
  C12: shutdown. Once the server has begun to stop it goes on stopping whatever happens: its limiter
  stays closed, no further request starts work on the upstream (only those that did still may), and the
  number of slots in use never grows.
\<close>

theorem shutdown_admits_nobody:
  assumes "reachable config w" "sv_stopping w" "run_events es w = Some w'"
  shows "sv_stopping w' \<and> closed (sv_limiter w') \<and>
    (\<forall>i s'. sv_sessions w' i = Some s' \<and> at_upstream s' \<longrightarrow> (\<exists>s. sv_sessions w i = Some s \<and> at_upstream s)) \<and>
    current_inflight (sv_limiter w') \<le> current_inflight (sv_limiter w)"
proof -
  obtain ls where r: "reachable config w'" and g: "config_gates config (gate_of w) ls (gate_of w')"
    using run_gate [OF assms(1,3)] by blast
  note ok = reachable_proxy_ok [OF assms(1), unfolded proxy_ok_def] and ok' = reachable_proxy_ok [OF r, unfolded proxy_ok_def]
  have c: "sv_stopping w'" "active_of w' \<subseteq> active_of w" using closed_gate_run [OF g] assms(2) by simp_all
  have "card (active_of w') \<le> card (active_of w)" using ok c(2) active_count(2) by (intro card_mono) blast+
  then have "current_inflight (sv_limiter w') \<le> current_inflight (sv_limiter w)"
    using ok ok' active_count(1) by (simp add: word_le_nat_alt)
  moreover have "closed (sv_limiter w')" using ok' c(1) by (simp add: protocol_except_def)
  moreover have "\<exists>s. sv_sessions w i = Some s \<and> at_upstream s" if "sv_sessions w' i = Some t" "at_upstream t" for i t
    using active_upstream [OF r] active_upstream [OF assms(1)] c(2) that by blast
  ultimately show ?thesis using c(1) by blast
qed

theorem shutdown_admits_nobody_witness:
  "\<exists>w w'. proxy_run one_slot stopped_events = Some w \<and> current_inflight (sv_limiter w) = 1 \<and>
    run_events [Complete 0 Resolve (Resolved False), Accepted True, asks 2 ''C'', Run_Task] w = Some w' \<and>
    closed (sv_limiter w') \<and> current_inflight (sv_limiter w') \<le> current_inflight (sv_limiter w)"
proof -
  obtain w w' where w: "proxy_run one_slot stopped_events = Some w" "sv_stopping w" "current_inflight (sv_limiter w) = 1"
    and w': "run_events [Complete 0 Resolve (Resolved False), Accepted True, asks 2 ''C'', Run_Task] w = Some w'"
    using stopped_run by blast
  show ?thesis using shutdown_admits_nobody [OF proxy_run_reachable [OF w(1)] w(2) w'] w w' by blast
qed

text \<open>
  C2: the proxy is a first-in, first-out gate. Read as a gate, whose active sessions are those that work
  on the upstream and whose waiting ones are the queued sessions followed by those about to be queued,
  the proxy starts as the empty gate, and each event is a sequence of the gate's steps with labels that
  the event permits: a session enters or begins to wait when its request is read, gives up when its
  queue timer expires, and only a closure of the strand starts waiting sessions. Nobody enters while
  the gate is full or closed; and over the whole run the sessions that were started from the queue,
  followed by those that still wait, are in the order in which they began to wait. So the gate's
  guarantees hold of the proxy, and its sets are what the limiter's counters count.
\<close>

theorem proxy_refines_gate:
  assumes "proxy_run config es = Some w" "server_step w e w'"
  shows "(\<exists>lss. list_all2 permitted es lss \<and> config_gates config empty_gate (concat lss) (gate_of w) \<and>
      subseq (started_ids (concat lss) @ g_waiting (gate_of w)) (waited_ids (concat lss))) \<and>
    (\<exists>ls. permitted e ls \<and> config_gates config (gate_of w) ls (gate_of w')) \<and>
    gate_ok (unat (pc_max_inflight config)) (unat (pc_max_queue_size config)) (gate_of w) \<and>
    g_active (gate_of w) = {i. \<exists>s. sv_sessions w i = Some s \<and> at_upstream s} \<and>
    card (g_active (gate_of w)) = unat (current_inflight (sv_limiter w)) \<and>
    (\<not> sv_stopping w \<longrightarrow> length (g_waiting (gate_of w)) = unat (queued_requests (sv_limiter w)))"
proof -
  note r = proxy_run_reachable [OF assms(1)]
  obtain w0 w1 where w0: "make_server config = Inr w0" "start_server True w0 = Some w1" "run_events es w1 = Some w"
    using assms(1) by (auto simp: proxy_run_def split: sum.splits bind_splits)
  obtain lss where run: "list_all2 permitted es lss" "config_gates config empty_gate (concat lss) (gate_of w)"
    using run_gate [OF reachable.start [OF w0(1,2)] w0(3)] started_gate(3) [OF w0(1,2)] by auto
  have "subseq (started_ids (concat lss) @ g_waiting (gate_of w)) (waited_ids (concat lss))"
    using gate_run_fifo [OF run(2), of "[]" "[]"] by (simp add: empty_gate_def)
  moreover have "gate_ok (unat (pc_max_inflight config)) (unat (pc_max_queue_size config)) (gate_of w)"
    by (rule gate_run_ok [OF run(2) empty_gate_ok])
  moreover have "card (active_of w) = unat (current_inflight (sv_limiter w))"
    using active_count(1) reachable_ok [OF r] by blast
  ultimately show ?thesis
    using run step_gate [OF r assms(2)] active_upstream [OF r] waiting_count(1) [OF reachable_proxy_ok [OF r]] by auto
qed

theorem proxy_refines_gate_witness:
  "\<exists>w w'. proxy_run one_slot waiting_events = Some w \<and> server_step w Stop_Call w' \<and>
    (\<exists>lss. list_all2 permitted waiting_events lss \<and> config_gates one_slot empty_gate (concat lss) (gate_of w) \<and>
      subseq (started_ids (concat lss) @ g_waiting (gate_of w)) (waited_ids (concat lss))) \<and>
    card (g_active (gate_of w)) = 1 \<and> length (g_waiting (gate_of w)) = 1"
proof -
  obtain w where w: "proxy_run one_slot waiting_events = Some w" "sv_running w" "sv_crash w = None" "\<not> sv_stopping w"
    "current_inflight (sv_limiter w) = 1" "queued_requests (sv_limiter w) = 1"
    using waiting_run by blast
  have step: "server_step w Stop_Call (post Stop_Server w)" using w(2,3) by (intro server_step.step) simp_all
  show ?thesis using proxy_refines_gate [OF w(1) step] w step by auto
qed

text \<open>
  C4: no request hangs. An unfinished request that is not just about to be queued has a timer of its own
  pending, and the expiry of the timer is an event that finishes it: a waiting request then leaves the
  queue, one that works on the upstream gives its slot back.
\<close>

theorem no_request_hangs:
  assumes "reachable config w" "sv_running w" "sv_crash w = None" "sv_sessions w i = Some s" "pending_request s"
    and "Enqueue i \<notin> set (sv_tasks w)"
  shows "\<exists>a c w'. a \<in> set (s_pending s) \<and>
    (if s_queued s then a = Queue_Timer False \<and> c = Queue_Timer_Done True
     else at_upstream s \<and> a = Request_Timer False \<and> c = Request_Timer_Done True) \<and>
    server_step w (Complete i a c) w' \<and> (\<forall>s'. sv_sessions w' i = Some s' \<longrightarrow> s_finished s') \<and>
    (at_upstream s \<longrightarrow> unat (current_inflight (sv_limiter w')) + 1 = unat (current_inflight (sv_limiter w))) \<and>
    (s_queued s \<and> \<not> sv_stopping w \<longrightarrow>
      unat (queued_requests (sv_limiter w')) + 1 = unat (queued_requests (sv_limiter w)))"
proof -
  have ok: "proxy_ok w" by (rule reachable_proxy_ok [OF assms(1)])
  have so: "session_ok (posted i w) s" using reachable_session [OF assms(1,4)] .
  have "posted i w = 0" using assms(6) by (simp add: posted_def count_list_0_iff)
  then have busy: "s_queued s \<or> has_permit s" using session_okD(4) [OF so assms(5)] by simp
  obtain a c where ac: "timeout_of s = (a, c)" by fastforce
  note t = timeout_pending [OF so busy ac]
  obtain w' where w': "exec_event (Complete i a c) w = Some w'" using assms(4) t(1,2) by simp
  note e = timeout_event [OF ok assms(4) busy ac w']
  have step: "server_step w (Complete i a c) w'" using assms(2,3) w' by (rule server_step.step)
  have ok': "proxy_ok w'" using event_gate(1) [OF ok w'] .
  have active: "card (active_of v) = unat (current_inflight (sv_limiter v)) \<and> finite (active_of v)" if "proxy_ok v" for v
    using that active_count(1,2) by (simp add: proxy_ok_def)
  have up: "at_upstream s = has_permit s" using at_upstream_permit [OF so] .
  have "unat (current_inflight (sv_limiter w')) + 1 = unat (current_inflight (sv_limiter w))" if "has_permit s"
  proof -
    have "i \<in> active_of w" using assms(4) that by (simp add: active_of_def live_def ses_def)
    then show ?thesis using active [OF ok] active [OF ok'] e(2) card_Suc_Diff1 [of "active_of w" i] by simp
  qed
  moreover have "unat (queued_requests (sv_limiter w')) + 1 = unat (queued_requests (sv_limiter w))"
    if q: "s_queued s" "\<not> sv_stopping w"
  proof -
    have "i \<in> set (waiting_of w)" using waiting_listed [OF ok assms(4) q] .
    then have "length (waiting_of w') + 1 = length (waiting_of w)" using e(3) q length_pos_if_in_set [of i "waiting_of w"]
      by (simp add: length_remove1)
    then show ?thesis using waiting_count(1) ok ok' q(2) e(4) by simp
  qed
  ultimately show ?thesis using t(1) step e(1) up busy ac
    by (intro exI [of _ a] exI [of _ c] exI [of _ w']) (auto simp: timeout_of_def split: if_splits)
qed

theorem no_request_hangs_witness:
  "\<exists>w w'. proxy_run one_slot waiting_events = Some w \<and> s_queued (ses w 1) \<and>
    server_step w (Complete 1 (Queue_Timer False) (Queue_Timer_Done True)) w' \<and>
    queued_requests (sv_limiter w) = 1 \<and> queued_requests (sv_limiter w') = 0"
proof -
  obtain w where w: "proxy_run one_slot waiting_events = Some w" "sv_running w" "sv_crash w = None" "\<not> sv_stopping w"
    "queued_requests (sv_limiter w) = 1" "s_queued (ses w 1)" "live 1 w" "sv_tasks w = []"
    using waiting_run unfolding live_def by blast
  note r = proxy_run_reachable [OF w(1)]
  have s: "sv_sessions w 1 = Some (ses w 1)" using w(7) by (simp add: live_ses)
  have "pending_request (ses w 1)" using session_okD(2,5) [OF reachable_session [OF r s]] w(6) by (auto simp: pending_request_def)
  moreover have "Enqueue 1 \<notin> set (sv_tasks w)" using w(8) by simp
  ultimately show ?thesis using no_request_hangs [OF r w(2,3) s] w by (auto simp: unat_eq_0)
qed

end
