(* ===== verification/Demo.thy ===== *)
theory Demo
  imports AdmissionPolicy
begin

text \<open>
  \<^verbatim>\<open>controller/src/main.cpp\<close>: the \<^verbatim>\<open>controller_demo\<close> program, which drives the admission policy with
  seven fixed samples and simulates the two request counters. What it prints for a sample is the
  result of \<open>evaluate\<close>, so the run returns the list of results; the formatting of the line is not
  modelled. The clock readings in the samples are a parameter.

  The lemmas show that the counters the program keeps are exactly the decisions it took, for every
  configuration and every list of samples.
\<close>

subsection \<open>The program\<close>

definition demo_config :: admission_config where
  "demo_config = default_config\<lparr>cfg_min_inflight := 2, cfg_max_inflight := 8, cfg_max_queue_size := 4,
     cfg_target_p95_ttft_ms := Fin 800, cfg_critical_p95_ttft_ms := Fin 1600,
     cfg_max_kv_cache_usage_ratio := to_f64 (85 / 100),
     cfg_max_gpu_memory_usage_ratio := to_f64 (90 / 100),
     cfg_max_waiting_requests := 8, cfg_recovery_ratio := Fin (3 / 4), cfg_cooldown_samples := 2\<rparr>"

definition demo_sample ::
    "int \<Rightarrow> int \<Rightarrow> int \<Rightarrow> int \<Rightarrow> rat \<Rightarrow> rat \<Rightarrow> rat \<Rightarrow> rat \<Rightarrow> metrics_snapshot" where
  "demo_sample now p95_ms running waiting kv gpu_memory gpu_util errors =
     \<lparr>ms_timestamp = now, ms_p95_ttft_ms = Fin (of_int p95_ms), ms_running_requests = running,
      ms_waiting_requests = waiting, ms_kv_cache_usage_ratio = to_f64 kv,
      ms_gpu_memory_usage_ratio = to_f64 gpu_memory, ms_gpu_utilization_ratio = to_f64 gpu_util,
      ms_error_rate = to_f64 errors\<rparr>"

definition demo_samples :: "(nat \<Rightarrow> int) \<Rightarrow> metrics_snapshot list" where
  "demo_samples now =
    [demo_sample (now 0) 420 2 0 (30 / 100) (40 / 100) (45 / 100) 0,
     demo_sample (now 1) 760 6 1 (70 / 100) (75 / 100) (80 / 100) 0,
     demo_sample (now 2) 980 8 3 (88 / 100) (82 / 100) (92 / 100) 0,
     demo_sample (now 3) 1720 8 4 (92 / 100) (95 / 100) (98 / 100) (2 / 100),
     demo_sample (now 4) 650 3 1 (55 / 100) (60 / 100) (58 / 100) 0,
     demo_sample (now 5) 430 2 0 (35 / 100) (45 / 100) (42 / 100) 0,
     demo_sample (now 6) 390 2 0 (32 / 100) (38 / 100) (40 / 100) 0]"

text \<open>One turn of the loop: the result that is printed, the counters and the policy after it.\<close>

definition demo_step :: "admission_config \<Rightarrow> metrics_snapshot \<Rightarrow> int \<Rightarrow> int \<Rightarrow> admission_policy
    \<Rightarrow> (admission_result \<times> int \<times> int \<times> admission_policy) result" where
  "demo_step c m inflight queued p =
     (case evaluate m \<lparr>rs_current_inflight = inflight, rs_current_queue_size = queued\<rparr> p of
        Inl e \<Rightarrow> Inl e
      | Inr (r, p') \<Rightarrow>
        (case ar_decision r of
           Admit \<Rightarrow> (case checked_int (inflight + 1) of
               Inl e \<Rightarrow> Inl e
             | Inr n \<Rightarrow> Inr (r, min n (ar_recommended_max_inflight r), queued, p'))
         | Queue \<Rightarrow> (case checked_int (queued + 1) of
               Inl e \<Rightarrow> Inl e
             | Inr n \<Rightarrow> Inr (r, inflight, min n (cfg_max_queue_size c), p'))
         | Reject \<Rightarrow> Inr (r, inflight, queued, p')))"

fun demo_loop :: "admission_config \<Rightarrow> metrics_snapshot list \<Rightarrow> int \<Rightarrow> int \<Rightarrow> admission_policy
    \<Rightarrow> (admission_result list \<times> int \<times> int) result" where
  "demo_loop c [] inflight queued p = Inr ([], inflight, queued)"
| "demo_loop c (m # ms) inflight queued p =
     (case demo_step c m inflight queued p of
        Inl e \<Rightarrow> Inl e
      | Inr (r, inflight', queued', p') \<Rightarrow>
        (case demo_loop c ms inflight' queued' p' of
           Inl e \<Rightarrow> Inl e
         | Inr (rs, last_inflight, last_queued) \<Rightarrow> Inr (r # rs, last_inflight, last_queued)))"

definition demo_main :: "(nat \<Rightarrow> int) \<Rightarrow> (admission_result list \<times> int \<times> int) result" where
  "demo_main now = (case new_policy demo_config of
     Inl e \<Rightarrow> Inl e
   | Inr p \<Rightarrow> demo_loop demo_config (demo_samples now) 2 0 p)"

subsection \<open>The counters\<close>

text \<open>The two clamps of the loop never take effect: the decision already respects the limits.\<close>

abbreviation taken :: "admission_decision \<Rightarrow> admission_result list \<Rightarrow> int" where
  "taken d rs \<equiv> int (length (filter (\<lambda>r. ar_decision r = d) rs))"

lemma decision_limits:
  assumes "evaluate m s p = Inr (r, p')"
  shows "ar_decision r = Admit \<Longrightarrow> rs_current_inflight s < ar_recommended_max_inflight r"
    and "ar_decision r \<noteq> Reject \<Longrightarrow> rs_current_queue_size s < cfg_max_queue_size (ap_config p)"
  using assms by (auto simp: evaluate_def Let_def split: if_splits sum.splits)

lemma demo_step_counts:
  assumes p: "policy_ok p" "bounded_cap p" "ap_config p = c"
    and counters: "0 \<le> i" "i \<le> cfg_max_inflight c" "0 \<le> q" "q \<le> cfg_max_queue_size c"
  obtains r p' where
    "demo_step c m i q p = Inr (r, i + taken Admit [r], q + taken Queue [r], p')"
    "policy_ok p'" "bounded_cap p'" "ap_config p' = c"
    "i + taken Admit [r] \<le> cfg_max_inflight c" "q + taken Queue [r] \<le> cfg_max_queue_size c"
    "cfg_min_inflight c \<le> ar_recommended_max_inflight r"
    "ar_recommended_max_inflight r \<le> cfg_max_inflight c"
proof -
  let ?s = "\<lparr>rs_current_inflight = i, rs_current_queue_size = q\<rparr>"
  have "nonneg_state ?s" using counters by simp
  then obtain r p' where e: "evaluate m ?s p = Inr (r, p')" "policy_ok p'" "ap_config p' = c"
      "ar_recommended_max_inflight r = ap_recommended_max_inflight p'"
    using evaluate_eq [OF p(1,2)] p(3) by blast
  have rec: "cfg_min_inflight c \<le> ar_recommended_max_inflight r"
      "ar_recommended_max_inflight r \<le> cfg_max_inflight c"
      "int_ok (cfg_max_inflight c)" "int_ok (cfg_max_queue_size c)"
    using e by (auto simp: policy_ok_def ints_ok_def Let_def)
  note limits = decision_limits [OF e(1), simplified, unfolded p(3)]
  have "int_ok (i + 1)" if "ar_decision r = Admit"
    using limits(1) [OF that] rec counters by (simp add: int_ok_def)
  moreover have "int_ok (q + 1)" if "ar_decision r = Queue"
    using limits(2) that rec counters by (simp add: int_ok_def)
  ultimately have "demo_step c m i q p = Inr (r, i + taken Admit [r], q + taken Queue [r], p')"
    using limits e(1) by (cases "ar_decision r") (simp_all add: demo_step_def min_def)
  moreover have "i + taken Admit [r] \<le> cfg_max_inflight c" "q + taken Queue [r] \<le> cfg_max_queue_size c"
    using limits rec counters by (cases "ar_decision r"; simp)+
  moreover have "bounded_cap p'" using p e by (simp add: bounded_cap_def)
  ultimately show ?thesis using that e rec by blast
qed

lemma demo_loop_counts:
  assumes "policy_ok p" "bounded_cap p" "ap_config p = c"
    and "0 \<le> i" "i \<le> cfg_max_inflight c" "0 \<le> q" "q \<le> cfg_max_queue_size c"
  shows "\<exists>rs. demo_loop c ms i q p = Inr (rs, i + taken Admit rs, q + taken Queue rs) \<and>
    length rs = length ms \<and>
    i + taken Admit rs \<le> cfg_max_inflight c \<and> q + taken Queue rs \<le> cfg_max_queue_size c \<and>
    list_all (\<lambda>r. cfg_min_inflight c \<le> ar_recommended_max_inflight r \<and>
      ar_recommended_max_inflight r \<le> cfg_max_inflight c) rs"
  using assms
proof (induction ms arbitrary: i q p)
  case (Cons m ms)
  obtain r p' where step:
    "demo_step c m i q p = Inr (r, i + taken Admit [r], q + taken Queue [r], p')"
    "policy_ok p'" "bounded_cap p'" "ap_config p' = c"
    "i + taken Admit [r] \<le> cfg_max_inflight c" "q + taken Queue [r] \<le> cfg_max_queue_size c"
    "cfg_min_inflight c \<le> ar_recommended_max_inflight r"
    "ar_recommended_max_inflight r \<le> cfg_max_inflight c"
    using demo_step_counts [OF Cons.prems] by metis
  have "0 \<le> i + taken Admit [r]" "0 \<le> q + taken Queue [r]" using Cons.prems by simp_all
  from Cons.IH [OF step(2-4) this(1) step(5) this(2) step(6)] obtain rs where
    "demo_loop c ms (i + taken Admit [r]) (q + taken Queue [r]) p' =
       Inr (rs, i + taken Admit [r] + taken Admit rs, q + taken Queue [r] + taken Queue rs)"
    "length rs = length ms" "i + taken Admit [r] + taken Admit rs \<le> cfg_max_inflight c"
    "q + taken Queue [r] + taken Queue rs \<le> cfg_max_queue_size c"
    "list_all (\<lambda>r. cfg_min_inflight c \<le> ar_recommended_max_inflight r \<and>
      ar_recommended_max_inflight r \<le> cfg_max_inflight c) rs"
    by blast
  then show ?case using step by (intro exI [of _ "r # rs"]) (auto split: if_splits)
qed simp

subsection \<open>The run of the program\<close>

lemma literal_close:
  assumes "1 / 1024 \<le> q" "q \<le> 1"
  shows "to_f64 q = Fin (rnd q)" "q - 1 / 1000 \<le> rnd q" "rnd q \<le> q + 1 / 1000"
proof -
  show "to_f64 q = Fin (rnd q)" using assms by (intro to_f64_le53) simp
  have "q / 2 ^ 53 \<le> 1 / 1000" using assms by simp
  then show "q - 1 / 1000 \<le> rnd q" "rnd q \<le> q + 1 / 1000"
    using rnd_literal [OF assms(1)] by (simp_all add: algebra_simps)
qed

lemma demo_sel [simp]:
  "cfg_min_inflight demo_config = 2" "cfg_max_inflight demo_config = 8"
  "cfg_max_queue_size demo_config = 4" "cfg_max_waiting_requests demo_config = 8"
  "cfg_cooldown_samples demo_config = 2" "cfg_target_p95_ttft_ms demo_config = Fin 800"
  "cfg_critical_p95_ttft_ms demo_config = Fin 1600" "cfg_recovery_ratio demo_config = Fin (3 / 4)"
  "cfg_max_kv_cache_usage_ratio demo_config = Fin (rnd (17 / 20))"
  "cfg_max_gpu_memory_usage_ratio demo_config = Fin (rnd (9 / 10))"
  using literal_close(1) [of "17 / 20"] literal_close(1) [of "9 / 10"]
  by (simp_all add: demo_config_def)

lemma demo_sample_sel [simp]:
  "ms_p95_ttft_ms (demo_sample t a b c k g u e) = Fin (of_int a)"
  "ms_waiting_requests (demo_sample t a b c k g u e) = c"
  "ms_kv_cache_usage_ratio (demo_sample t a b c k g u e) = to_f64 k"
  "ms_gpu_memory_usage_ratio (demo_sample t a b c k g u e) = to_f64 g"
  "ms_error_rate (demo_sample t a b c k g u e) = to_f64 e"
  by (simp_all add: demo_sample_def)

lemma demo_validated: "validate_config demo_config = Inr ()"
  using literal_bounds(4-7) by (simp add: validate_config_def validate_ratio_def)

lemma demo_ints_ok: "ints_ok demo_config" "cfg_max_inflight demo_config < int_max"
  by (simp_all add: ints_ok_def int_ok_def int_max_def)

abbreviation demo_policy :: "int \<Rightarrow> int \<Rightarrow> int \<Rightarrow> admission_policy" where
  "demo_policy r cooldown k \<equiv> \<lparr>ap_config = demo_config, ap_recommended_max_inflight = r,
     ap_cooldown_remaining = cooldown, ap_consecutive_recovery_samples = k\<rparr>"

lemma new_demo_policy: "new_policy demo_config = Inr (demo_policy 8 0 0)"
  by (simp add: new_policy_def demo_validated)

text \<open>A sample whose ratios lie below 0.84, and a comparison of two literals.\<close>

lemma below_limits:
  assumes "1 / 1024 \<le> k" "k \<le> 83 / 100" "1 / 1024 \<le> g" "g \<le> 83 / 100" "0 \<le> a" "a < 800" "w < 8"
  shows "\<not> is_soft_overload demo_config (demo_sample t a b w k g u 0)"
    and "\<not> is_critical_overload demo_config (demo_sample t a b w k g u 0)"
proof -
  have "rnd k < rnd (17 / 20)" "rnd g < rnd (9 / 10)" "rnd k < rnd (49 / 50)" "rnd g < rnd (49 / 50)"
    "0 < rnd (1 / 10)"
    using literal_close [of k] literal_close [of g] literal_bounds assms by linarith+
  moreover have "(of_int a :: rat) < 800" using assms by simp
  ultimately show "\<not> is_soft_overload demo_config (demo_sample t a b w k g u 0)"
    "\<not> is_critical_overload demo_config (demo_sample t a b w k g u 0)"
    using assms literal_close(1) [of k] literal_close(1) [of g] literal_close(1) [of "49 / 50"]
      literal_close(1) [of "1 / 10"]
    by (simp_all add: is_soft_overload_def is_critical_overload_def to_f64_le53)
qed

lemma demo_recovery:
  assumes "1 / 1024 \<le> k" "k \<le> 49 / 100" "1 / 1024 \<le> g" "g \<le> 49 / 100" "a < 600" "w < 6" "0 \<le> w"
  shows "is_recovery_sample demo_config (demo_sample t a b w k g u 0)"
proof -
  have "rnd k < 1 / 2" "rnd g < 1 / 2" "0 < rnd (1 / 100)"
    using literal_close [of k] literal_close [of g] literal_bounds assms by linarith+
  moreover have "(of_int a :: rat) < 600" "(of_int w :: rat) < 6" using assms by simp_all
  moreover have "f_of_int w = Fin (of_int w)" "f_mul (f_of_int 8) (Fin (3 / 4)) = Fin 6"
    using assms by (simp_all add: f_of_int_def to_f64_of_int f64_simps to_f64_le53)
  ultimately show ?thesis
    using assms literal_close(1) [of k] literal_close(1) [of g] literal_close(1) [of "1 / 100"] product_pos
    by (simp add: is_recovery_sample_def literal_products to_f64_le53 del: f_mul.simps)
qed

lemma demo_soft:
  "is_soft_overload demo_config (demo_sample t 980 b w k g u e)"
  "\<not> is_critical_overload demo_config (demo_sample t 980 8 3 (88 / 100) (82 / 100) (92 / 100) 0)"
  "is_critical_overload demo_config (demo_sample t 1720 b w k g u e)"
  "\<not> is_recovery_sample demo_config (demo_sample t 760 b w k g u e)"
  using literal_close [of "88 / 100"] literal_close [of "82 / 100"] literal_close [of "98 / 100"]
    literal_close [of "10 / 100"]
  by (simp_all add: is_soft_overload_def is_critical_overload_def is_recovery_sample_def
      literal_products to_f64_le53 del: f_mul.simps)

lemmas demo_classes = below_limits demo_recovery demo_soft

lemma demo_turns:
  "demo_step demo_config (demo_sample t 420 2 0 (30 / 100) (40 / 100) (45 / 100) 0) 2 0 (demo_policy 8 0 0) =
    Inr (\<lparr>ar_decision = Admit, ar_recommended_max_inflight = 8, ar_overloaded = False,
          ar_critical = False\<rparr>, 3, 0, demo_policy 8 0 1)"
  "demo_step demo_config (demo_sample t 760 6 1 (70 / 100) (75 / 100) (80 / 100) 0) 3 0 (demo_policy 8 0 1) =
    Inr (\<lparr>ar_decision = Admit, ar_recommended_max_inflight = 8, ar_overloaded = False,
          ar_critical = False\<rparr>, 4, 0, demo_policy 8 0 0)"
  "demo_step demo_config (demo_sample t 980 8 3 (88 / 100) (82 / 100) (92 / 100) 0) 4 0 (demo_policy 8 0 0) =
    Inr (\<lparr>ar_decision = Queue, ar_recommended_max_inflight = 7, ar_overloaded = True,
          ar_critical = False\<rparr>, 4, 1, demo_policy 7 2 0)"
  "demo_step demo_config (demo_sample t 1720 8 4 (92 / 100) (95 / 100) (98 / 100) (2 / 100)) 4 1
      (demo_policy 7 2 0) =
    Inr (\<lparr>ar_decision = Reject, ar_recommended_max_inflight = 3, ar_overloaded = True,
          ar_critical = True\<rparr>, 4, 1, demo_policy 3 2 0)"
  "demo_step demo_config (demo_sample t 650 3 1 (55 / 100) (60 / 100) (58 / 100) 0) 4 1 (demo_policy 3 2 0) =
    Inr (\<lparr>ar_decision = Queue, ar_recommended_max_inflight = 3, ar_overloaded = False,
          ar_critical = False\<rparr>, 4, 2, demo_policy 3 1 0)"
  "demo_step demo_config (demo_sample t 430 2 0 (35 / 100) (45 / 100) (42 / 100) 0) 4 2 (demo_policy 3 1 0) =
    Inr (\<lparr>ar_decision = Queue, ar_recommended_max_inflight = 3, ar_overloaded = False,
          ar_critical = False\<rparr>, 4, 3, demo_policy 3 0 0)"
  "demo_step demo_config (demo_sample t 390 2 0 (32 / 100) (38 / 100) (40 / 100) 0) 4 3 (demo_policy 3 0 0) =
    Inr (\<lparr>ar_decision = Queue, ar_recommended_max_inflight = 3, ar_overloaded = False,
          ar_critical = False\<rparr>, 4, 4, demo_policy 3 0 1)"
  by (simp_all add: demo_step_def evaluate_def update_recommendation_def halve_def Let_def demo_classes demo_soft(2) [simplified]
      checked_int_def int_ok_def int_max_def)

lemma demo_output:
  "demo_main now = Inr
    ([\<lparr>ar_decision = Admit, ar_recommended_max_inflight = 8, ar_overloaded = False, ar_critical = False\<rparr>,
      \<lparr>ar_decision = Admit, ar_recommended_max_inflight = 8, ar_overloaded = False, ar_critical = False\<rparr>,
      \<lparr>ar_decision = Queue, ar_recommended_max_inflight = 7, ar_overloaded = True, ar_critical = False\<rparr>,
      \<lparr>ar_decision = Reject, ar_recommended_max_inflight = 3, ar_overloaded = True, ar_critical = True\<rparr>,
      \<lparr>ar_decision = Queue, ar_recommended_max_inflight = 3, ar_overloaded = False, ar_critical = False\<rparr>,
      \<lparr>ar_decision = Queue, ar_recommended_max_inflight = 3, ar_overloaded = False, ar_critical = False\<rparr>,
      \<lparr>ar_decision = Queue, ar_recommended_max_inflight = 3, ar_overloaded = False, ar_critical = False\<rparr>],
     4, 4)"
  by (simp add: demo_main_def new_demo_policy demo_samples_def demo_turns [simplified])

subsection \<open>Property\<close>

text \<open>
  C40: for every accepted configuration and every list of samples, the demo loop, started with
  counters within the limits, does not fail and prints one line for each sample; every printed
  recommendation lies between \<open>min_inflight\<close> and \<open>max_inflight\<close>; the simulated in-flight count
  grows by exactly one for each Admit and the queue by exactly one for each Queue (the loop's
  \<^verbatim>\<open>std::min\<close> clamps never take effect), and neither exceeds its limit.
\<close>

theorem demo_accounts:
  assumes "new_policy c = Inr p" "ints_ok c" "cfg_max_inflight c < int_max"
    and "0 \<le> i" "i \<le> cfg_max_inflight c" "0 \<le> q" "q \<le> cfg_max_queue_size c"
  shows "\<exists>rs. demo_loop c ms i q p = Inr (rs, i + taken Admit rs, q + taken Queue rs) \<and>
    length rs = length ms \<and>
    i + taken Admit rs \<le> cfg_max_inflight c \<and> q + taken Queue rs \<le> cfg_max_queue_size c \<and>
    list_all (\<lambda>r. cfg_min_inflight c \<le> ar_recommended_max_inflight r \<and>
      ar_recommended_max_inflight r \<le> cfg_max_inflight c) rs"
  using new_policy_ok [OF assms(1,2)] assms(3-) by (intro demo_loop_counts) (simp_all add: bounded_cap_def)

text \<open>The program itself: two requests admitted, four queued, one rejected.\<close>

theorem demo_accounts_witness:
  "\<exists>rs. demo_main int = Inr (rs, 4, 4) \<and> length rs = 7 \<and> taken Admit rs = 2 \<and> taken Queue rs = 4 \<and>
     map ar_recommended_max_inflight rs = [8, 8, 7, 3, 3, 3, 3] \<and>
     list_all (\<lambda>r. 2 \<le> ar_recommended_max_inflight r \<and> ar_recommended_max_inflight r \<le> 8) rs"
  using demo_accounts [OF new_demo_policy demo_ints_ok, of 2 0 "demo_samples int"]
  by (auto simp: demo_output demo_main_def [symmetric] new_demo_policy)

end
