(* ===== verification/Spec2Isabelle.thy ===== *)
theory Spec2Isabelle
  imports SlidingWindow TokenBucket AdmissionPolicy SseParser InflightLimiter ProxyMetrics
    ProxyConfig ProxyJson ProxySession ProxyServer ProxyPermits ProxyInvariants ProxyEffects
    ProxyProtocol ProxyQueue ProxyStream ProxyReplies ProxySettle ProxyGate ProxyBytes ProxyThreads ProxyRaces
    ProxyOneThread ProxyScenarios ProxyProperties Demo
begin

text \<open>
  The SLO-aware controller in front of vLLM: a verification of its C++ code under
  \<^verbatim>\<open>controller/src\<close> and \<^verbatim>\<open>controller/include/vllm_slo\<close>.

  \<^bold>\<open>The program.\<close> It has two executables over a library of six small classes. \<^verbatim>\<open>controller_demo\<close> drives
  the admission policy with fixed samples. \<^verbatim>\<open>vllm_slo_proxy\<close> is an HTTP proxy: it admits a bounded
  number of chat requests to the upstream, lets a bounded number wait, refuses the others, and passes
  the event stream of the upstream on to the client.

  \<^bold>\<open>The theories and the code.\<close>
  \<^item> Prelude: generic lemmas, the types \<open>size_t\<close> and \<open>result\<close>, the exceptions, \<open>checked_int\<close>. F64: the
    doubles of the code as IEEE binary64 values with rounding to even, infinities and NaN.
  \<^item> SlidingWindow, TokenBucket, AdmissionPolicy, SseParser, InflightLimiter and ProxyMetrics model the
    classes of the same names (\<^verbatim>\<open>sliding_window.cpp\<close> and so on), method by method: a class is a record
    of its fields, a method a function from the object before to the object after, an exception a value
    of \<open>exn\<close>, with the state it leaves behind where the code can go on. Each method holds the mutex
    of its object, so it is one step; \<open>record_ttft\<close>, which takes two locks in turn, is also given as two.
    The permits of the limiter are objects with a weak pointer, in a heap of limiters.
  \<^item> ProxyConfig: \<^verbatim>\<open>proxy_config.hpp\<close> and the reading of the environment in \<^verbatim>\<open>proxy_main.cpp\<close>.
  \<^item> ProxyJson: the JSON that \<^verbatim>\<open>proxy_session.cpp\<close> writes. ProxySession: the handlers of
    \<^verbatim>\<open>proxy_session.cpp\<close>, one definition for each member function and each completion lambda.
    ProxyServer: \<^verbatim>\<open>proxy_server.cpp\<close>, the main function of \<^verbatim>\<open>proxy_main.cpp\<close> and the event loop.
  \<^item> Demo: \<^verbatim>\<open>main.cpp\<close>, the demo program.

  \<^bold>\<open>How the parts interact.\<close> A session asks the limiter when it has read a chat request
  (\<open>handle_request\<close>). Admitted, it keeps the permit until \<open>finish_request\<close> or \<open>fail_with_status\<close>
  resets it; the release frees the slot and runs the limiter's callback, which posts a promotion on the
  server's strand. Queued, it posts itself to the server's list (\<open>enqueue_session\<close>), from which a
  promotion takes it (\<open>promote_queued_sessions\<close>) unless its timer cancels it first. The bytes of the
  response go through the session's SSE parser (\<open>observe_sse_chunk\<close>), which finds the first data for
  the metrics and the end of the stream.

  The state of the whole proxy is the record \<open>server\<close>: limiter, metrics, the list of waiting sessions,
  the closures posted on the strand, the sessions with their pending asynchronous operations. Its
  steps are \<open>exec_event\<close>: the environment chooses which pending operation completes next and how, when
  a connection, a call of \<open>stop\<close> or a signal arrives, and the strand runs its closures in order.
  \<open>reachable\<close> is the set of states of the loop from a started server.

  \<^bold>\<open>What the lemmas show.\<close>
  \<^item> Classes: each has an invariant that the constructor establishes and every method keeps; the
    functional behaviour is given on every branch. The parser refines a declarative specification of the
    format and does not depend on how the input is cut; the window's percentiles are exact in spite of
    floating point; the bucket keeps its rate up to an explicit rounding error; the policy's
    recommendation stays in range, falls at once and recovers slowly and completely; the limiter's
    counter is the number of permits. Interfaces of the limiter, the policy and the other classes are
    locales, interpreted on the model.
  \<^item> ProxyPermits: in every state the counter of the limiter is the number of sessions with a permit
    (\<open>permits_ok\<close>, with one more for a permit on its way). ProxyInvariants: the limits never change.
    ProxyEffects: what each operation does to one session (\<open>on_session\<close>). ProxyProtocol: what a session
    waits for in each of its phases (\<open>session_ok\<close>), the accounts of the server (\<open>protocol_ok\<close>), and
    every completion keeps them. ProxyQueue: waiting sessions are listed and a promotion is posted when
    a slot is free (\<open>queue_ok\<close>); together these hold in every reachable state (\<open>reachable_ok\<close>).
    ProxyStream: the course of a response. ProxyReplies: the messages a client is sent (\<open>reply_ok\<close>),
    and what one handler (\<open>replies\<close>, \<open>enters\<close>) or one promotion (\<open>promotes\<close>) does to the queue.
    ProxyBytes: over every run, the bytes of a body that a client has been sent against those that its
    session has read (\<open>relayed\<close>). ProxySettle: a handler leaves the admission alone (\<open>stays\<close>) or ends its
    request (\<open>ends\<close>).
  \<^item> ProxyGate: an abstract specification of the admission (\<open>gate_step\<close>, whose labels say who enters,
    waits, starts, gives up and finishes: a bounded set of active sessions, a bounded list of waiting ones
    of which only the first may start, closing), the abstraction \<open>gate_of\<close> of a state of the proxy, the
    invariant \<open>proxy_ok\<close>, and the simulation: every event of the proxy is a sequence of steps of the gate
    with labels that the event permits (\<open>event_gate\<close>), so that over every run waiting sessions start in the
    order of their arrival (\<open>gate_run_fifo\<close>). The expiry of a timer ends its request (\<open>timeout_event\<close>), so
    that no request stays for ever.
  \<^item> ProxyThreads: the admission once more, with several worker threads. Each session's strand and the
    server's strand move one visible action at a time (\<open>move_exec\<close>): an access to \<open>queued_\<close> or
    \<open>finished_\<close>, a call of the limiter, a posted closure, an access to the permit. In every interleaving
    the in-flight limit holds and no place in the queue is lost (\<open>threads_ok\<close>). ProxyRaces: with a bounded
    number of workers, each of which keeps a closure until its end (\<open>run_on\<close>); runs of two workers show,
    for all limits, which of the guarantees of the proxy are lost.
  \<^item> ProxyOneThread: the two models agree. \<open>mirrors\<close> relates a state of the proxy with one worker thread to
    a state of the strands (the same limiter, list and posted closures; each session's strand at rest, with
    the same flags and permit), and every event of the proxy is a run of moves that keeps it
    (\<open>follows_event\<close>): the proxy is one of the interleavings.
  \<^item> ProxyScenarios: concrete runs. ProxyProperties: the properties of the proxy.

  \<^bold>\<open>Conditions.\<close> Some guarantees end when the server begins to stop: the queue counter is then zero
  although sessions may still wait for their timers, promotions no longer start anybody, and a request
  that is queued after the call of \<open>stop\<close> leaves the accounts (\<open>leaking_run\<close>). The properties say so. Those of
  ProxyProperties are about one worker thread, the default.

  \<^bold>\<open>Bounds.\<close> No function has fuel: the loops are structural, or their termination is proved. Sizes and
  counters are 64-bit words that wrap around; the \<open>int\<close> of the policy is an integer whose overflow is
  an error. The width of \<open>unsigned long\<close> and the clock readings are parameters.

  \<^bold>\<open>Not modelled.\<close>
  \<^item> Several worker threads, but for the admission. In ProxySession and ProxyServer a handler runs to its
    end before the next one, as with the default of one worker thread. ProxyThreads interleaves the
    strands, but leaves out the course of a response, and data races on plain members (the permit, the
    timers), which are undefined behaviour of the language, are taken as atomic accesses there.
  \<^item> Boost (sockets, resolver, timers, HTTP parsing and serialisation) is the environment: any pending
    operation may complete at any time with any outcome that its handler distinguishes. So timeouts of
    a stream are error outcomes, and header fields other than the status, the target and the body are
    left out.
  \<^item> Allocation failure, thread creation, and the text written to the terminal.
  \<^item> The unit tests, the mock server (but for the frame format of its stream, which is the encoder of the
    parser's round trip), scripts, build files and documents.
\<close>

end
